(* ===== verification/Packetia_Prelude.thy ===== *)
theory Packetia_Prelude
  imports Main "HOL-Library.Word"
begin

text \<open>
  Shared vocabulary of the development.

  \<^item> Machine integers.  \<open>uint8_t\<close> .. \<open>uint64_t\<close> whose wrap-around or bit layout the code uses
    (sequence numbers, wire fields) are \<open>n word\<close>.  Counters, sizes (\<open>size_t\<close>) and clock readings, on
    which the code only adds, compares and subtracts under a guard, are \<open>nat\<close>; extended sequence
    numbers (\<open>int64_t\<close>) are \<open>int\<close>.
  \<^item> Checked memory.  A buffer (\<open>const uint8_t*\<close> plus a size) is a list of bytes.  Every read of the
    C++ code is one of the \<open>rd\<close> combinators below: it passes the value on when the index is inside the
    buffer and ends in \<open>Fault\<close> otherwise, so an out-of-bounds read of the source is a value of the model
    and its absence is a theorem, not a convention.
  \<^item> \<open>std::map\<close>: an association list in strictly ascending key order, with \<open>emplace\<close> (keeps an
    existing entry), \<open>erase\<close> and in-order iteration.
  \<^item> Event machines with output, with the two locales the stateful components interpret: an
    invariant kept by every step, and output keys that only grow.
\<close>

section \<open>Integers and collections of facts\<close>

unbundle bit_operations_syntax

type_synonym u8 = "8 word"
type_synonym u16 = "16 word"
type_synonym u32 = "32 word"
type_synonym u64 = "64 word"
type_synonym bytes = "8 word list"

text \<open>A steady clock's time points are nanoseconds; \<open>ms n\<close> is \<open>std::chrono::milliseconds(n)\<close>.\<close>

definition ms :: "nat \<Rightarrow> int" where
  "ms n = int n * 1000000"

named_theorems rd_simps \<open>evaluation of checked reads\<close>
named_theorems safe_intro \<open>rules for goals of the form \<open>m \<noteq> Fault\<close>\<close>
named_theorems omap_simps \<open>ordered maps\<close>

section \<open>Outcome of a parser and checked reads\<close>

text \<open>
  A C++ parser returns \<open>false\<close> (\<open>Reject\<close>), returns \<open>true\<close> after filling its result (\<open>Ok\<close>), or reads
  outside its buffer, which is undefined behaviour (\<open>Fault\<close>).
\<close>

datatype 'a outcome = Ok 'a | Reject | Fault

fun bind_outcome :: "'a outcome \<Rightarrow> ('a \<Rightarrow> 'b outcome) \<Rightarrow> 'b outcome" where
  "bind_outcome (Ok x) k = k x"
| "bind_outcome Reject k = Reject"
| "bind_outcome Fault k = Fault"

definition rd8 :: "bytes \<Rightarrow> nat \<Rightarrow> (u8 \<Rightarrow> 'a outcome) \<Rightarrow> 'a outcome" where
  "rd8 p i k = (if i < length p then k (p ! i) else Fault)"

text \<open>\<open>slice p off n\<close> is the byte range \<open>[p + off, p + off + n)\<close>.\<close>

definition slice :: "bytes \<Rightarrow> nat \<Rightarrow> nat \<Rightarrow> bytes" where
  "slice p off n = take n (drop off p)"

definition rd_slice :: "bytes \<Rightarrow> nat \<Rightarrow> nat \<Rightarrow> (bytes \<Rightarrow> 'a outcome) \<Rightarrow> 'a outcome" where
  "rd_slice p off n k = (if off + n \<le> length p then k (slice p off n) else Fault)"

lemma rd8_inside [simp, rd_simps]: "i < length p \<Longrightarrow> rd8 p i k = k (p ! i)"
  by (simp add: rd8_def)

lemma rd_slice_inside [simp, rd_simps]: "off + n \<le> length p \<Longrightarrow> rd_slice p off n k = k (slice p off n)"
  by (simp add: rd_slice_def)

lemma length_slice [simp]: "off + n \<le> length p \<Longrightarrow> length (slice p off n) = n"
  by (simp add: slice_def)

lemma drop_prefix_add: "p = h @ c \<Longrightarrow> length h = n \<Longrightarrow> drop (n + k) p = drop k c"
  by simp

lemma rd8_cong [fundef_cong]:
  "p = q \<Longrightarrow> i = j \<Longrightarrow> (j < length q \<Longrightarrow> k (q ! j) = k' (q ! j)) \<Longrightarrow> rd8 p i k = rd8 q j k'"
  by (simp add: rd8_def)

lemma rd_slice_cong [fundef_cong]:
  "p = q \<Longrightarrow> i = j \<Longrightarrow> m = n \<Longrightarrow> (j + n \<le> length q \<Longrightarrow> k (slice q j n) = k' (slice q j n)) \<Longrightarrow>
     rd_slice p i m k = rd_slice q j n k'"
  by (simp add: rd_slice_def)

lemma bind_outcome_cong [fundef_cong]:
  "m = n \<Longrightarrow> (\<And>x. n = Ok x \<Longrightarrow> k x = k' x) \<Longrightarrow> bind_outcome m k = bind_outcome n k'"
  by (cases n) auto

lemma safe_rd8 [safe_intro]: "i < length p \<Longrightarrow> k (p ! i) \<noteq> Fault \<Longrightarrow> rd8 p i k \<noteq> Fault"
  by simp

lemma safe_rd_slice [safe_intro]:
  "off + n \<le> length p \<Longrightarrow> k (slice p off n) \<noteq> Fault \<Longrightarrow> rd_slice p off n k \<noteq> Fault"
  by simp

lemma safe_bind [safe_intro]:
  "m \<noteq> Fault \<Longrightarrow> (\<And>x. m = Ok x \<Longrightarrow> k x \<noteq> Fault) \<Longrightarrow> bind_outcome m k \<noteq> Fault"
  by (cases m) auto

lemma bind_outcome_Ok_iff: "bind_outcome m k = Ok y \<longleftrightarrow> (\<exists>x. m = Ok x \<and> k x = Ok y)"
  by (cases m) auto

lemma bind_assoc: "bind_outcome (bind_outcome m f) g = bind_outcome m (\<lambda>x. bind_outcome (f x) g)"
  by (cases m) auto

lemma bind_Fault_iff: "bind_outcome m k = Fault \<longleftrightarrow> m = Fault \<or> (\<exists>x. m = Ok x \<and> k x = Fault)"
  by (cases m) auto

lemma bind_Reject_iff: "bind_outcome m k = Reject \<longleftrightarrow> m = Reject \<or> (\<exists>x. m = Ok x \<and> k x = Reject)"
  by (cases m) auto

lemma rd8_Ok_iff: "rd8 p i k = Ok y \<longleftrightarrow> i < length p \<and> k (p ! i) = Ok y"
  by (simp add: rd8_def)

section \<open>Ordered maps (\<open>std::map\<close>)\<close>

type_synonym ('k, 'v) omap = "('k \<times> 'v) list"

definition omap_ok :: "('k::linorder, 'v) omap \<Rightarrow> bool" where
  "omap_ok m \<longleftrightarrow> sorted_wrt (<) (map fst m)"

fun omap_emplace :: "'k::linorder \<Rightarrow> 'v \<Rightarrow> ('k, 'v) omap \<Rightarrow> ('k, 'v) omap" where
  "omap_emplace k v [] = [(k, v)]"
| "omap_emplace k v ((k', v') # m) =
     (if k < k' then (k, v) # (k', v') # m
      else if k = k' then (k', v') # m
      else (k', v') # omap_emplace k v m)"

definition omap_erase :: "'k \<Rightarrow> ('k, 'v) omap \<Rightarrow> ('k, 'v) omap" where
  "omap_erase k m = filter (\<lambda>e. fst e \<noteq> k) m"

text \<open>The interface the components rely on, over the abstract map a container stands for.\<close>

locale ordered_map =
  fixes find :: "'m \<Rightarrow> 'k \<Rightarrow> 'v option"
    and emplace :: "'k \<Rightarrow> 'v \<Rightarrow> 'm \<Rightarrow> 'm"
    and erase :: "'k \<Rightarrow> 'm \<Rightarrow> 'm"
    and card_of :: "'m \<Rightarrow> nat"
    and ok :: "'m \<Rightarrow> bool"
  assumes find_emplace: "ok m \<Longrightarrow> find (emplace k v m) =
            (if find m k = None then (find m)(k \<mapsto> v) else find m)"
    and find_erase: "ok m \<Longrightarrow> find (erase k m) = (find m)(k := None)"
    and ok_emplace: "ok m \<Longrightarrow> ok (emplace k v m)"
    and ok_erase: "ok m \<Longrightarrow> ok (erase k m)"
    and card_dom: "ok m \<Longrightarrow> card_of m = card (dom (find m))"
    and finite_dom_find: "ok m \<Longrightarrow> finite (dom (find m))"
begin

lemma dom_emplace: "ok m \<Longrightarrow> dom (find (emplace k v m)) = insert k (dom (find m))"
  by (auto simp: find_emplace split: if_splits)

lemma card_emplace:
  assumes "ok m"
  shows "card_of (emplace k v m) = (if find m k = None then Suc (card_of m) else card_of m)"
  using assms card_dom [OF assms] card_dom [OF ok_emplace [OF assms]] finite_dom_find [OF assms]
  by (auto simp: dom_emplace insert_absorb domI card_insert_if)

lemma card_erase:
  assumes "ok m"
  shows "card_of (erase k m) = (if find m k = None then card_of m else card_of m - 1)"
proof -
  have "dom (find (erase k m)) = dom (find m) - {k}"
    using assms by (auto simp: find_erase)
  then show ?thesis
    using assms card_dom [OF assms] card_dom [OF ok_erase [OF assms]] finite_dom_find [OF assms]
    by (auto simp: card_Diff_singleton_if domI)
qed

lemma emplace_keeps: "ok m \<Longrightarrow> find m k = Some w \<Longrightarrow> find (emplace k' v m) k = Some w"
  by (auto simp: find_emplace)

end

lemma omap_ok_Nil [simp, omap_simps]: "omap_ok []"
  by (simp add: omap_ok_def)

lemma omap_ok_Cons [omap_simps]: "omap_ok ((k, v) # m) \<longleftrightarrow> (\<forall>k' \<in> fst ` set m. k < k') \<and> omap_ok m"
  by (auto simp: omap_ok_def)

lemma omap_ok_distinct: "omap_ok m \<Longrightarrow> distinct (map fst m)"
  by (simp add: omap_ok_def strict_sorted_iff)

lemma set_emplace_keys [omap_simps]: "fst ` set (omap_emplace k v m) = insert k (fst ` set m)"
  by (induction k v m rule: omap_emplace.induct) auto

lemma set_omap_emplace: "set (omap_emplace k v m) \<subseteq> insert (k, v) (set m)"
  by (induction k v m rule: omap_emplace.induct) auto

lemma omap_ok_emplace: "omap_ok m \<Longrightarrow> omap_ok (omap_emplace k v m)"
  by (induction k v m rule: omap_emplace.induct) (auto simp: omap_ok_Cons set_emplace_keys)

lemma omap_ok_filter: "omap_ok m \<Longrightarrow> omap_ok (filter P m)"
  by (induction m) (auto simp: omap_ok_Cons)

lemma map_of_emplace_apply:
  "omap_ok m \<Longrightarrow> map_of (omap_emplace k v m) x =
     (if x = k then Some (case map_of m k of None \<Rightarrow> v | Some w \<Rightarrow> w) else map_of m x)"
proof (induction k v m rule: omap_emplace.induct)
  case (2 k v k' v' m)
  have "k < k' \<Longrightarrow> map_of m k = None"
    using "2.prems" by (force simp: omap_ok_Cons map_of_eq_None_iff)
  with 2 show ?case
    by (auto simp: omap_ok_Cons)
qed auto

lemma map_of_emplace:
  "omap_ok m \<Longrightarrow> map_of (omap_emplace k v m) =
     (if map_of m k = None then (map_of m)(k \<mapsto> v) else map_of m)"
  by (rule ext) (auto simp: map_of_emplace_apply)

lemma map_of_filter_key [omap_simps]:
  "map_of (filter (\<lambda>e. P (fst e)) m) x = (if P x then map_of m x else None)"
  by (induction m) auto

lemma map_of_erase: "map_of (omap_erase k m) = (map_of m)(k := None)"
  by (induction m) (auto simp: omap_erase_def)

lemma length_omap: "omap_ok m \<Longrightarrow> length m = card (dom (map_of m))"
  using omap_ok_distinct [of m] distinct_card [of "map fst m"] by (simp add: dom_map_of_conv_image_fst)

lemma omap_ok_erase: "omap_ok m \<Longrightarrow> omap_ok (omap_erase k m)"
  by (simp add: omap_erase_def omap_ok_filter)

interpretation omap: ordered_map map_of omap_emplace omap_erase length omap_ok
  by unfold_locales
    (auto simp: map_of_emplace map_of_erase omap_ok_emplace omap_ok_erase length_omap finite_dom_map_of)

section \<open>Event machines\<close>

text \<open>
  A component with its calls as events.  \<open>adm\<close> is what the code relies on from its caller (for
  example that clock readings are positive).
\<close>

fun run :: "('s \<Rightarrow> 'e \<Rightarrow> 's \<times> 'o list) \<Rightarrow> 's \<Rightarrow> 'e list \<Rightarrow> 's \<times> 'o list" where
  "run step s [] = (s, [])"
| "run step s (e # es) =
     (let (s', out) = step s e; (s'', out') = run step s' es in (s'', out @ out'))"

locale invariant_machine =
  fixes step :: "'s \<Rightarrow> 'e \<Rightarrow> 's \<times> 'o list"
    and adm :: "'e \<Rightarrow> bool"
    and inv :: "'s \<Rightarrow> bool"
  assumes step_inv: "inv s \<Longrightarrow> adm e \<Longrightarrow> inv (fst (step s e))"
begin

lemma run_inv: "inv s \<Longrightarrow> list_all adm es \<Longrightarrow> inv (fst (run step s es))"
  by (induction es arbitrary: s) (auto simp: split_def Let_def step_inv)

end

text \<open>
  A machine whose outputs carry keys: each step emits strictly growing keys, between the bound before
  the step and the bound after it.  Then no run ever repeats or reorders a key.
\<close>

locale ordered_output_machine = invariant_machine step adm inv
  for step :: "'s \<Rightarrow> 'e \<Rightarrow> 's \<times> 'o list" and adm :: "'e \<Rightarrow> bool" and inv :: "'s \<Rightarrow> bool" +
  fixes low :: "'s \<Rightarrow> int"
    and key :: "'o \<Rightarrow> int"
  assumes step_sorted: "inv s \<Longrightarrow> adm e \<Longrightarrow> sorted_wrt (<) (map key (snd (step s e)))"
    and step_above: "inv s \<Longrightarrow> adm e \<Longrightarrow> x \<in> set (snd (step s e)) \<Longrightarrow> low s \<le> key x"
    and step_below: "inv s \<Longrightarrow> adm e \<Longrightarrow> x \<in> set (snd (step s e)) \<Longrightarrow> key x < low (fst (step s e))"
    and step_low: "inv s \<Longrightarrow> adm e \<Longrightarrow> low s \<le> low (fst (step s e))"
begin

lemma run_low_above:
  "inv s \<Longrightarrow> list_all adm es \<Longrightarrow>
     low s \<le> low (fst (run step s es)) \<and> (\<forall>x \<in> set (snd (run step s es)). low s \<le> key x)"
proof (induction es arbitrary: s)
  case (Cons e es)
  have e: "adm e" "list_all adm es"
    using Cons.prems by auto
  have "low (fst (step s e)) \<le> low (fst (run step (fst (step s e)) es)) \<and>
        (\<forall>x \<in> set (snd (run step (fst (step s e)) es)). low (fst (step s e)) \<le> key x)"
    using Cons e by (simp add: step_inv)
  then show ?case
    using step_low [OF Cons.prems(1) e(1)] step_above [OF Cons.prems(1) e(1)]
    by (fastforce simp: split_def Let_def)
qed simp

lemma run_sorted: "inv s \<Longrightarrow> list_all adm es \<Longrightarrow> sorted_wrt (<) (map key (snd (run step s es)))"
proof (induction es arbitrary: s)
  case (Cons e es)
  have e: "adm e" "list_all adm es"
    using Cons.prems by auto
  have "key x < key y" if "x \<in> set (snd (step s e))" "y \<in> set (snd (run step (fst (step s e)) es))" for x y
    using step_below [OF Cons.prems(1) e(1) that(1)]
      run_low_above [OF step_inv [OF Cons.prems(1) e(1)] e(2)] that(2)
    by fastforce
  then show ?case
    using step_sorted [OF Cons.prems(1) e(1)] Cons.IH [OF step_inv [OF Cons.prems(1) e(1)] e(2)]
    by (auto simp: split_def Let_def sorted_wrt_append)
qed simp

end

end
