(* ===== verification/Byte_Codec.thy ===== *)
theory Byte_Codec
  imports Packetia_Prelude
begin

text \<open>
  \<open>src/utils/utils.cpp\<close>: the big- and little-endian readers and writers every protocol parser and
  builder of the repository goes through.  A reader is a checked read at an offset of a buffer; a
  writer overwrites bytes in place and ends in \<open>Fault\<close> when the buffer is too small.  The locale
  \<open>fixed_width_codec\<close> states what a fixed-width field format promises and proves once how arrays
  of such fields are laid out and read back; it is interpreted for all the widths used on the wire.
\<close>

section \<open>Byte combinations\<close>

definition be16 :: "u8 \<Rightarrow> u8 \<Rightarrow> u16" where
  "be16 a b = push_bit 8 (ucast a) OR ucast b"

definition be24 :: "u8 \<Rightarrow> u8 \<Rightarrow> u8 \<Rightarrow> u32" where
  "be24 a b c = push_bit 16 (ucast a) OR push_bit 8 (ucast b) OR ucast c"

definition be32 :: "u8 \<Rightarrow> u8 \<Rightarrow> u8 \<Rightarrow> u8 \<Rightarrow> u32" where
  "be32 a b c d = push_bit 24 (ucast a) OR push_bit 16 (ucast b) OR push_bit 8 (ucast c) OR ucast d"

definition be64 :: "u8 \<Rightarrow> u8 \<Rightarrow> u8 \<Rightarrow> u8 \<Rightarrow> u8 \<Rightarrow> u8 \<Rightarrow> u8 \<Rightarrow> u8 \<Rightarrow> u64" where
  "be64 a b c d e f g h =
     push_bit 56 (ucast a) OR push_bit 48 (ucast b) OR push_bit 40 (ucast c) OR push_bit 32 (ucast d) OR
     push_bit 24 (ucast e) OR push_bit 16 (ucast f) OR push_bit 8 (ucast g) OR ucast h"

definition enc16 :: "u16 \<Rightarrow> bytes" where
  "enc16 v = [ucast (drop_bit 8 v AND 0xFF), ucast (v AND 0xFF)]"

definition enc24 :: "u32 \<Rightarrow> bytes" where
  "enc24 v = (let v = v AND 0x00FFFFFF in
     [ucast (drop_bit 16 v AND 0xFF), ucast (drop_bit 8 v AND 0xFF), ucast (v AND 0xFF)])"

definition enc32 :: "u32 \<Rightarrow> bytes" where
  "enc32 v = [ucast (drop_bit 24 v AND 0xFF), ucast (drop_bit 16 v AND 0xFF),
              ucast (drop_bit 8 v AND 0xFF), ucast (v AND 0xFF)]"

definition enc64 :: "u64 \<Rightarrow> bytes" where
  "enc64 v = [ucast (drop_bit 56 v AND 0xFF), ucast (drop_bit 48 v AND 0xFF),
              ucast (drop_bit 40 v AND 0xFF), ucast (drop_bit 32 v AND 0xFF),
              ucast (drop_bit 24 v AND 0xFF), ucast (drop_bit 16 v AND 0xFF),
              ucast (drop_bit 8 v AND 0xFF), ucast (v AND 0xFF)]"

fun dec16 :: "bytes \<Rightarrow> u16" where
  "dec16 (a # b # _) = be16 a b"
| "dec16 _ = 0"

fun dec24 :: "bytes \<Rightarrow> u32" where
  "dec24 (a # b # c # _) = be24 a b c"
| "dec24 _ = 0"

fun dec32 :: "bytes \<Rightarrow> u32" where
  "dec32 (a # b # c # d # _) = be32 a b c d"
| "dec32 _ = 0"

fun dec64 :: "bytes \<Rightarrow> u64" where
  "dec64 (a # b # c # d # e # f # g # h # _) = be64 a b c d e f g h"
| "dec64 _ = 0"

section \<open>The operations of \<open>utils::Utils\<close>\<close>

definition ReadUint8 :: "bytes \<Rightarrow> nat \<Rightarrow> (u8 \<Rightarrow> 'a outcome) \<Rightarrow> 'a outcome" where
  "ReadUint8 p off k = rd8 p off k"

definition ReadUint16BE :: "bytes \<Rightarrow> nat \<Rightarrow> (u16 \<Rightarrow> 'a outcome) \<Rightarrow> 'a outcome" where
  "ReadUint16BE p off k = rd8 p off (\<lambda>a. rd8 p (off + 1) (\<lambda>b. k (be16 a b)))"

definition ReadUint24BE :: "bytes \<Rightarrow> nat \<Rightarrow> (u32 \<Rightarrow> 'a outcome) \<Rightarrow> 'a outcome" where
  "ReadUint24BE p off k =
     rd8 p off (\<lambda>a. rd8 p (off + 1) (\<lambda>b. rd8 p (off + 2) (\<lambda>c. k (be24 a b c))))"

definition ReadUint32BE :: "bytes \<Rightarrow> nat \<Rightarrow> (u32 \<Rightarrow> 'a outcome) \<Rightarrow> 'a outcome" where
  "ReadUint32BE p off k =
     rd8 p off (\<lambda>a. rd8 p (off + 1) (\<lambda>b. rd8 p (off + 2) (\<lambda>c. rd8 p (off + 3) (\<lambda>d.
       k (be32 a b c d)))))"

definition ReadUint64BE :: "bytes \<Rightarrow> nat \<Rightarrow> (u64 \<Rightarrow> 'a outcome) \<Rightarrow> 'a outcome" where
  "ReadUint64BE p off k =
     rd8 p off (\<lambda>a. rd8 p (off + 1) (\<lambda>b. rd8 p (off + 2) (\<lambda>c. rd8 p (off + 3) (\<lambda>d.
     rd8 p (off + 4) (\<lambda>e. rd8 p (off + 5) (\<lambda>f. rd8 p (off + 6) (\<lambda>g. rd8 p (off + 7) (\<lambda>h.
       k (be64 a b c d e f g h)))))))))"

text \<open>
  The signed 24-bit value of \<open>Utils::ReadInt24BE\<close>: the raw value, less \<open>0x1000000\<close> when bit 23 is set.
\<close>

definition int24_of :: "u32 \<Rightarrow> int" where
  "int24_of v = (if v AND 0x800000 \<noteq> 0 then sint v - 0x1000000 else sint v)"

definition ReadInt24BE :: "bytes \<Rightarrow> nat \<Rightarrow> (int \<Rightarrow> 'a outcome) \<Rightarrow> 'a outcome" where
  "ReadInt24BE p off k = ReadUint24BE p off (\<lambda>v. k (int24_of v))"

definition ReadUint16LE :: "bytes \<Rightarrow> nat \<Rightarrow> (u16 \<Rightarrow> 'a outcome) \<Rightarrow> 'a outcome" where
  "ReadUint16LE p off k = rd8 p (off + 1) (\<lambda>b. rd8 p off (\<lambda>a. k (push_bit 8 (ucast b) OR ucast a)))"

definition ReadUint24LE :: "bytes \<Rightarrow> nat \<Rightarrow> (u32 \<Rightarrow> 'a outcome) \<Rightarrow> 'a outcome" where
  "ReadUint24LE p off k =
     rd8 p (off + 2) (\<lambda>c. rd8 p (off + 1) (\<lambda>b. rd8 p off (\<lambda>a.
       k (push_bit 16 (ucast c) OR push_bit 8 (ucast b) OR ucast a))))"

definition ReadUint32LE :: "bytes \<Rightarrow> nat \<Rightarrow> (u32 \<Rightarrow> 'a outcome) \<Rightarrow> 'a outcome" where
  "ReadUint32LE p off k =
     rd8 p (off + 3) (\<lambda>d. rd8 p (off + 2) (\<lambda>c. rd8 p (off + 1) (\<lambda>b. rd8 p off (\<lambda>a.
       k (push_bit 24 (ucast d) OR push_bit 16 (ucast c) OR push_bit 8 (ucast b) OR ucast a)))))"

definition ReadUint64LE :: "bytes \<Rightarrow> nat \<Rightarrow> (u64 \<Rightarrow> 'a outcome) \<Rightarrow> 'a outcome" where
  "ReadUint64LE p off k =
     rd8 p (off + 7) (\<lambda>h. rd8 p (off + 6) (\<lambda>g. rd8 p (off + 5) (\<lambda>f. rd8 p (off + 4) (\<lambda>e.
     rd8 p (off + 3) (\<lambda>d. rd8 p (off + 2) (\<lambda>c. rd8 p (off + 1) (\<lambda>b. rd8 p off (\<lambda>a.
       k (push_bit 56 (ucast h) OR push_bit 48 (ucast g) OR push_bit 40 (ucast f) OR push_bit 32 (ucast e) OR
          push_bit 24 (ucast d) OR push_bit 16 (ucast c) OR push_bit 8 (ucast b) OR ucast a)))))))))"

text \<open>Writers: the bytes of \<open>xs\<close> go to \<open>data[off ..]\<close>.\<close>

definition store :: "bytes \<Rightarrow> nat \<Rightarrow> bytes \<Rightarrow> bytes outcome" where
  "store p off xs =
     (if off + length xs \<le> length p then Ok (take off p @ xs @ drop (off + length xs) p) else Fault)"

definition WriteUint16BE :: "bytes \<Rightarrow> nat \<Rightarrow> u16 \<Rightarrow> bytes outcome" where
  "WriteUint16BE p off v = store p off (enc16 v)"

definition WriteUint24BE :: "bytes \<Rightarrow> nat \<Rightarrow> u32 \<Rightarrow> bytes outcome" where
  "WriteUint24BE p off v = store p off (enc24 v)"

definition WriteUint32BE :: "bytes \<Rightarrow> nat \<Rightarrow> u32 \<Rightarrow> bytes outcome" where
  "WriteUint32BE p off v = store p off (enc32 v)"

definition WriteUint64BE :: "bytes \<Rightarrow> nat \<Rightarrow> u64 \<Rightarrow> bytes outcome" where
  "WriteUint64BE p off v = store p off (enc64 v)"

definition WriteUint16LE :: "bytes \<Rightarrow> nat \<Rightarrow> u16 \<Rightarrow> bytes outcome" where
  "WriteUint16LE p off v = store p off [ucast (v AND 0xFF), ucast (drop_bit 8 v AND 0xFF)]"

definition WriteUint24LE :: "bytes \<Rightarrow> nat \<Rightarrow> u32 \<Rightarrow> bytes outcome" where
  "WriteUint24LE p off v = (let v = v AND 0x00FFFFFF in
     store p off [ucast (v AND 0xFF), ucast (drop_bit 8 v AND 0xFF), ucast (drop_bit 16 v AND 0xFF)])"

definition WriteUint32LE :: "bytes \<Rightarrow> nat \<Rightarrow> u32 \<Rightarrow> bytes outcome" where
  "WriteUint32LE p off v =
     store p off [ucast (v AND 0xFF), ucast (drop_bit 8 v AND 0xFF),
                  ucast (drop_bit 16 v AND 0xFF), ucast (drop_bit 24 v AND 0xFF)]"

definition WriteUint64LE :: "bytes \<Rightarrow> nat \<Rightarrow> u64 \<Rightarrow> bytes outcome" where
  "WriteUint64LE p off v =
     store p off [ucast (v AND 0xFF), ucast (drop_bit 8 v AND 0xFF),
                  ucast (drop_bit 16 v AND 0xFF), ucast (drop_bit 24 v AND 0xFF),
                  ucast (drop_bit 32 v AND 0xFF), ucast (drop_bit 40 v AND 0xFF),
                  ucast (drop_bit 48 v AND 0xFF), ucast (drop_bit 56 v AND 0xFF)]"

section \<open>Bit-level facts\<close>

lemma and_255: "x AND 255 = take_bit 8 (x :: 'a::len word)"
  unfolding take_bit_eq_mask by (simp add: mask_eq_exp_minus_1)

lemma ucast_and_255 [simp]: "(ucast (x AND 255) :: u8) = ucast x"
  unfolding and_255 by (rule bit_word_eqI) (simp add: bit_simps)

lemma bit_u8_high: "8 \<le> n \<Longrightarrow> \<not> bit (b :: u8) n"
  using bit_imp_le_length [of b n] by auto

text \<open>Words are equal when their bits are.\<close>

lemma u8_eqI:
  fixes v w :: u8
  assumes "bit v 0 = bit w 0" "bit v 1 = bit w 1" "bit v 2 = bit w 2" "bit v 3 = bit w 3"
    "bit v 4 = bit w 4" "bit v 5 = bit w 5" "bit v 6 = bit w 6" "bit v 7 = bit w 7"
  shows "v = w"
proof (rule bit_word_eqI)
  fix n assume "n < LENGTH(8)"
  then consider "n = 0" | "n = 1" | "n = 2" | "n = 3" | "n = 4" | "n = 5" | "n = 6" | "n = 7"
    by fastforce
  then show "bit v n = bit w n"
    by cases (use assms in simp_all)
qed

lemma u16_eqI:
  fixes v w :: u16
  assumes "bit v 0 = bit w 0" "bit v 1 = bit w 1" "bit v 2 = bit w 2" "bit v 3 = bit w 3"
    "bit v 4 = bit w 4" "bit v 5 = bit w 5" "bit v 6 = bit w 6" "bit v 7 = bit w 7"
    "bit v 8 = bit w 8" "bit v 9 = bit w 9" "bit v 10 = bit w 10" "bit v 11 = bit w 11"
    "bit v 12 = bit w 12" "bit v 13 = bit w 13" "bit v 14 = bit w 14" "bit v 15 = bit w 15"
  shows "v = w"
proof (rule bit_word_eqI)
  fix n assume "n < LENGTH(16)"
  moreover have "list_all (\<lambda>i. bit v i = bit w i) [0..<16]"
    using assms by (simp add: upt_conv_Cons eval_nat_numeral)
  ultimately show "bit v n = bit w n"
    by (simp only: list_all_iff set_upt) simp
qed

lemma not_bit_small:
  fixes w :: "'a::len word"
  assumes "unat w < 2 ^ k" "k \<le> n"
  shows "\<not> bit w n"
proof -
  have "unat w < 2 ^ n"
    using assms power_increasing [of k n "2 :: nat"] by (simp add: less_le_trans)
  then have "\<not> bit (unat w) n"
    by (simp add: bit_iff_odd)
  then show ?thesis
    using bit_imp_le_length [of w n] by (auto simp: bit_unsigned_iff)
qed

lemmas be_defs = be16_def be24_def be32_def be64_def
lemmas enc_defs = enc16_def enc24_def enc32_def enc64_def

lemma be16_parts [simp]: "be16 (ucast (drop_bit 8 v)) (ucast v) = v"
  unfolding be16_def by (rule bit_word_eqI) (auto simp: bit_simps)

text \<open>Wider words are put together from halves.\<close>

definition join16 :: "u16 \<Rightarrow> u16 \<Rightarrow> u32" where
  "join16 x y = push_bit 16 (ucast x) OR ucast y"

definition join32 :: "u32 \<Rightarrow> u32 \<Rightarrow> u64" where
  "join32 x y = push_bit 32 (ucast x) OR ucast y"

lemma bit_u16_high: "16 \<le> n \<Longrightarrow> \<not> bit (b :: u16) n"
  using bit_imp_le_length [of b n] by auto

lemma bit_u32_high: "32 \<le> n \<Longrightarrow> \<not> bit (b :: u32) n"
  using bit_imp_le_length [of b n] by auto

lemma bit_u8_imp: "bit (b :: u8) n \<Longrightarrow> n < 8"
  using bit_imp_le_length [of b n] by simp

lemma ucast_push_u8_u16:
  "n \<le> 8 \<Longrightarrow> ucast (push_bit n (ucast (a :: u8) :: u16)) = (push_bit n (ucast a) :: u32)"
  by (rule bit_word_eqI, auto simp: bit_simps; drule bit_u8_imp; arith)

lemma ucast_push_u8_u32:
  "m \<le> 24 \<Longrightarrow> ucast (push_bit m (ucast (a :: u8) :: u32)) = (push_bit m (ucast a) :: u64)"
  by (rule bit_word_eqI, auto simp: bit_simps; drule bit_u8_imp; arith)

lemma ucast_u8_u16: "(ucast (ucast (a :: u8) :: u16) :: u32) = ucast a"
  by (rule bit_word_eqI, auto simp: bit_simps; drule bit_u8_imp; arith)

lemma ucast_u8_u32: "(ucast (ucast (a :: u8) :: u32) :: u64) = ucast a"
  by (rule bit_word_eqI, auto simp: bit_simps; drule bit_u8_imp; arith)

lemmas ucast_push_u8 = ucast_push_u8_u16 ucast_push_u8_u32 ucast_u8_u16 ucast_u8_u32

lemma be32_join: "be32 a b c d = join16 (be16 a b) (be16 c d)"
  by (simp add: be_defs join16_def unsigned_or_eq ucast_push_u8 push_bit_or or.assoc)

lemma be64_join: "be64 a b c d e f g h = join32 (be32 a b c d) (be32 e f g h)"
  by (simp add: be_defs join32_def unsigned_or_eq ucast_push_u8 push_bit_or or.assoc)

lemma join16_halves [simp]:
  "ucast (drop_bit 16 (join16 x y)) = x" "ucast (join16 x y) = y"
  "join16 (ucast (drop_bit 16 v)) (ucast v) = v"
  unfolding join16_def by (auto intro!: bit_word_eqI simp: bit_simps bit_u16_high)

lemma join32_halves [simp]:
  "ucast (drop_bit 32 (join32 x y)) = x" "ucast (join32 x y) = y"
  "join32 (ucast (drop_bit 32 v)) (ucast v) = v"
  unfolding join32_def by (auto intro!: bit_word_eqI simp: bit_simps bit_u32_high)

lemma byte_of_u32:
  "(ucast (drop_bit 24 (v :: u32)) :: u8) = ucast (drop_bit 8 (ucast (drop_bit 16 v) :: u16))"
  "(ucast (drop_bit 16 (v :: u32)) :: u8) = ucast (ucast (drop_bit 16 v) :: u16)"
  "(ucast (drop_bit 8 (v :: u32)) :: u8) = ucast (drop_bit 8 (ucast v :: u16))"
  "(ucast (v :: u32) :: u8) = ucast (ucast v :: u16)"
  by (auto intro!: bit_word_eqI simp: bit_simps)

lemma byte_of_u64:
  "(ucast (drop_bit 56 (v :: u64)) :: u8) = ucast (drop_bit 24 (ucast (drop_bit 32 v) :: u32))"
  "(ucast (drop_bit 48 (v :: u64)) :: u8) = ucast (drop_bit 16 (ucast (drop_bit 32 v) :: u32))"
  "(ucast (drop_bit 40 (v :: u64)) :: u8) = ucast (drop_bit 8 (ucast (drop_bit 32 v) :: u32))"
  "(ucast (drop_bit 32 (v :: u64)) :: u8) = ucast (ucast (drop_bit 32 v) :: u32)"
  "(ucast (drop_bit 24 (v :: u64)) :: u8) = ucast (drop_bit 24 (ucast v :: u32))"
  "(ucast (drop_bit 16 (v :: u64)) :: u8) = ucast (drop_bit 16 (ucast v :: u32))"
  "(ucast (drop_bit 8 (v :: u64)) :: u8) = ucast (drop_bit 8 (ucast v :: u32))"
  "(ucast (v :: u64) :: u8) = ucast (ucast v :: u32)"
  by (auto intro!: bit_word_eqI simp: bit_simps)

lemma be32_parts [simp]:
  "be32 (ucast (drop_bit 24 v)) (ucast (drop_bit 16 v)) (ucast (drop_bit 8 v)) (ucast v) = v"
  by (simp only: be32_join byte_of_u32 [of v] be16_parts join16_halves)

lemma be64_parts [simp]:
  "be64 (ucast (drop_bit 56 v)) (ucast (drop_bit 48 v)) (ucast (drop_bit 40 v)) (ucast (drop_bit 32 v))
        (ucast (drop_bit 24 v)) (ucast (drop_bit 16 v)) (ucast (drop_bit 8 v)) (ucast v) = v"
  by (simp only: be64_join byte_of_u64 [of v] be32_parts join32_halves)

lemma be16_bytes [simp]: "ucast (drop_bit 8 (be16 a b)) = a" "ucast (be16 a b) = b"
  unfolding be_defs by (auto intro!: bit_word_eqI simp: bit_simps bit_u8_high)

lemma be24_bytes [simp]:
  "ucast (drop_bit 16 (be24 a b c)) = a" "ucast (drop_bit 8 (be24 a b c)) = b" "ucast (be24 a b c) = c"
  unfolding be_defs by (auto intro!: bit_word_eqI simp: bit_simps bit_u8_high)

lemma be32_bytes [simp]:
  "ucast (drop_bit 24 (be32 a b c d)) = a" "ucast (drop_bit 16 (be32 a b c d)) = b"
  "ucast (drop_bit 8 (be32 a b c d)) = c" "ucast (be32 a b c d) = d"
  by (simp_all only: be32_join byte_of_u32 [of "join16 (be16 a b) (be16 c d)"] join16_halves be16_bytes)

lemma be64_bytes [simp]:
  "ucast (drop_bit 56 (be64 a b c d e f g h)) = a" "ucast (drop_bit 48 (be64 a b c d e f g h)) = b"
  "ucast (drop_bit 40 (be64 a b c d e f g h)) = c" "ucast (drop_bit 32 (be64 a b c d e f g h)) = d"
  "ucast (drop_bit 24 (be64 a b c d e f g h)) = e" "ucast (drop_bit 16 (be64 a b c d e f g h)) = f"
  "ucast (drop_bit 8 (be64 a b c d e f g h)) = g" "ucast (be64 a b c d e f g h) = h"
  by (simp_all only: be64_join byte_of_u64 [of "join32 (be32 a b c d) (be32 e f g h)"] join32_halves
      be32_bytes)

lemma and_24: "v AND 0xFFFFFF = take_bit 24 (v :: u32)"
  unfolding take_bit_eq_mask by (simp add: mask_eq_exp_minus_1)

lemma ucast_take_24 [simp]:
  "(ucast (take_bit 24 (v :: u32)) :: u8) = ucast v"
  "(ucast (drop_bit 8 (take_bit 24 (v :: u32))) :: u8) = ucast (drop_bit 8 v)"
  "(ucast (drop_bit 16 (take_bit 24 (v :: u32))) :: u8) = ucast (drop_bit 16 v)"
  by (auto intro!: bit_word_eqI simp: bit_simps)

lemma be24_parts: "be24 (ucast (drop_bit 16 v)) (ucast (drop_bit 8 v)) (ucast v) = take_bit 24 v"
proof (rule bit_word_eqI)
  fix n
  show "bit (be24 (ucast (drop_bit 16 v)) (ucast (drop_bit 8 v)) (ucast v)) n = bit (take_bit 24 v) n"
    if "n < LENGTH(32)"
    using that unfolding be24_def
    by (cases "n < 8"; cases "n < 16"; cases "n < 24"; auto simp: bit_simps bit_u8_high not_less)
qed

lemma take_24_be24 [simp]: "take_bit 24 (be24 a b c) = be24 a b c"
  unfolding be_defs by (auto intro!: bit_word_eqI simp: bit_simps bit_u8_high)

lemma unat_u8_less: "unat (b :: u8) < 256"
proof -
  have "unat b < 2 ^ LENGTH(8)" by (rule unsigned_less)
  then show ?thesis by simp
qed

lemma unat_u16_less: "unat (b :: u16) < 65536"
proof -
  have "unat b < 2 ^ LENGTH(16)" by (rule unsigned_less)
  then show ?thesis by simp
qed

lemma unat_ucast_u8_u16: "unat (ucast (b :: u8) :: u16) = unat b"
  using unat_u8_less [of b] by (simp add: unsigned_ucast_eq take_bit_nat_eq_self)

lemma unat_be16: "unat (be16 a b) = unat a * 256 + unat b"
proof -
  have "be16 a b = push_bit 8 (ucast a) + ucast b"
    unfolding be16_def by (subst disjunctive_add) (auto simp: bit_simps bit_u8_high)
  also have "unat \<dots> = unat a * 256 + unat b"
    using unat_u8_less [of a] unat_u8_less [of b]
    by (simp add: unat_word_ariths push_bit_eq_mult unat_ucast_u8_u16)
  finally show ?thesis .
qed

section \<open>Fixed-width fields\<close>

text \<open>
  A field format: \<open>enc\<close> always produces \<open>width\<close> bytes, \<open>dec\<close> looks at the first \<open>width\<close> bytes only and
  inverts \<open>enc\<close> on the values the format can carry, and every \<open>width\<close> bytes are an encoding.
\<close>

locale fixed_width_codec =
  fixes width :: nat
    and enc :: "'w \<Rightarrow> bytes"
    and dec :: "bytes \<Rightarrow> 'w"
    and carried :: "'w \<Rightarrow> bool"
  assumes length_enc: "length (enc v) = width"
    and dec_enc: "carried v \<Longrightarrow> dec (enc v @ rest) = v"
    and dec_local: "width \<le> length p \<Longrightarrow> dec p = dec (take width p)"
    and enc_dec: "length p = width \<Longrightarrow> enc (dec p) = p"
    and carried_dec: "width \<le> length p \<Longrightarrow> carried (dec p)"
begin

lemma enc_inject: "carried v \<Longrightarrow> carried w \<Longrightarrow> enc v = enc w \<longleftrightarrow> v = w"
  by (metis dec_enc)

lemma dec_inject: "length p = width \<Longrightarrow> length q = width \<Longrightarrow> dec p = dec q \<longleftrightarrow> p = q"
  by (metis enc_dec)

lemma dec_at: "carried v \<Longrightarrow> off = length pre \<Longrightarrow> dec (drop off (pre @ enc v @ post)) = v"
  by (simp add: dec_enc)

lemma length_array: "length (concat (map enc vs)) = width * length vs"
  by (induction vs) (auto simp: length_enc)

lemma array_nth:
  assumes "i < length vs" "carried (vs ! i)"
  shows "dec (drop (width * i) (concat (map enc vs) @ post)) = vs ! i"
proof -
  have "vs = take i vs @ vs ! i # drop (Suc i) vs"
    by (rule id_take_nth_drop [OF assms(1)])
  then have "concat (map enc vs) @ post =
      concat (map enc (take i vs)) @ enc (vs ! i) @ (concat (map enc (drop (Suc i) vs)) @ post)"
    by (metis append.assoc concat.simps(2) concat_append list.simps(9) map_append)
  moreover have "width * i = length (concat (map enc (take i vs)))"
    using assms(1) by (simp add: length_array)
  ultimately show ?thesis
    by (simp only: dec_at [OF assms(2)])
qed

end

lemma list2_conv: "length p = 2 \<longleftrightarrow> (\<exists>a b. p = [a, b])"
  by (auto simp: numeral_2_eq_2 length_Suc_conv)

lemma list3_conv: "length p = 3 \<longleftrightarrow> (\<exists>a b c. p = [a, b, c])"
  by (auto simp: numeral_3_eq_3 length_Suc_conv)

lemma list4_conv: "length p = 4 \<longleftrightarrow> (\<exists>a b c d. p = [a, b, c, d])"
  by (auto simp: eval_nat_numeral length_Suc_conv)

lemma list8_conv: "length p = 8 \<longleftrightarrow> (\<exists>a b c d e f g h. p = [a, b, c, d, e, f, g, h])"
  by (auto simp: eval_nat_numeral length_Suc_conv)

lemma dec16_take: "2 \<le> length p \<Longrightarrow> dec16 (take 2 p) = dec16 p"
  by (cases p rule: dec16.cases) auto

lemma dec24_take: "3 \<le> length p \<Longrightarrow> dec24 (take 3 p) = dec24 p"
  by (cases p rule: dec24.cases) auto

lemma dec32_take: "4 \<le> length p \<Longrightarrow> dec32 (take 4 p) = dec32 p"
  by (cases p rule: dec32.cases) auto

lemma dec64_take: "8 \<le> length p \<Longrightarrow> dec64 (take 8 p) = dec64 p"
  by (cases p rule: dec64.cases) auto

interpretation u16c: fixed_width_codec 2 enc16 dec16 "\<lambda>_. True"
  by unfold_locales (auto simp: enc16_def dec16_take list2_conv)

interpretation u24c: fixed_width_codec 3 enc24 dec24 "\<lambda>v. v = take_bit 24 v"
proof unfold_locales
  show "3 \<le> length p \<Longrightarrow> dec24 p = take_bit 24 (dec24 p)" for p
    by (cases p rule: dec24.cases) auto
qed (auto simp: enc24_def and_24 be24_parts dec24_take list3_conv)

interpretation u32c: fixed_width_codec 4 enc32 dec32 "\<lambda>_. True"
  by unfold_locales (auto simp: enc32_def dec32_take list4_conv)

interpretation u64c: fixed_width_codec 8 enc64 dec64 "\<lambda>_. True"
  by unfold_locales (auto simp: enc64_def dec64_take list8_conv)

lemma unat_of_nat16: "n < 65536 \<Longrightarrow> unat (of_nat n :: u16) = n"
  by (simp add: unsigned_of_nat take_bit_nat_eq_self)

lemma dec_enc_append [simp]:
  "dec16 (enc16 v @ post) = v" "dec32 (enc32 w @ post) = w" "dec64 (enc64 x @ post) = x"
  "dec16 (enc16 v) = v" "dec32 (enc32 w) = w" "dec64 (enc64 x) = x"
  using u16c.dec_enc [of v post] u32c.dec_enc [of w post] u64c.dec_enc [of x post]
    u16c.dec_enc [of v "[]"] u32c.dec_enc [of w "[]"] u64c.dec_enc [of x "[]"]
  by simp_all

lemma length_enc_simps [simp]:
  "length (enc16 v) = 2" "length (enc24 w) = 3" "length (enc32 w) = 4" "length (enc64 x) = 8"
  by (simp_all add: u16c.length_enc u24c.length_enc u32c.length_enc u64c.length_enc)

section \<open>Readers and writers over buffers\<close>

lemma drop_step: "i < length p \<Longrightarrow> j = Suc i \<Longrightarrow> drop i p = p ! i # drop j p"
  by (simp add: Cons_nth_drop_Suc)

lemma drop2_conv: "off + 2 \<le> length p \<Longrightarrow> drop off p = p ! off # p ! (off + 1) # drop (off + 2) p"
  using drop_step [of off p "off + 1"] drop_step [of "off + 1" p "off + 2"] by simp

lemma drop3_conv:
  "off + 3 \<le> length p \<Longrightarrow> drop off p = p ! off # p ! (off + 1) # p ! (off + 2) # drop (off + 3) p"
  using drop2_conv [of off p] drop_step [of "off + 2" p "off + 3"] by simp

lemma drop4_conv:
  "off + 4 \<le> length p \<Longrightarrow>
     drop off p = p ! off # p ! (off + 1) # p ! (off + 2) # p ! (off + 3) # drop (off + 4) p"
  using drop3_conv [of off p] drop_step [of "off + 3" p "off + 4"] by simp

lemma drop8_conv:
  "off + 8 \<le> length p \<Longrightarrow>
     drop off p = p ! off # p ! (off + 1) # p ! (off + 2) # p ! (off + 3) #
       p ! (off + 4) # p ! (off + 5) # p ! (off + 6) # p ! (off + 7) # drop (off + 8) p"
  using drop4_conv [of off p] drop4_conv [of "off + 4" p] by (simp add: add.commute [of off])

lemma ReadUint16BE_eq [rd_simps]:
  "ReadUint16BE p off k = (if off + 2 \<le> length p then k (dec16 (drop off p)) else Fault)"
  by (cases "off + 2 \<le> length p") (simp_all add: ReadUint16BE_def rd8_def drop2_conv [of off])

lemma ReadUint24BE_eq [rd_simps]:
  "ReadUint24BE p off k = (if off + 3 \<le> length p then k (dec24 (drop off p)) else Fault)"
  by (cases "off + 3 \<le> length p") (simp_all add: ReadUint24BE_def rd8_def drop3_conv [of off])

lemma ReadUint32BE_eq [rd_simps]:
  "ReadUint32BE p off k = (if off + 4 \<le> length p then k (dec32 (drop off p)) else Fault)"
  by (cases "off + 4 \<le> length p") (simp_all add: ReadUint32BE_def rd8_def drop4_conv [of off])

lemma ReadUint64BE_eq [rd_simps]:
  "ReadUint64BE p off k = (if off + 8 \<le> length p then k (dec64 (drop off p)) else Fault)"
  by (cases "off + 8 \<le> length p") (simp_all add: ReadUint64BE_def rd8_def drop8_conv [of off])

lemma ReadInt24BE_eq [rd_simps]:
  "ReadInt24BE p off k = (if off + 3 \<le> length p then k (int24_of (dec24 (drop off p))) else Fault)"
  by (simp add: ReadInt24BE_def ReadUint24BE_eq)

lemma ReadUint16BE_cong [fundef_cong]:
  "p = q \<Longrightarrow> i = j \<Longrightarrow> (j + 2 \<le> length q \<Longrightarrow> k (dec16 (drop j q)) = k' (dec16 (drop j q))) \<Longrightarrow>
     ReadUint16BE p i k = ReadUint16BE q j k'"
  by (simp add: ReadUint16BE_eq)

lemma ReadUint32BE_cong [fundef_cong]:
  "p = q \<Longrightarrow> i = j \<Longrightarrow> (j + 4 \<le> length q \<Longrightarrow> k (dec32 (drop j q)) = k' (dec32 (drop j q))) \<Longrightarrow>
     ReadUint32BE p i k = ReadUint32BE q j k'"
  by (simp add: ReadUint32BE_eq)

text \<open>The little-endian readers are the big-endian ones on the reversed field.\<close>

lemma ReadUint16LE_eq [rd_simps]:
  "ReadUint16LE p off k = (if off + 2 \<le> length p then k (dec16 (rev (slice p off 2))) else Fault)"
  by (cases "off + 2 \<le> length p")
    (simp_all add: ReadUint16LE_def rd8_def slice_def drop2_conv [of off] be16_def)

lemma ReadUint24LE_eq [rd_simps]:
  "ReadUint24LE p off k = (if off + 3 \<le> length p then k (dec24 (rev (slice p off 3))) else Fault)"
  by (cases "off + 3 \<le> length p")
    (simp_all add: ReadUint24LE_def rd8_def slice_def drop3_conv [of off] be24_def)

lemma ReadUint32LE_eq [rd_simps]:
  "ReadUint32LE p off k = (if off + 4 \<le> length p then k (dec32 (rev (slice p off 4))) else Fault)"
  by (cases "off + 4 \<le> length p")
    (simp_all add: ReadUint32LE_def rd8_def slice_def drop4_conv [of off] be32_def)

lemma ReadUint64LE_eq [rd_simps]:
  "ReadUint64LE p off k = (if off + 8 \<le> length p then k (dec64 (rev (slice p off 8))) else Fault)"
  by (cases "off + 8 \<le> length p")
    (simp_all add: ReadUint64LE_def rd8_def slice_def drop8_conv [of off] be64_def)

lemma WriteLE_rev:
  "WriteUint16LE p off v16 = store p off (rev (enc16 v16))"
  "WriteUint24LE p off v32 = store p off (rev (enc24 v32))"
  "WriteUint32LE p off v32 = store p off (rev (enc32 v32))"
  "WriteUint64LE p off v64 = store p off (rev (enc64 v64))"
  by (simp_all add: WriteUint16LE_def WriteUint24LE_def WriteUint32LE_def WriteUint64LE_def enc_defs Let_def)

lemma store_Ok_iff:
  "store p off xs = Ok q \<longleftrightarrow>
     off + length xs \<le> length p \<and> q = take off p @ xs @ drop (off + length xs) p"
  by (auto simp: store_def)

lemma store_length: "store p off xs = Ok q \<Longrightarrow> length q = length p"
  by (auto simp: store_Ok_iff)

lemma store_slice: "store p off xs = Ok q \<Longrightarrow> slice q off (length xs) = xs"
  by (auto simp: store_Ok_iff slice_def min_def)

lemma store_drop: "store p off xs = Ok q \<Longrightarrow> drop off q = xs @ drop (off + length xs) p"
  by (auto simp: store_Ok_iff)

lemma store_frame:
  "store p off xs = Ok q \<Longrightarrow> i < off \<or> off + length xs \<le> i \<Longrightarrow> i < length p \<Longrightarrow> q ! i = p ! i"
  by (auto simp: store_Ok_iff nth_append)

lemma store_fault_iff: "store p off xs = Fault \<longleftrightarrow> length p < off + length xs"
  by (auto simp: store_def)

text \<open>
  The two sign extensions of the repository agree: \<open>Utils::ReadInt24BE\<close> subtracts \<open>2^24\<close>, the RTCP
  receiver sets the top byte and reinterprets (\<open>int24_or\<close>, used in theory \<open>Rtcp\<close>).
\<close>

definition int24_or :: "u32 \<Rightarrow> int" where
  "int24_or v = (if v AND 0x00800000 \<noteq> 0 then sint (v OR 0xFF000000) else sint v)"

lemma sign_bit24: "(v :: u32) AND 0x800000 \<noteq> 0 \<longleftrightarrow> bit v 23"
  by (simp add: bit_iff_and_push_bit_not_eq_0)

lemma high_byte: "(0xFF000000 :: u32) = push_bit 24 (mask 8)"
  by (simp add: mask_eq_exp_minus_1)

lemma int24_or_signed: "int24_or (take_bit 24 v) = signed_take_bit 23 (uint v)"
proof -
  let ?c = "signed_take_bit 23 (uint v)"
  have "(if bit v 23 then take_bit 24 v OR 0xFF000000 else take_bit 24 v) = (word_of_int ?c :: u32)"
    unfolding high_byte
    by (rule bit_word_eqI) (auto simp: bit_simps min_def not_less dest: le_antisym)
  then have "int24_or (take_bit 24 v) = sint (word_of_int ?c :: u32)"
    by (simp add: int24_or_def sign_bit24 bit_simps split: if_splits)
  also have "\<dots> = ?c"
    by (simp add: signed_of_int)
  finally show ?thesis .
qed

lemma int24_of_signed: "int24_of (take_bit 24 v) = signed_take_bit 23 (uint v)"
proof -
  have "sint (take_bit 24 v) = take_bit 24 (uint v)"
    by (simp add: sint_uint unsigned_take_bit_eq signed_take_bit_take_bit)
  then show ?thesis
    by (simp add: int24_of_def sign_bit24 bit_simps signed_take_bit_eq_take_bit_minus)
qed

text \<open>
  The repository's two readings of a signed 24-bit field agree on every byte pattern:
  \<open>Utils::ReadInt24BE\<close>, which subtracts \<open>2^24\<close>, and the RTCP receiver's \<open>ReadInt24BE\<close>, which sets the
  top byte and reinterprets, both yield the two's complement value of the three bytes.
\<close>

theorem ReadInt24_agree:
  "int24_of (be24 a b c) = int24_or (be24 a b c) \<and>
   - (2 ^ 23) \<le> int24_or (be24 a b c) \<and> int24_or (be24 a b c) < 2 ^ 23 \<and>
   int24_or (be24 a b c) mod 2 ^ 24 = uint (be24 a b c)"
proof -
  have t: "be24 a b c = take_bit 24 (be24 a b c)"
    by simp
  have i: "int24_or (be24 a b c) = signed_take_bit 23 (uint (be24 a b c))"
    "int24_of (be24 a b c) = signed_take_bit 23 (uint (be24 a b c))"
    by (subst t, rule int24_or_signed int24_of_signed)+
  have "take_bit 24 (signed_take_bit 23 (uint (be24 a b c))) = uint (be24 a b c)"
    by (simp add: take_bit_signed_take_bit flip: unsigned_take_bit_eq)
  then show ?thesis
    using signed_take_bit_int_less_exp [of 23 "uint (be24 a b c)"]
      signed_take_bit_int_greater_eq_minus_exp [of 23 "uint (be24 a b c)"]
    by (simp add: i take_bit_eq_mod)
qed

end
