(* ===== verification/Rtcp_Types.thy ===== *)
theory Rtcp_Types
  imports Byte_Codec
begin

text \<open>
  The value types of \<open>src/protocol/Rtcp/RtcpContext.h\<close> shared by the RTCP parser, the builders and the
  transport-wide feedback generator.
\<close>

record RrBlock =
  rr_ssrc :: u32
  fraction_lost :: u8
  cumulative_lost :: int
  extended_highest_seq :: u32
  rr_jitter :: u32
  lsr :: u32
  dlsr :: u32

record TransportFeedbackPacket =
  transport_sequence :: u16
  received :: bool
  receive_time_us :: int
  receive_time_ms :: nat

record TransportFeedbackReport =
  tf_sender_ssrc :: u32
  tf_media_ssrc :: u32
  base_sequence :: u16
  packet_status_count :: u16
  tf_packet_count :: u8
  reference_time_ms :: nat
  tf_packets :: "TransportFeedbackPacket list"

record RtcpPacketInfo =
  info_valid :: bool
  has_media_ssrc :: bool
  has_sender_ssrc :: bool
  first_packet_type :: u8
  first_count_or_fmt :: u8
  info_sender_ssrc :: u32
  info_media_ssrc :: u32

definition RtcpPacketInfo_init :: RtcpPacketInfo where
  "RtcpPacketInfo_init = \<lparr>info_valid = False, has_media_ssrc = False, has_sender_ssrc = False,
     first_packet_type = 0, first_count_or_fmt = 0, info_sender_ssrc = 0, info_media_ssrc = 0\<rparr>"

end
