(* ===== verification/Sequence_Unwrap.thy ===== *)
theory Sequence_Unwrap
  imports Packetia_Prelude
begin

text \<open>
  16-bit sequence numbers extended to a 64-bit line.  The repository has two implementations,
  \<open>RtpSequenceNumberUnwrapper\<close> (\<open>src/Common/Depacketizer/H26xPacketBuffer.cpp\<close>, modelled here) and
  \<open>TransportFeedbackGenerator::Unwrap\<close> (theory \<open>Transport_Feedback\<close>).  The locale \<open>seq_unwrap\<close> is what
  both promise: the result has the given low 16 bits and lies within half a cycle of the reference.
  From these two laws alone it follows that a sender whose packets never stray half a cycle from the
  highest one seen is followed exactly, across any number of wrap-arounds.
\<close>

section \<open>The contract\<close>

text \<open>Unwrap a stream against the highest value seen so far.\<close>

fun unwrap_all :: "(int \<Rightarrow> u16 \<Rightarrow> int) \<Rightarrow> int \<Rightarrow> u16 list \<Rightarrow> int list" where
  "unwrap_all unwrap r [] = []"
| "unwrap_all unwrap r (s # ss) = (let u = unwrap r s in u # unwrap_all unwrap (max r u) ss)"

text \<open>Every number of the stream is less than half a cycle away from the highest before it.\<close>

fun near_stream :: "int \<Rightarrow> int list \<Rightarrow> bool" where
  "near_stream r [] = True"
| "near_stream r (x # xs) \<longleftrightarrow> \<bar>x - r\<bar> < 2 ^ 15 \<and> near_stream (max r x) xs"

locale seq_unwrap =
  fixes unwrap :: "int \<Rightarrow> u16 \<Rightarrow> int"
  assumes unwrap_mod: "unwrap r s mod 65536 = uint s"
    and unwrap_near: "\<bar>unwrap r s - r\<bar> \<le> 32768"
begin

lemma unwrap_recovers:
  assumes "\<bar>x - r\<bar> < 2 ^ 15"
  shows "unwrap r (word_of_int x) = x"
proof -
  let ?u = "unwrap r (word_of_int x)"
  have "?u mod 65536 = x mod 65536"
    unfolding unwrap_mod by (simp add: unsigned_of_int take_bit_eq_mod)
  then have "65536 dvd \<bar>?u - x\<bar>"
    by (simp add: mod_eq_dvd_iff)
  moreover have "\<bar>?u - x\<bar> < 65536"
    using assms unwrap_near [of r "word_of_int x"] by simp
  ultimately show ?thesis
    using zdvd_not_zless [of "\<bar>?u - x\<bar>" 65536] by fastforce
qed

lemma word_of_unwrap [simp]: "word_of_int (unwrap r s) = s"
proof -
  have "uint (word_of_int (unwrap r s) :: u16) = uint s"
    by (simp add: unsigned_of_int take_bit_eq_mod unwrap_mod)
  then show ?thesis
    unfolding word_uint_eq_iff .
qed

lemma unwrap_all_recovers: "near_stream r xs \<Longrightarrow> unwrap_all unwrap r (map word_of_int xs) = xs"
  by (induction xs arbitrary: r) (auto simp: unwrap_recovers Let_def)

end

section \<open>\<open>RtpSequenceNumberUnwrapper\<close>\<close>

record seq_unwrapper =
  initialized :: bool
  latest_unwrapped_seq :: int

definition Unwrapper_init :: seq_unwrapper where
  "Unwrapper_init = \<lparr>initialized = False, latest_unwrapped_seq = 0\<rparr>"

definition Unwrapper_Reset :: "seq_unwrapper \<Rightarrow> seq_unwrapper" where
  "Unwrapper_Reset u = u\<lparr>initialized := False, latest_unwrapped_seq := 0\<rparr>"

text \<open>The candidate of \<open>Unwrap\<close> once the unwrapper is initialized.\<close>

definition unwrap_candidate :: "int \<Rightarrow> u16 \<Rightarrow> int" where
  "unwrap_candidate latest sequence_number =
     (let cycle_base = latest AND NOT 0xFFFF;
          candidate = cycle_base + uint sequence_number
      in if candidate - latest > 2 ^ 15 then candidate - 2 ^ 16
         else if latest - candidate > 2 ^ 15 then candidate + 2 ^ 16
         else candidate)"

definition Unwrapper_Unwrap :: "u16 \<Rightarrow> seq_unwrapper \<Rightarrow> int \<times> seq_unwrapper" where
  "Unwrapper_Unwrap sequence_number u =
     (if \<not> initialized u
      then (uint sequence_number, u\<lparr>initialized := True, latest_unwrapped_seq := uint sequence_number\<rparr>)
      else let candidate = unwrap_candidate (latest_unwrapped_seq u) sequence_number
           in (candidate, if candidate > latest_unwrapped_seq u then u\<lparr>latest_unwrapped_seq := candidate\<rparr> else u))"

section \<open>Correctness\<close>

lemma uint_u16_bounds: "0 \<le> uint (s :: u16)" "uint s < 65536"
  using uint_lt2p [of s] by auto

lemma and_not_low16_push: "(x :: int) AND - 65536 = push_bit 16 (drop_bit 16 x)"
proof -
  have "x AND - 65536 = x AND NOT (mask 16)"
    by (simp add: mask_eq_exp_minus_1 not_int_def)
  also have "\<dots> = push_bit 16 (drop_bit 16 x)"
    by (rule bit_eqI) (auto simp: bit_simps)
  finally show ?thesis .
qed

lemma and_not_low16: "(x :: int) AND - 65536 = x - x mod 65536"
  using bits_ident [of 16 x] by (simp add: and_not_low16_push take_bit_eq_mod)

lemma word_and_low16 [simp]: "(word_of_int (x AND 65535) :: u16) = word_of_int x"
proof -
  have "x AND 65535 = take_bit 16 x"
    using take_bit_eq_mask [of 16 x] by (simp add: mask_eq_exp_minus_1)
  then show ?thesis
    by (auto intro!: bit_word_eqI simp: bit_simps)
qed

text \<open>The candidate both implementations start from.\<close>

lemma near_base:
  fixes r :: int and s :: u16
  shows "(r - r mod 65536 + uint s) mod 65536 = uint s" and "\<bar>uint s - r mod 65536\<bar> < 65536"
proof -
  have "r - r mod 65536 + uint s = uint s + r div 65536 * 65536"
    by (simp add: minus_mod_eq_div_mult)
  then show "(r - r mod 65536 + uint s) mod 65536 = uint s"
    using uint_u16_bounds [of s] by simp
  show "\<bar>uint s - r mod 65536\<bar> < 65536"
    using uint_u16_bounds [of s] pos_mod_bound [of 65536 r] pos_mod_sign [of 65536 r] by linarith
qed

lemma near_base_shift:
  fixes r :: int and s :: u16
  shows "(r - r mod 65536 + uint s - 65536) mod 65536 = uint s"
    and "(r - r mod 65536 + uint s + 65536) mod 65536 = uint s"
  using near_base(1) [of r s] by (simp_all flip: mod_diff_left_eq mod_add_left_eq add: uint_u16_bounds)

interpretation rtp_unwrap: seq_unwrap unwrap_candidate
proof
  fix r :: int and s :: u16
  show "unwrap_candidate r s mod 65536 = uint s"
    using near_base(1) [of r s] near_base_shift [of r s]
    by (simp add: unwrap_candidate_def Let_def and_not_low16)
  show "\<bar>unwrap_candidate r s - r\<bar> \<le> 32768"
    using near_base(2) [of s r]
    by (auto simp: unwrap_candidate_def Let_def and_not_low16)
qed

text \<open>The unwrapper as a machine: one event per packet, one extended number out.\<close>

definition Unwrapper_step :: "seq_unwrapper \<Rightarrow> u16 \<Rightarrow> seq_unwrapper \<times> int list" where
  "Unwrapper_step u s = (let (x, u') = Unwrapper_Unwrap s u in (u', [x]))"

lemma Unwrapper_run_all:
  "initialized u \<Longrightarrow>
     snd (run Unwrapper_step u ss) = unwrap_all unwrap_candidate (latest_unwrapped_seq u) ss"
  by (induction ss arbitrary: u)
    (auto simp: Unwrapper_step_def Unwrapper_Unwrap_def Let_def split_def max_def)

lemma Unwrapper_step_fresh:
  "Unwrapper_step Unwrapper_init s =
     (\<lparr>initialized = True, latest_unwrapped_seq = uint s\<rparr>, [uint s])"
  by (simp add: Unwrapper_step_def Unwrapper_init_def Unwrapper_Unwrap_def)

lemma Unwrapper_Reset_init: "Unwrapper_Reset u = Unwrapper_init"
  by (simp add: Unwrapper_Reset_def Unwrapper_init_def)

text \<open>
  C37: the RTP sequence unwrapper follows its sender: as long as every packet is less than half a cycle
  away from the highest one before it, the extended numbers it returns are exactly the sender's own
  unbounded counters, across any number of wrap-arounds of the 16-bit field.
\<close>
theorem Unwrapper_follows:
  assumes "near_stream (uint s) xs"
  shows "snd (run Unwrapper_step (Unwrapper_Reset u) (s # map word_of_int xs)) = uint s # xs"
  using assms
  by (simp add: Unwrapper_Reset_init Unwrapper_step_fresh Unwrapper_run_all rtp_unwrap.unwrap_all_recovers
      split_def)

theorem Unwrapper_follows_witness:
  "snd (run Unwrapper_step (Unwrapper_Reset \<lparr>initialized = True, latest_unwrapped_seq = 7\<rparr>) [0xFFFE, 0, 0xFFFF, 3]) =
   [65534, 65536, 65535, 65539]"
proof -
  have wire: "map word_of_int [65536, 65535, 65539] = [0, 0xFFFF, 3 :: u16]"
    by simp
  show ?thesis
    using Unwrapper_follows [of "0xFFFE" "[65536, 65535, 65539]" "\<lparr>initialized = True, latest_unwrapped_seq = 7\<rparr>"]
    by (simp add: wire del: run.simps list.map)
qed

end
