(* ===== verification/Transport_Feedback.thy ===== *)
theory Transport_Feedback
  imports Rtcp_Types Sequence_Unwrap
begin

text \<open>
  \<open>src/protocol/Rtcp/TransportFeedbackGenerator.cpp\<close>: the receiver's record of packet arrivals in the
  transport-wide sequence space and the batches of status reports made from it.  All times are
  \<open>int64_t\<close> microseconds, extended sequence numbers \<open>int64_t\<close>.
\<close>

section \<open>State and operations\<close>

record tfg_config =
  feedback_interval_ms :: nat
  max_packet_status_count :: nat
  max_history_packets :: nat

record tfg =
  tfg_cfg :: tfg_config
  arrivals_us :: "(int, int) omap"
  has_sequence :: bool
  highest_extended_sequence :: int
  next_feedback_sequence :: int
  last_feedback_time_us :: int
  feedback_packet_count :: u8

text \<open>The constructor clamps the configuration.\<close>

definition Tfg_config :: "tfg_config \<Rightarrow> tfg_config" where
  "Tfg_config c =
     (let c = c\<lparr>feedback_interval_ms := max 1 (feedback_interval_ms c)\<rparr>;
          c = c\<lparr>max_packet_status_count := max 1 (max_packet_status_count c)\<rparr>
      in c\<lparr>max_history_packets := max (max_packet_status_count c) (max_history_packets c)\<rparr>)"

definition Tfg_new :: "tfg_config \<Rightarrow> tfg" where
  "Tfg_new c = \<lparr>tfg_cfg = Tfg_config c, arrivals_us = [], has_sequence = False,
     highest_extended_sequence = 0, next_feedback_sequence = 0, last_feedback_time_us = 0,
     feedback_packet_count = 0\<rparr>"

definition Tfg_default :: tfg_config where
  "Tfg_default = \<lparr>feedback_interval_ms = 100, max_packet_status_count = 512, max_history_packets = 4096\<rparr>"

text \<open>\<open>Unwrap\<close> against the highest extended number: the low 16 bits are or-ed in.\<close>

definition tfg_candidate :: "int \<Rightarrow> u16 \<Rightarrow> int" where
  "tfg_candidate highest sequence =
     (let candidate = (highest AND NOT 0xFFFF) OR uint sequence
      in if candidate + 0x8000 < highest then candidate + 0x10000
         else if candidate > highest + 0x8000 then candidate - 0x10000
         else candidate)"

definition Tfg_Unwrap :: "tfg \<Rightarrow> u16 \<Rightarrow> int" where
  "Tfg_Unwrap g sequence =
     (if \<not> has_sequence g then uint sequence else tfg_candidate (highest_extended_sequence g) sequence)"

text \<open>The \<open>while\<close> loop of \<open>OnPacket\<close>: drop the oldest arrivals and move the feedback start past them.\<close>

fun evict_history :: "nat \<Rightarrow> (int, int) omap \<Rightarrow> int \<Rightarrow> (int, int) omap \<times> int" where
  "evict_history limit [] nxt = ([], nxt)"
| "evict_history limit ((discarded, t) # m) nxt =
     (if limit < length ((discarded, t) # m) then evict_history limit m (max nxt (discarded + 1))
      else ((discarded, t) # m, nxt))"

definition Tfg_record :: "int \<Rightarrow> int \<Rightarrow> tfg \<Rightarrow> tfg" where
  "Tfg_record extended arrival_time_us g =
     (let (m, nxt) = evict_history (max_history_packets (tfg_cfg g))
                       (omap_emplace extended arrival_time_us (arrivals_us g)) (next_feedback_sequence g)
      in g\<lparr>arrivals_us := m, next_feedback_sequence := nxt\<rparr>)"

definition Tfg_OnPacket :: "u16 \<Rightarrow> int \<Rightarrow> tfg \<Rightarrow> bool \<times> tfg" where
  "Tfg_OnPacket transport_seq arrival_time_us g =
     (if arrival_time_us < 0 then (False, g)
      else let extended = Tfg_Unwrap g transport_seq in
        if \<not> has_sequence g
        then (True, Tfg_record extended arrival_time_us
               (g\<lparr>has_sequence := True, highest_extended_sequence := extended,
                  next_feedback_sequence := extended\<rparr>))
        else if extended < next_feedback_sequence g \<and> last_feedback_time_us g \<noteq> 0
        then (False, g)
        else (True, Tfg_record extended arrival_time_us
               (g\<lparr>highest_extended_sequence := max (highest_extended_sequence g) extended,
                  next_feedback_sequence :=
                    (if last_feedback_time_us g = 0 then min (next_feedback_sequence g) extended
                     else next_feedback_sequence g)\<rparr>)))"

definition Tfg_ShouldSendFeedback :: "tfg \<Rightarrow> int \<Rightarrow> bool" where
  "Tfg_ShouldSendFeedback g now_us =
     (if \<not> has_sequence g \<or> highest_extended_sequence g < next_feedback_sequence g then False
      else if nat (highest_extended_sequence g - next_feedback_sequence g + 1)
                \<ge> max_packet_status_count (tfg_cfg g) then True
      else last_feedback_time_us g = 0 \<or>
           now_us - last_feedback_time_us g \<ge> int (feedback_interval_ms (tfg_cfg g)) * 1000)"

text \<open>The status of one extended number; \<open>int64_t\<close> division truncates towards zero, arrivals are not negative.\<close>

definition status_of :: "(int, int) omap \<Rightarrow> int \<Rightarrow> TransportFeedbackPacket" where
  "status_of m extended =
     (case map_of m extended of
        Some t \<Rightarrow> \<lparr>transport_sequence = word_of_int (extended AND 0xFFFF), received = True,
                   receive_time_us = t, receive_time_ms = nat (t div 1000)\<rparr>
      | None \<Rightarrow> \<lparr>transport_sequence = word_of_int (extended AND 0xFFFF), received = False,
                   receive_time_us = 0, receive_time_ms = 0\<rparr>)"

text \<open>The loop over the batch: the statuses pushed and \<open>first_arrival_us\<close>.\<close>

fun status_loop :: "(int, int) omap \<Rightarrow> int list \<Rightarrow> int \<Rightarrow> TransportFeedbackPacket list \<times> int" where
  "status_loop m [] first_arrival_us = ([], first_arrival_us)"
| "status_loop m (extended # es) first_arrival_us =
     (let packet = status_of m extended;
          first' = (if received packet \<and> first_arrival_us < 0 then receive_time_us packet
                    else first_arrival_us);
          (packets, first'') = status_loop m es first'
      in (packet # packets, first''))"

definition Tfg_BuildFeedback :: "u32 \<Rightarrow> u32 \<Rightarrow> int \<Rightarrow> tfg \<Rightarrow> TransportFeedbackReport option \<times> tfg" where
  "Tfg_BuildFeedback s_ssrc m_ssrc now_us g =
     (if \<not> Tfg_ShouldSendFeedback g now_us then (None, g)
      else let base = next_feedback_sequence g;
               last = min (highest_extended_sequence g)
                        (base + int (max_packet_status_count (tfg_cfg g)) - 1);
               (packets, first_arrival_us) = status_loop (arrivals_us g) [base..last] (-1)
           in (Some \<lparr>tf_sender_ssrc = s_ssrc, tf_media_ssrc = m_ssrc,
                     base_sequence = word_of_int (base AND 0xFFFF),
                     packet_status_count = word_of_int (last - base + 1),
                     tf_packet_count = feedback_packet_count g,
                     reference_time_ms =
                       (if first_arrival_us \<ge> 0 then nat (first_arrival_us div 64000) * 64 else 0),
                     tf_packets = packets\<rparr>,
               g\<lparr>feedback_packet_count := feedback_packet_count g + 1,
                 arrivals_us := filter (\<lambda>e. last < fst e) (arrivals_us g),
                 next_feedback_sequence := last + 1,
                 last_feedback_time_us := now_us\<rparr>))"

definition Tfg_Reset :: "tfg \<Rightarrow> tfg" where
  "Tfg_Reset g = g\<lparr>arrivals_us := [], has_sequence := False, highest_extended_sequence := 0,
     next_feedback_sequence := 0, last_feedback_time_us := 0, feedback_packet_count := 0\<rparr>"

definition Tfg_PendingPacketCount :: "tfg \<Rightarrow> nat" where
  "Tfg_PendingPacketCount g = length (arrivals_us g)"

section \<open>Unwrapping\<close>

lemma cycle_or_plus: "(h - h mod 65536 :: int) OR uint (s :: u16) = h - h mod 65536 + uint s"
proof -
  have "push_bit 16 (drop_bit 16 h) AND uint s = 0"
    by (rule bit_eqI) (auto simp: bit_simps dest: bit_imp_le_length)
  then show ?thesis
    by (simp add: disjunctive_add_eq_or [symmetric] and_not_low16_push flip: and_not_low16)
qed

lemma tfg_candidate_eq:
  "tfg_candidate r s =
     (let c = r - r mod 65536 + uint s
      in if c + 32768 < r then c + 65536 else if c > r + 32768 then c - 65536 else c)"
  by (simp add: tfg_candidate_def cycle_or_plus and_not_low16)

interpretation tfg_unwrap: seq_unwrap tfg_candidate
proof
  fix r :: int and s :: u16
  show "tfg_candidate r s mod 65536 = uint s"
    using near_base(1) [of r s] near_base_shift [of r s]
    by (simp add: tfg_candidate_eq Let_def)
  show "\<bar>tfg_candidate r s - r\<bar> \<le> 32768"
    using near_base(2) [of s r] by (auto simp: tfg_candidate_eq Let_def)
qed

text \<open>
  The two sequence unwrappers of the repository compute the same function: the distance-based one of
  the feedback generator and the mask-based one of the packet buffer give the same extended number for
  every reference and every 16-bit number.
\<close>
theorem unwrappers_agree: "tfg_candidate r s = unwrap_candidate r s"
  by (auto simp: tfg_candidate_eq unwrap_candidate_def Let_def and_not_low16)

section \<open>Well-formed generators\<close>

definition tfg_wf :: "tfg \<Rightarrow> bool" where
  "tfg_wf g \<longleftrightarrow>
     omap_ok (arrivals_us g) \<and>
     (\<forall>(k, t) \<in> set (arrivals_us g).
        next_feedback_sequence g \<le> k \<and> k \<le> highest_extended_sequence g \<and> 0 \<le> t) \<and>
     next_feedback_sequence g \<le> highest_extended_sequence g + 1 \<and>
     length (arrivals_us g) \<le> max_history_packets (tfg_cfg g) \<and>
     1 \<le> max_packet_status_count (tfg_cfg g) \<and>
     max_packet_status_count (tfg_cfg g) \<le> max_history_packets (tfg_cfg g) \<and>
     (\<not> has_sequence g \<longrightarrow> arrivals_us g = [] \<and> last_feedback_time_us g = 0)"

lemma tfg_wf_new: "tfg_wf (Tfg_new c)"
  by (simp add: tfg_wf_def Tfg_new_def Tfg_config_def Let_def)

lemma evict_history_spec:
  assumes "evict_history l m n = (m', n')" "omap_ok m"
    and "\<forall>(k, t) \<in> set m. n \<le> k \<and> k \<le> h" "n \<le> h + 1"
  shows "omap_ok m' \<and> set m' \<subseteq> set m \<and> (\<forall>(k, t) \<in> set m'. n' \<le> k) \<and> n \<le> n' \<and> n' \<le> h + 1 \<and>
    length m' \<le> l"
  using assms
proof (induction l m n rule: evict_history.induct)
  case (2 l d t m n)
  have "\<forall>(k, t) \<in> set m. max n (d + 1) \<le> k \<and> k \<le> h"
    using 2(3,4) by (force simp: omap_ok_Cons)
  then show ?case
    using 2 by (auto simp: omap_ok_Cons split: if_splits)
qed auto

text \<open>Storing an arrival keeps a generator well-formed when the number lies in the open range.\<close>

lemma Tfg_record_wf:
  assumes "tfg_wf g" "next_feedback_sequence g \<le> x" "x \<le> highest_extended_sequence g" "0 \<le> t"
    and "has_sequence g"
  shows "tfg_wf (Tfg_record x t g) \<and> next_feedback_sequence g \<le> next_feedback_sequence (Tfg_record x t g)"
proof -
  obtain m n where e: "evict_history (max_history_packets (tfg_cfg g)) (omap_emplace x t (arrivals_us g))
      (next_feedback_sequence g) = (m, n)"
    by force
  have sub: "set (omap_emplace x t (arrivals_us g)) \<subseteq> insert (x, t) (set (arrivals_us g))"
    by (rule set_omap_emplace)
  have "omap_ok m \<and> set m \<subseteq> set (omap_emplace x t (arrivals_us g)) \<and> (\<forall>(k, t) \<in> set m. n \<le> k) \<and>
      next_feedback_sequence g \<le> n \<and> n \<le> highest_extended_sequence g + 1 \<and>
      length m \<le> max_history_packets (tfg_cfg g)"
    by (rule evict_history_spec [OF e])
      (use assms sub in \<open>auto simp: tfg_wf_def omap_ok_emplace\<close>)
  then show ?thesis
    using assms sub e by (fastforce simp: tfg_wf_def Tfg_record_def)
qed

lemma Tfg_record_simps [simp]:
  "tfg_cfg (Tfg_record x t g) = tfg_cfg g" "has_sequence (Tfg_record x t g) = has_sequence g"
  "highest_extended_sequence (Tfg_record x t g) = highest_extended_sequence g"
  "last_feedback_time_us (Tfg_record x t g) = last_feedback_time_us g"
  by (simp_all add: Tfg_record_def split_def Let_def)

lemma Tfg_OnPacket_wf:
  assumes "tfg_wf g"
  shows "tfg_wf (snd (Tfg_OnPacket s t g))"
proof -
  let ?x = "Tfg_Unwrap g s"
  let ?fresh = "g\<lparr>has_sequence := True, highest_extended_sequence := ?x, next_feedback_sequence := ?x\<rparr>"
  let ?seen = "g\<lparr>highest_extended_sequence := max (highest_extended_sequence g) ?x,
    next_feedback_sequence := (if last_feedback_time_us g = 0 then min (next_feedback_sequence g) ?x
                     else next_feedback_sequence g)\<rparr>"
  have "tfg_wf (Tfg_record ?x t ?fresh)" if "\<not> has_sequence g" "0 \<le> t"
    using assms that by (intro Tfg_record_wf [THEN conjunct1]) (auto simp: tfg_wf_def)
  moreover have "tfg_wf (Tfg_record ?x t ?seen)"
    if "has_sequence g" "0 \<le> t" "\<not> (?x < next_feedback_sequence g \<and> last_feedback_time_us g \<noteq> 0)"
    using assms that by (intro Tfg_record_wf [THEN conjunct1]) (auto simp: tfg_wf_def)
  ultimately show ?thesis
    using assms by (auto simp: Tfg_OnPacket_def Let_def)
qed

lemma Tfg_OnPacket_last [simp]: "last_feedback_time_us (snd (Tfg_OnPacket s t g)) = last_feedback_time_us g"
  by (auto simp: Tfg_OnPacket_def Let_def)

lemma Tfg_OnPacket_next:
  assumes "tfg_wf g" "last_feedback_time_us g \<noteq> 0"
  shows "next_feedback_sequence g \<le> next_feedback_sequence (snd (Tfg_OnPacket s t g))"
proof -
  let ?x = "Tfg_Unwrap g s"
  let ?seen = "g\<lparr>highest_extended_sequence := max (highest_extended_sequence g) ?x\<rparr>"
  have "next_feedback_sequence g \<le> next_feedback_sequence (Tfg_record ?x t ?seen)"
    if "has_sequence g" "0 \<le> t" "next_feedback_sequence g \<le> ?x"
  proof -
    have "tfg_wf ?seen"
      using assms that by (auto simp: tfg_wf_def)
    then show ?thesis
      using that Tfg_record_wf [of ?seen ?x t] by simp
  qed
  then show ?thesis
    using assms by (auto simp: Tfg_OnPacket_def Let_def tfg_wf_def)
qed

section \<open>Reports\<close>

lemma status_loop_packets: "fst (status_loop m es f) = map (status_of m) es"
  by (induction es arbitrary: f) (auto simp: split_def Let_def)

definition tfg_batch_end :: "tfg \<Rightarrow> int" where
  "tfg_batch_end g = min (highest_extended_sequence g)
     (next_feedback_sequence g + int (max_packet_status_count (tfg_cfg g)) - 1)"

lemma Tfg_BuildFeedback_Some:
  assumes "Tfg_BuildFeedback ss mss now g = (Some r, g')"
  shows "tf_packets r = map (status_of (arrivals_us g)) [next_feedback_sequence g..tfg_batch_end g]"
    and "base_sequence r = word_of_int (next_feedback_sequence g)"
    and "packet_status_count r = word_of_int (tfg_batch_end g - next_feedback_sequence g + 1)"
    and "g' = g\<lparr>feedback_packet_count := feedback_packet_count g + 1,
                 arrivals_us := filter (\<lambda>e. tfg_batch_end g < fst e) (arrivals_us g),
                 next_feedback_sequence := tfg_batch_end g + 1, last_feedback_time_us := now\<rparr>"
    and "has_sequence g" "next_feedback_sequence g \<le> highest_extended_sequence g"
    and "tf_packet_count r = feedback_packet_count g" "tf_sender_ssrc r = ss" "tf_media_ssrc r = mss"
  using assms
  by (auto simp: Tfg_BuildFeedback_def Tfg_ShouldSendFeedback_def tfg_batch_end_def split_def Let_def
      status_loop_packets split: if_splits)

lemma tfg_batch_end_bounds:
  assumes "tfg_wf g" "next_feedback_sequence g \<le> highest_extended_sequence g"
  shows "next_feedback_sequence g \<le> tfg_batch_end g" "tfg_batch_end g \<le> highest_extended_sequence g"
    "tfg_batch_end g - next_feedback_sequence g < int (max_packet_status_count (tfg_cfg g))"
  using assms by (auto simp: tfg_wf_def tfg_batch_end_def)

lemma Tfg_BuildFeedback_None: "Tfg_BuildFeedback ss mss now g = (None, g') \<Longrightarrow> g' = g"
  by (auto simp: Tfg_BuildFeedback_def split_def Let_def split: if_splits)

lemma Tfg_BuildFeedback_wf:
  assumes "tfg_wf g" "Tfg_BuildFeedback ss mss now g = (Some r, g')"
  shows "tfg_wf g'"
proof -
  note b = Tfg_BuildFeedback_Some [OF assms(2)]
  note e = tfg_batch_end_bounds [OF assms(1) b(6)]
  have "length (filter (\<lambda>e. tfg_batch_end g < fst e) (arrivals_us g)) \<le> length (arrivals_us g)"
    by simp
  then show ?thesis
    using assms(1) b(4,5) e by (auto simp: tfg_wf_def omap_ok_filter simp del: length_filter_le)
qed

text \<open>The generator as a machine: packets and timer polls in, extended numbers with their status out.\<close>

datatype tfg_event = Arrival u16 int | Poll u32 u32 int

definition tfg_step :: "tfg \<Rightarrow> tfg_event \<Rightarrow> tfg \<times> (int \<times> TransportFeedbackPacket) list" where
  "tfg_step g e = (case e of
     Arrival s t \<Rightarrow> (snd (Tfg_OnPacket s t g), [])
   | Poll ss mss now \<Rightarrow> (case Tfg_BuildFeedback ss mss now g of
        (None, g') \<Rightarrow> (g', [])
      | (Some r, g') \<Rightarrow> (g', zip [next_feedback_sequence g..next_feedback_sequence g' - 1] (tf_packets r))))"

text \<open>The caller's clock: \<open>steady_clock\<close> readings are positive.\<close>

fun tfg_adm :: "tfg_event \<Rightarrow> bool" where
  "tfg_adm (Arrival s t) = True"
| "tfg_adm (Poll ss mss now) = (0 < now)"

lemma tfg_step_Arrival: "tfg_step g (Arrival s t) = (snd (Tfg_OnPacket s t g), [])"
  by (simp add: tfg_step_def)

text \<open>A poll either changes nothing or emits the whole batch, statuses looked up in the arrivals.\<close>

lemma tfg_step_Poll:
  assumes "tfg_wf g"
  obtains "tfg_step g (Poll ss mss now) = (g, [])"
  | g' where "tfg_step g (Poll ss mss now) =
        (g', map (\<lambda>x. (x, status_of (arrivals_us g) x)) [next_feedback_sequence g..tfg_batch_end g])"
      "tfg_wf g'" "next_feedback_sequence g' = tfg_batch_end g + 1" "last_feedback_time_us g' = now"
      "next_feedback_sequence g \<le> tfg_batch_end g"
      "arrivals_us g' = filter (\<lambda>e. tfg_batch_end g < fst e) (arrivals_us g)"
proof (cases "Tfg_BuildFeedback ss mss now g")
  case (Pair ro g')
  show thesis
  proof (cases ro)
    case None
    then show ?thesis
      using Pair that(1) Tfg_BuildFeedback_None [of ss mss now g g'] by (simp add: tfg_step_def)
  next
    case (Some r)
    note b = Tfg_BuildFeedback_Some [OF Pair [unfolded Some]]
    show ?thesis
      using that(2) [of g'] Pair Some b Tfg_BuildFeedback_wf [OF assms Pair [unfolded Some]]
        tfg_batch_end_bounds [OF assms b(6)]
      by (simp add: tfg_step_def zip_map2 zip_same_conv_map)
  qed
qed

lemma tfg_step_cases:
  assumes "tfg_wf g"
  obtains s t where "e = Arrival s t" "tfg_step g e = (snd (Tfg_OnPacket s t g), [])"
  | "tfg_step g e = (g, [])"
  | ss mss now g' where "e = Poll ss mss now" "tfg_step g e =
        (g', map (\<lambda>x. (x, status_of (arrivals_us g) x)) [next_feedback_sequence g..tfg_batch_end g])"
      "tfg_wf g'" "next_feedback_sequence g' = tfg_batch_end g + 1" "last_feedback_time_us g' = now"
      "next_feedback_sequence g \<le> tfg_batch_end g"
      "arrivals_us g' = filter (\<lambda>e. tfg_batch_end g < fst e) (arrivals_us g)"
proof (cases e)
  case (Arrival s t)
  then show thesis
    using that(1) by (simp add: tfg_step_Arrival)
next
  case (Poll ss mss now)
  show thesis
    by (rule tfg_step_Poll [OF assms, of ss mss now]) (use that(2,3) Poll in \<open>auto\<close>)
qed

lemma tfg_step_wf: "tfg_wf g \<Longrightarrow> tfg_wf (fst (tfg_step g e))"
  by (rule tfg_step_cases [of g e]) (auto simp: Tfg_OnPacket_wf)

lemma sorted_upto: "sorted_wrt (<) [a..b :: int]"
  by (induction a b rule: upto.induct) (subst upto.simps, auto)

text \<open>Once a first report is out, extended numbers leave the generator in strictly ascending order.\<close>

interpretation tfg_out: ordered_output_machine tfg_step tfg_adm
  "\<lambda>g. tfg_wf g \<and> last_feedback_time_us g \<noteq> 0" next_feedback_sequence fst
proof
  fix g e
  assume g: "tfg_wf g \<and> last_feedback_time_us g \<noteq> 0" and e: "tfg_adm e"
  then have wf: "tfg_wf g" and last: "last_feedback_time_us g \<noteq> 0"
    by auto
  show "tfg_wf (fst (tfg_step g e)) \<and> last_feedback_time_us (fst (tfg_step g e)) \<noteq> 0"
    using e last tfg_step_wf [OF wf, of e] by (rule_tac tfg_step_cases [OF wf, of e]) auto
  show "sorted_wrt (<) (map fst (snd (tfg_step g e)))"
    by (rule tfg_step_cases [OF wf, of e]) (auto simp: o_def sorted_upto)
  show "next_feedback_sequence g \<le> next_feedback_sequence (fst (tfg_step g e))"
    by (rule tfg_step_cases [OF wf, of e]) (auto simp: Tfg_OnPacket_next [OF wf last])
  fix x assume x: "x \<in> set (snd (tfg_step g e))"
  show "next_feedback_sequence g \<le> fst x"
    using x by (rule_tac tfg_step_cases [OF wf, of e]) auto
  show "fst x < next_feedback_sequence (fst (tfg_step g e))"
    using x by (rule_tac tfg_step_cases [OF wf, of e]) auto
qed

text \<open>Before the first report nothing has been emitted, so the order holds for whole lifetimes.\<close>

lemma tfg_run_sorted:
  "tfg_wf g \<Longrightarrow> list_all tfg_adm es \<Longrightarrow> sorted_wrt (<) (map fst (snd (run tfg_step g es)))"
proof (induction es arbitrary: g)
  case (Cons e es)
  show ?case
  proof (cases "last_feedback_time_us g = 0")
    case False
    then show ?thesis
      using Cons.prems by (intro tfg_out.run_sorted) auto
  next
    case True
    show ?thesis
    proof (rule tfg_step_cases [OF Cons.prems(1), of e])
      fix ss mss now g'
      assume "e = Poll ss mss now" "tfg_step g e =
          (g', map (\<lambda>x. (x, status_of (arrivals_us g) x)) [next_feedback_sequence g..tfg_batch_end g])"
        "tfg_wf g'" "next_feedback_sequence g' = tfg_batch_end g + 1" "last_feedback_time_us g' = now"
      moreover from this have "\<forall>y \<in> set (snd (run tfg_step g' es)). tfg_batch_end g < fst y"
        using Cons.prems tfg_out.run_low_above [of g' es] by fastforce
      ultimately show ?thesis
        using Cons by (auto simp: split_def Let_def sorted_wrt_append o_def sorted_upto)
    qed (use Cons in \<open>auto simp: split_def Let_def Tfg_OnPacket_wf\<close>)
  qed
qed simp

interpretation tfg_inv: invariant_machine tfg_step "\<lambda>_. True" tfg_wf
  by unfold_locales (rule tfg_step_wf)

lemma tfg_reachable_wf: "tfg_wf (fst (run tfg_step (Tfg_new c) es))"
  by (rule tfg_inv.run_inv) (simp_all add: tfg_wf_new list_all_iff)

section \<open>Properties\<close>



text \<open>
  C4: a report of a reachable generator describes exactly the batch of consecutive numbers it claims.
  Its count field equals the number of statuses (between one and the configured maximum), the
  \<open>i\<close>-th status carries sequence number base plus \<open>i\<close> modulo \<open>2^16\<close> and is marked received exactly when
  an arrival is recorded for that extended number, and the generator moves on by exactly that batch.
\<close>

theorem Tfg_report_exact:
  assumes "g = fst (run tfg_step (Tfg_new c) es)"
    and "Tfg_BuildFeedback ss mss now g = (Some r, g')"
    and "max_packet_status_count (tfg_cfg g) \<le> 65535"
  shows "unat (packet_status_count r) = length (tf_packets r) \<and> 1 \<le> length (tf_packets r) \<and>
    length (tf_packets r) \<le> max_packet_status_count (tfg_cfg g) \<and>
    (\<forall>i < length (tf_packets r).
       transport_sequence (tf_packets r ! i) = base_sequence r + of_nat i \<and>
       (received (tf_packets r ! i) \<longleftrightarrow> map_of (arrivals_us g) (next_feedback_sequence g + int i) \<noteq> None)) \<and>
    next_feedback_sequence g' = next_feedback_sequence g + int (length (tf_packets r))"
proof -
  have wf: "tfg_wf g"
    using assms(1) by (simp add: tfg_reachable_wf)
  note b = Tfg_BuildFeedback_Some [OF assms(2)]
  note e = tfg_batch_end_bounds [OF wf b(6)]
  define n where "n = length (tf_packets r)"
  have n: "int n = tfg_batch_end g - next_feedback_sequence g + 1"
    using b(1) e(1) by (simp add: n_def)
  then have "n < 65536"
    using e(3) assms(3) by linarith
  moreover have "packet_status_count r = of_nat n"
    unfolding b(3) n [symmetric] by simp
  ultimately have "unat (packet_status_count r) = n"
    by (simp add: unsigned_of_nat take_bit_nat_eq_self)
  moreover have "transport_sequence (status_of m x) = word_of_int x"
    "received (status_of m x) \<longleftrightarrow> map_of m x \<noteq> None" for m x
    by (simp_all add: status_of_def split: option.splits)
  moreover have "tf_packets r ! i = status_of (arrivals_us g) (next_feedback_sequence g + int i)" if "i < n" for i
    using that b(1) n by (simp add: nth_upto)
  ultimately show ?thesis
    using n e b(2,4) wf by (auto simp: n_def [symmetric] tfg_wf_def)
qed

theorem Tfg_report_exact_witness:
  "\<exists>r g'. let g = fst (run tfg_step (Tfg_new Tfg_default) [Arrival 65535 10, Arrival 1 20]) in
     Tfg_BuildFeedback 1 2 30 g = (Some r, g') \<and>
     unat (packet_status_count r) = length (tf_packets r) \<and>
     map transport_sequence (tf_packets r) = [65535, 0, 1] \<and> map received (tf_packets r) = [True, False, True]"
proof -
  let ?g = "fst (run tfg_step (Tfg_new Tfg_default) [Arrival 65535 10, Arrival 1 20])"
  have g: "?g = (Tfg_new Tfg_default)\<lparr>arrivals_us := [(65535, 10), (65537, 20)], has_sequence := True,
      highest_extended_sequence := 65537, next_feedback_sequence := 65535\<rparr>"
    by code_simp
  obtain r g' where r: "Tfg_BuildFeedback 1 2 30 ?g = (Some r, g')"
    and p: "map transport_sequence (tf_packets r) = [65535, 0, 1]" "map received (tf_packets r) = [True, False, True]"
    unfolding g by (simp add: Tfg_BuildFeedback_def Tfg_ShouldSendFeedback_def Tfg_new_def Tfg_config_def
        Tfg_default_def upto.simps status_of_def Let_def split_def)
  have "max_packet_status_count (tfg_cfg ?g) \<le> 65535"
    unfolding g by (simp add: Tfg_new_def Tfg_config_def Tfg_default_def)
  from Tfg_report_exact [OF refl r this] r p show ?thesis
    by auto
qed

text \<open>
  C19: a recorded arrival is never lost by reporting.  After any poll of a reachable generator it has
  either been reported as received with its own arrival time, or it is still pending.
\<close>

theorem Tfg_arrival_reported_or_pending:
  assumes "g = fst (run tfg_step (Tfg_new c) es)" "map_of (arrivals_us g) x = Some t"
    and "tfg_step g (Poll ss mss now) = (g', out)"
  shows "(\<exists>p. (x, p) \<in> set out \<and> received p \<and> receive_time_us p = t) \<or> map_of (arrivals_us g') x = Some t"
proof -
  have wf: "tfg_wf g"
    using assms(1) by (simp add: tfg_reachable_wf)
  have x: "next_feedback_sequence g \<le> x"
    using wf map_of_SomeD [OF assms(2)] by (auto simp: tfg_wf_def)
  show ?thesis
  proof (rule tfg_step_Poll [OF wf, of ss mss now])
    fix g''
    assume s: "tfg_step g (Poll ss mss now) =
        (g'', map (\<lambda>x. (x, status_of (arrivals_us g) x)) [next_feedback_sequence g..tfg_batch_end g])"
      "arrivals_us g'' = filter (\<lambda>e. tfg_batch_end g < fst e) (arrivals_us g)"
    have "map_of (arrivals_us g'') x = Some t" if "tfg_batch_end g < x"
      using that assms(2) by (simp add: s(2) map_of_filter_key [of "\<lambda>k. tfg_batch_end g < k"])
    moreover have "received (status_of (arrivals_us g) x) \<and> receive_time_us (status_of (arrivals_us g) x) = t"
      using assms(2) by (simp add: status_of_def)
    moreover have "x \<le> tfg_batch_end g \<Longrightarrow> (x, status_of (arrivals_us g) x) \<in> set out"
      using s(1) assms(3) x by auto
    ultimately show ?thesis
      using s(1) assms(3) by (metis linorder_not_le prod.inject)
  qed (use assms in auto)
qed

theorem Tfg_arrival_reported_or_pending_witness:
  "\<exists>g' out. tfg_step (fst (run tfg_step (Tfg_new Tfg_default) [Arrival 7 10])) (Poll 1 2 30) = (g', out) \<and>
     ((\<exists>p. (7, p) \<in> set out \<and> received p \<and> receive_time_us p = 10) \<or> map_of (arrivals_us g') 7 = Some 10)"
proof -
  let ?g = "fst (run tfg_step (Tfg_new Tfg_default) [Arrival 7 10])"
  obtain g' out where s: "tfg_step ?g (Poll 1 2 30) = (g', out)"
    by force
  have "map_of (arrivals_us ?g) 7 = Some 10"
    by code_simp
  from Tfg_arrival_reported_or_pending [OF refl this s] s show ?thesis
    by blast
qed

text \<open>
  What the comment in \<open>OnPacket\<close> rules out can happen.  With a history of one packet, packets 10,
  11 and 9 arrive before the first report; 10 is evicted, then the older 9 pulls the start of the
  report back behind it, and the first report lists packet 10, which \<open>OnPacket\<close> had accepted, as not
  received.
\<close>

theorem Tfg_evicted_reported_lost:
  "let c = \<lparr>feedback_interval_ms = 100, max_packet_status_count = 1, max_history_packets = 1\<rparr>;
       g1 = Tfg_new c; (ok1, g2) = Tfg_OnPacket 10 1 g1; (ok2, g3) = Tfg_OnPacket 11 2 g2;
       (ok3, g4) = Tfg_OnPacket 9 3 g3; (r, g5) = Tfg_BuildFeedback 1 2 10 g4
   in ok1 \<and> ok2 \<and> ok3 \<and>
      map_option (\<lambda>r. map (\<lambda>p. (transport_sequence p, received p)) (tf_packets r)) r = Some [(10, False)]"
  by code_simp

end
