(* ===== verification/Nack_Requester.thy ===== *)
theory Nack_Requester
  imports Packetia_Prelude
begin

text \<open>
  \<open>src/Rtsp/Rtp/NackRequester.cpp\<close>: the list of missing RTP packets of one stream and the retransmission
  requests made for them.  Sequence numbers are \<open>uint16_t\<close> words and compare modulo \<open>2^16\<close>; times
  (\<open>uint64_t\<close> milliseconds), intervals and counters are \<open>nat\<close>, every subtraction of the code being
  guarded.  The two callbacks run synchronously at the end of \<open>Process\<close>; they are the outputs of the
  model, and whether they are set is part of the state.
\<close>

section \<open>State\<close>

record nack_config =
  reorder_wait_ms :: nat
  retry_interval_ms :: nat
  max_packet_age_ms :: nat
  max_retries :: nat
  max_nack_list_size :: nat
  max_batch_size :: nat
  max_sequence_gap :: u16
  min_retry_interval_ms :: nat
  max_retry_interval_ms :: nat
  failure_callback_interval_ms :: nat

record PacketResult =
  was_missing :: bool
  recovered_after_nack :: bool
  times_nacked :: nat
  recovery_time_ms :: nat

record nack_stats =
  missing_count :: nat
  reordered_packets :: nat
  recovered_packets :: nat
  nack_requests :: nat
  abandoned_packets :: nat
  large_gap_resets :: nat

record MissingPacket =
  first_missing_ms :: nat
  last_nack_ms :: nat
  nack_count :: nat

record nack_requester =
  nk_config :: nack_config
  nk_initialized :: bool
  newest_seq :: u16
  missing_packets :: "(u16, MissingPacket) omap"
  rtt_ms :: nat
  last_failure_callback_ms :: nat
  has_failure_callback_time :: bool
  nk_stats :: nack_stats
  nack_callback :: bool
  recovery_failure_callback :: bool

definition nack_config_default :: nack_config where
  "nack_config_default = \<lparr>reorder_wait_ms = 20, retry_interval_ms = 50, max_packet_age_ms = 500,
     max_retries = 5, max_nack_list_size = 1000, max_batch_size = 50, max_sequence_gap = 100,
     min_retry_interval_ms = 20, max_retry_interval_ms = 200, failure_callback_interval_ms = 500\<rparr>"

definition PacketResult_init :: PacketResult where
  "PacketResult_init = \<lparr>was_missing = False, recovered_after_nack = False, times_nacked = 0,
     recovery_time_ms = 0\<rparr>"

definition nack_stats_init :: nack_stats where
  "nack_stats_init = \<lparr>missing_count = 0, reordered_packets = 0, recovered_packets = 0, nack_requests = 0,
     abandoned_packets = 0, large_gap_resets = 0\<rparr>"

section \<open>Operations\<close>

definition Nack_new :: "nack_config \<Rightarrow> nack_requester" where
  "Nack_new c =
     (let c = c\<lparr>max_batch_size := max 1 (max_batch_size c)\<rparr>;
          c = c\<lparr>max_retry_interval_ms := max (min_retry_interval_ms c) (max_retry_interval_ms c)\<rparr>
      in \<lparr>nk_config = c, nk_initialized = False, newest_seq = 0, missing_packets = [], rtt_ms = 0,
          last_failure_callback_ms = 0, has_failure_callback_time = False, nk_stats = nack_stats_init,
          nack_callback = False, recovery_failure_callback = False\<rparr>)"

definition SetNackCallback :: "bool \<Rightarrow> nack_requester \<Rightarrow> nack_requester" where
  "SetNackCallback cb r = r\<lparr>nack_callback := cb\<rparr>"

definition SetRecoveryFailureCallback :: "bool \<Rightarrow> nack_requester \<Rightarrow> nack_requester" where
  "SetRecoveryFailureCallback cb r = r\<lparr>recovery_failure_callback := cb\<rparr>"

definition AbandonPending :: "nack_requester \<Rightarrow> nack_requester" where
  "AbandonPending r = r\<lparr>nk_stats := (nk_stats r)\<lparr>abandoned_packets :=
       abandoned_packets (nk_stats r) + length (missing_packets r)\<rparr>, missing_packets := []\<rparr>"

definition IsNewerSequenceNumber :: "u16 \<Rightarrow> u16 \<Rightarrow> bool" where
  "IsNewerSequenceNumber seq reference \<longleftrightarrow> seq \<noteq> reference \<and> seq - reference < 0x8000"

definition RetryIntervalMs :: "nack_requester \<Rightarrow> nat" where
  "RetryIntervalMs r =
     (let c = nk_config r;
          fallback = (if retry_interval_ms c < min_retry_interval_ms c then min_retry_interval_ms c
                      else if max_retry_interval_ms c < retry_interval_ms c then max_retry_interval_ms c
                      else retry_interval_ms c)
      in if rtt_ms r = 0 then fallback else max (min_retry_interval_ms c) (rtt_ms r))"

text \<open>The \<open>while\<close> loop counts up modulo \<open>2^16\<close> until it meets \<open>end\<close> or the list is full.\<close>

lemma unat_step_less: "b \<noteq> e \<Longrightarrow> unat (e - (b + 1)) < unat (e - b)" for b e :: u16
proof -
  assume "b \<noteq> e"
  then have "e - b \<noteq> 0"
    by simp
  then have "unat (e - b - 1) = unat (e - b) - 1" "unat (e - b) \<noteq> 0"
    by (simp_all add: unat_minus_one unat_eq_zero)
  moreover have step: "e - (b + 1) = e - b - 1"
    by simp
  ultimately show ?thesis
    unfolding step by linarith
qed

function AddMissingPackets :: "u16 \<Rightarrow> u16 \<Rightarrow> nat \<Rightarrow> nack_requester \<Rightarrow> nack_requester" where
  "AddMissingPackets seq end_seq now_ms r =
     (if seq = end_seq then r
      else if length (missing_packets r) \<ge> max_nack_list_size (nk_config r) then r
      else AddMissingPackets (seq + 1) end_seq now_ms
        (r\<lparr>missing_packets := omap_emplace seq
              \<lparr>first_missing_ms = now_ms, last_nack_ms = 0, nack_count = 0\<rparr> (missing_packets r),
           nk_stats := (if map_of (missing_packets r) seq = None
                        then (nk_stats r)\<lparr>missing_count := missing_count (nk_stats r) + 1\<rparr>
                        else nk_stats r)\<rparr>))"
  by pat_completeness auto

termination
  by (relation "measure (\<lambda>(b, e, _, _). unat (e - b))") (simp_all only: in_measure wf_measure split unat_step_less simp_thms)

declare AddMissingPackets.simps [simp del]

text \<open>The two halves of \<open>OnReceivedPacket\<close>: settle a number that was missing, then advance.\<close>

definition take_missing :: "u16 \<Rightarrow> nat \<Rightarrow> bool \<Rightarrow> nack_requester \<Rightarrow> PacketResult \<times> nack_requester" where
  "take_missing seq now_ms recovered_by_fec r =
     (case map_of (missing_packets r) seq of
        None \<Rightarrow> (PacketResult_init, r)
      | Some m \<Rightarrow>
          let recovered = (nack_count m > 0 \<or> recovered_by_fec)
          in (\<lparr>was_missing = True, recovered_after_nack = recovered, times_nacked = nack_count m,
               recovery_time_ms = (if now_ms \<ge> first_missing_ms m then now_ms - first_missing_ms m else 0)\<rparr>,
              r\<lparr>nk_stats :=
                   (if recovered
                    then (nk_stats r)\<lparr>recovered_packets := recovered_packets (nk_stats r) + 1\<rparr>
                    else (nk_stats r)\<lparr>reordered_packets := reordered_packets (nk_stats r) + 1\<rparr>),
                missing_packets := omap_erase seq (missing_packets r)\<rparr>))"

definition advance_newest :: "u16 \<Rightarrow> nat \<Rightarrow> nack_requester \<Rightarrow> nack_requester" where
  "advance_newest seq now_ms r =
     (if \<not> IsNewerSequenceNumber seq (newest_seq r) then r
      else
        let gap = seq - newest_seq r in
        if gap > max_sequence_gap (nk_config r)
        then r\<lparr>missing_packets := [], newest_seq := seq,
               nk_stats := (nk_stats r)\<lparr>large_gap_resets := large_gap_resets (nk_stats r) + 1\<rparr>\<rparr>
        else
          let r = (if gap > 1 then AddMissingPackets (newest_seq r + 1) seq now_ms r else r)
          in r\<lparr>newest_seq := seq\<rparr>)"

definition OnReceivedPacket :: "u16 \<Rightarrow> nat \<Rightarrow> bool \<Rightarrow> nack_requester \<Rightarrow> PacketResult \<times> nack_requester" where
  "OnReceivedPacket seq now_ms recovered_by_fec r =
     (if \<not> nk_initialized r then (PacketResult_init, r\<lparr>nk_initialized := True, newest_seq := seq\<rparr>)
      else let (result, r') = take_missing seq now_ms recovered_by_fec r
           in (result, advance_newest seq now_ms r'))"

text \<open>
  One pass of \<open>Process\<close> over the list, in key order: the entries kept (with their request counters
  updated), the numbers put into the request batch, the numbers given up, and the statistics.
\<close>

datatype nack_decision = Forget | Abandon | Keep | Request

definition nack_decide :: "nack_requester \<Rightarrow> nat \<Rightarrow> nat \<Rightarrow> MissingPacket \<Rightarrow> nack_decision" where
  "nack_decide r now_ms batch_len p =
     (if now_ms < first_missing_ms p then Forget
      else
        let packet_age_ms = now_ms - first_missing_ms p;
            retry_due = (nack_count p = 0 \<or>
              now_ms \<ge> last_nack_ms p \<and> now_ms - last_nack_ms p \<ge> RetryIntervalMs r);
            retries_exhausted = (nack_count p \<ge> max_retries (nk_config r) \<and> retry_due);
            expired = (packet_age_ms \<ge> max_packet_age_ms (nk_config r));
            too_late_to_request = (\<not> expired \<and> retry_due \<and> rtt_ms r \<noteq> 0 \<and>
              rtt_ms r \<ge> max_packet_age_ms (nk_config r) - packet_age_ms)
        in if expired \<or> retries_exhausted \<or> too_late_to_request then Abandon
           else if packet_age_ms < reorder_wait_ms (nk_config r) then Keep
           else if retry_due \<and> nack_callback r \<and> batch_len < max_batch_size (nk_config r) then Request
           else Keep)"

fun process_loop :: "nack_requester \<Rightarrow> nat \<Rightarrow> (u16, MissingPacket) omap \<Rightarrow> nat \<Rightarrow>
    (u16, MissingPacket) omap \<times> u16 list \<times> u16 list" where
  "process_loop r now_ms [] batch_len = ([], [], [])"
| "process_loop r now_ms ((seq, p) # m) batch_len =
     (case nack_decide r now_ms batch_len p of
        Forget \<Rightarrow> process_loop r now_ms m batch_len
      | Abandon \<Rightarrow> (let (kept, batch, abandoned) = process_loop r now_ms m batch_len
                    in (kept, batch, seq # abandoned))
      | Keep \<Rightarrow> (let (kept, batch, abandoned) = process_loop r now_ms m batch_len
                 in ((seq, p) # kept, batch, abandoned))
      | Request \<Rightarrow> (let (kept, batch, abandoned) = process_loop r now_ms m (Suc batch_len)
                    in ((seq, p\<lparr>last_nack_ms := now_ms, nack_count := nack_count p + 1\<rparr>) # kept,
                        seq # batch, abandoned)))"

datatype nack_output = SendNack "u16 list" | RecoveryFailure "u16 list"

definition Nack_Process :: "nat \<Rightarrow> nack_requester \<Rightarrow> nack_requester \<times> nack_output list" where
  "Nack_Process now_ms r =
     (if \<not> nk_initialized r \<or> missing_packets r = [] then (r, [])
      else
        let (kept, nack_batch, abandoned_batch) = process_loop r now_ms (missing_packets r) 0;
            r1 = r\<lparr>missing_packets := kept,
                   nk_stats := (nk_stats r)\<lparr>nack_requests := nack_requests (nk_stats r) + length nack_batch,
                     abandoned_packets := abandoned_packets (nk_stats r) + length abandoned_batch\<rparr>\<rparr>;
            sent = (if nack_batch \<noteq> [] \<and> nack_callback r then [SendNack nack_batch] else [])
        in if abandoned_batch \<noteq> [] \<and> recovery_failure_callback r \<and>
              (\<not> has_failure_callback_time r \<or> now_ms < last_failure_callback_ms r \<or>
               now_ms - last_failure_callback_ms r \<ge> failure_callback_interval_ms (nk_config r))
           then (r1\<lparr>last_failure_callback_ms := now_ms, has_failure_callback_time := True\<rparr>,
                 sent @ [RecoveryFailure abandoned_batch])
           else (r1, sent))"

definition UpdateRtt :: "nat \<Rightarrow> nack_requester \<Rightarrow> nack_requester" where
  "UpdateRtt rtt r = r\<lparr>rtt_ms := rtt\<rparr>"

definition ClearUpTo :: "u16 \<Rightarrow> nack_requester \<Rightarrow> nack_requester" where
  "ClearUpTo seq r =
     r\<lparr>missing_packets := filter (\<lambda>e. IsNewerSequenceNumber (fst e) seq) (missing_packets r)\<rparr>"

definition Nack_Reset :: "nack_requester \<Rightarrow> nack_requester" where
  "Nack_Reset r = r\<lparr>nk_initialized := False, newest_seq := 0, rtt_ms := 0, last_failure_callback_ms := 0,
     has_failure_callback_time := False, missing_packets := [], nk_stats := nack_stats_init\<rparr>"

section \<open>Well-formedness\<close>

text \<open>
  The list is an ordered map no longer than configured, no entry has been requested more than
  \<open>max_retries\<close> times, requests are only made after the reorder wait, and every packet ever counted
  missing is accounted for at most once.
\<close>

definition nack_wf :: "nack_requester \<Rightarrow> bool" where
  "nack_wf r \<longleftrightarrow>
     omap_ok (missing_packets r) \<and>
     length (missing_packets r) \<le> max_nack_list_size (nk_config r) \<and>
     (\<forall>e \<in> set (missing_packets r). nack_count (snd e) \<le> max_retries (nk_config r)) \<and>
     1 \<le> max_batch_size (nk_config r) \<and>
     min_retry_interval_ms (nk_config r) \<le> max_retry_interval_ms (nk_config r) \<and>
     (\<not> nk_initialized r \<longrightarrow> missing_packets r = []) \<and>
     recovered_packets (nk_stats r) + reordered_packets (nk_stats r) + abandoned_packets (nk_stats r) +
       length (missing_packets r) \<le> missing_count (nk_stats r)"

lemma nack_wf_new: "nack_wf (Nack_new c)"
  by (simp add: nack_wf_def Nack_new_def nack_stats_init_def Let_def)

lemma AddMissingPackets_wf:
  "nack_wf r \<Longrightarrow> nk_initialized r \<Longrightarrow> nack_wf (AddMissingPackets b e now r) \<and>
     nk_initialized (AddMissingPackets b e now r)"
proof (induction b e now r rule: AddMissingPackets.induct)
  case (1 seq end_seq now r)
  show ?case
  proof (cases "seq = end_seq \<or> max_nack_list_size (nk_config r) \<le> length (missing_packets r)")
    case True
    then show ?thesis
      using 1 by (subst (1 2) AddMissingPackets.simps) auto
  next
    case False
    let ?r = "r\<lparr>missing_packets := omap_emplace seq
              \<lparr>first_missing_ms = now, last_nack_ms = 0, nack_count = 0\<rparr> (missing_packets r),
           nk_stats := (if map_of (missing_packets r) seq = None
                        then (nk_stats r)\<lparr>missing_count := missing_count (nk_stats r) + 1\<rparr>
                        else nk_stats r)\<rparr>"
    have "\<forall>e \<in> set (missing_packets ?r). nack_count (snd e) \<le> max_retries (nk_config r)"
      using 1(2) set_omap_emplace [of seq "\<lparr>first_missing_ms = now, last_nack_ms = 0, nack_count = 0\<rparr>"
          "missing_packets r"]
      by (auto simp: nack_wf_def)
    then have "nack_wf ?r"
      using 1(2,3) False by (auto simp: nack_wf_def omap_ok_emplace omap.card_emplace)
    then show ?thesis
      using 1 False by (subst (1 2) AddMissingPackets.simps) auto
  qed
qed

text \<open>What one pass does: its three results split the list, the batch is bounded and justified.\<close>

lemma nack_decide_Request:
  assumes "nack_decide r now n p = Request"
  shows "first_missing_ms p + reorder_wait_ms (nk_config r) \<le> now"
    "nack_count p < max_retries (nk_config r)" "n < max_batch_size (nk_config r)"
    "nack_count p = 0 \<or> last_nack_ms p + RetryIntervalMs r \<le> now" "nack_callback r"
    "now < first_missing_ms p + max_packet_age_ms (nk_config r)"
  using assms by (auto simp: nack_decide_def Let_def split: if_splits)

lemma process_loop_induct [consumes 1, case_names Nil Forget Abandon Keep Request]:
  assumes "process_loop r now m n = (kept, batch, ab)"
    and "\<And>n. P [] n [] [] []"
    and "\<And>s p m n k b a. nack_decide r now n p = Forget \<Longrightarrow> process_loop r now m n = (k, b, a) \<Longrightarrow>
           P m n k b a \<Longrightarrow> P ((s, p) # m) n k b a"
    and "\<And>s p m n k b a. nack_decide r now n p = Abandon \<Longrightarrow> process_loop r now m n = (k, b, a) \<Longrightarrow>
           P m n k b a \<Longrightarrow> P ((s, p) # m) n k b (s # a)"
    and "\<And>s p m n k b a. nack_decide r now n p = Keep \<Longrightarrow> process_loop r now m n = (k, b, a) \<Longrightarrow>
           P m n k b a \<Longrightarrow> P ((s, p) # m) n ((s, p) # k) b a"
    and "\<And>s p m n k b a. nack_decide r now n p = Request \<Longrightarrow> process_loop r now m (Suc n) = (k, b, a) \<Longrightarrow>
           P m (Suc n) k b a \<Longrightarrow>
           P ((s, p) # m) n ((s, p\<lparr>last_nack_ms := now, nack_count := nack_count p + 1\<rparr>) # k) (s # b) a"
  shows "P m n kept batch ab"
  using assms(1)
proof (induction m arbitrary: n kept batch ab)
  case Nil
  then show ?case
    using assms(2) by simp
next
  case (Cons e m)
  obtain s p where e: "e = (s, p)"
    by force
  show ?case
    using Cons assms(3-6) [of n p m] unfolding e
    by (cases "nack_decide r now n p") (auto split: prod.splits)
qed

lemma process_loop_keys:
  assumes "process_loop r now m n = (kept, batch, ab)"
  shows "fst ` set kept \<subseteq> fst ` set m \<and> set batch \<subseteq> fst ` set kept \<and> set ab \<subseteq> fst ` set m"
  using assms by (induction rule: process_loop_induct) auto

lemma process_loop_ok:
  assumes "process_loop r now m n = (kept, batch, ab)" "omap_ok m"
  shows "omap_ok kept \<and> sorted_wrt (<) batch \<and> sorted_wrt (<) ab"
  using assms
  by (induction rule: process_loop_induct, auto simp: omap_ok_Cons dest!: process_loop_keys) force+

lemma process_loop_length:
  assumes "process_loop r now m n = (kept, batch, ab)"
  shows "length kept + length ab \<le> length m"
    and "n \<le> max_batch_size (nk_config r) \<Longrightarrow> n + length batch \<le> max_batch_size (nk_config r)"
  using assms by (induction rule: process_loop_induct) (auto dest: nack_decide_Request(3))

lemma process_loop_kept:
  assumes "process_loop r now m n = (kept, batch, ab)" "omap_ok m" "(s, q) \<in> set kept"
  shows "(s \<notin> set batch \<and> (s, q) \<in> set m) \<or>
    (s \<in> set batch \<and> (\<exists>p n'. (s, p) \<in> set m \<and> nack_decide r now n' p = Request \<and>
       q = p\<lparr>last_nack_ms := now, nack_count := nack_count p + 1\<rparr>))"
  using assms
proof (induction rule: process_loop_induct)
  case (Keep s' p m n k b a)
  moreover have "s' \<notin> set b"
    using Keep.prems(1) process_loop_keys [OF Keep.hyps(2)] by (force simp: omap_ok_Cons)
  ultimately show ?case
    by (auto simp: omap_ok_Cons)
next
  case (Request s' p m n k b a)
  moreover have "s' \<notin> fst ` set k"
    using Request.prems(1) process_loop_keys [OF Request.hyps(2)] by (force simp: omap_ok_Cons)
  ultimately show ?case
    by (auto simp: omap_ok_Cons) force+
qed (auto simp: omap_ok_Cons)

lemma process_loop_batch:
  assumes "process_loop r now m n = (kept, batch, ab)" "s \<in> set batch"
  shows "\<exists>p n'. (s, p) \<in> set m \<and> nack_decide r now n' p = Request"
  using assms by (induction rule: process_loop_induct) auto

lemma take_missing_wf:
  assumes "nack_wf r"
  shows "nack_wf (snd (take_missing seq now fec r))"
proof (cases "map_of (missing_packets r) seq")
  case (Some m)
  have ok: "omap_ok (missing_packets r)"
    using assms by (simp add: nack_wf_def)
  have "length (omap_erase seq (missing_packets r)) + 1 = length (missing_packets r)"
    using Some omap.card_erase [OF ok, of seq] by (cases "missing_packets r") auto
  moreover have "set (omap_erase seq (missing_packets r)) \<subseteq> set (missing_packets r)"
    by (auto simp: omap_erase_def)
  ultimately show ?thesis
    using assms Some by (auto simp: nack_wf_def take_missing_def omap_ok_erase Let_def)
qed (use assms in \<open>simp add: take_missing_def\<close>)

lemma take_missing_simps [simp]:
  "nk_initialized (snd (take_missing seq now fec r)) = nk_initialized r"
  "nk_config (snd (take_missing seq now fec r)) = nk_config r"
  "newest_seq (snd (take_missing seq now fec r)) = newest_seq r"
  "map_of (missing_packets (snd (take_missing seq now fec r))) =
     (map_of (missing_packets r))(seq := None)"
  by (auto simp: take_missing_def map_of_erase Let_def split: option.splits)

lemma advance_newest_wf:
  assumes "nack_wf r" "nk_initialized r"
  shows "nack_wf (advance_newest seq now r)"
proof -
  have "nack_wf (r\<lparr>newest_seq := s\<rparr>) \<longleftrightarrow> nack_wf r" for r s
    by (simp add: nack_wf_def)
  moreover have "nack_wf (r\<lparr>missing_packets := [], newest_seq := s,
      nk_stats := (nk_stats r)\<lparr>large_gap_resets := n\<rparr>\<rparr>)" for s n
    using assms by (simp add: nack_wf_def)
  ultimately show ?thesis
    using assms AddMissingPackets_wf [OF assms] by (simp add: advance_newest_def Let_def)
qed

lemma OnReceivedPacket_wf: "nack_wf r \<Longrightarrow> nack_wf (snd (OnReceivedPacket seq now fec r))"
  by (auto simp: OnReceivedPacket_def Let_def split_def take_missing_wf advance_newest_wf)
    (simp add: nack_wf_def)

lemma Nack_Process_wf:
  assumes "nack_wf r"
  shows "nack_wf (fst (Nack_Process now r))"
proof -
  obtain kept batch ab where p: "process_loop r now (missing_packets r) 0 = (kept, batch, ab)"
    by (metis prod_cases3)
  have ok: "omap_ok (missing_packets r)"
    using assms by (simp add: nack_wf_def)
  have "nack_count q \<le> max_retries (nk_config r)" if "(s, q) \<in> set kept" for s q
    using process_loop_kept [OF p ok that] assms nack_decide_Request(2) [of r now]
    by (fastforce simp: nack_wf_def)
  then show ?thesis
    using assms p process_loop_ok [OF p ok] process_loop_length(1) [OF p]
    by (simp add: nack_wf_def Nack_Process_def Let_def) auto
qed

section \<open>The requester as a machine\<close>

datatype nack_event =
    NkPacket u16 nat bool
  | NkProcess nat
  | NkRtt nat
  | NkClearUpTo u16
  | NkAbandonPending
  | NkSetCallbacks bool bool
  | NkReset

definition nack_step :: "nack_requester \<Rightarrow> nack_event \<Rightarrow> nack_requester \<times> nack_output list" where
  "nack_step r e = (case e of
     NkPacket seq now fec \<Rightarrow> (snd (OnReceivedPacket seq now fec r), [])
   | NkProcess now \<Rightarrow> Nack_Process now r
   | NkRtt rtt \<Rightarrow> (UpdateRtt rtt r, [])
   | NkClearUpTo seq \<Rightarrow> (ClearUpTo seq r, [])
   | NkAbandonPending \<Rightarrow> (AbandonPending r, [])
   | NkSetCallbacks n f \<Rightarrow> (SetRecoveryFailureCallback f (SetNackCallback n r), [])
   | NkReset \<Rightarrow> (Nack_Reset r, []))"

lemma ClearUpTo_wf: "nack_wf r \<Longrightarrow> nack_wf (ClearUpTo seq r)"
  using length_filter_le [of "\<lambda>e. IsNewerSequenceNumber (fst e) seq" "missing_packets r"]
  by (auto simp: nack_wf_def ClearUpTo_def omap_ok_filter simp del: length_filter_le)

interpretation nack_inv: invariant_machine nack_step "\<lambda>_. True" nack_wf
proof
  fix r e
  assume "nack_wf r"
  then show "nack_wf (fst (nack_step r e))"
    by (cases e)
      (simp_all add: nack_step_def OnReceivedPacket_wf Nack_Process_wf ClearUpTo_wf,
       simp_all add: nack_wf_def UpdateRtt_def AbandonPending_def SetRecoveryFailureCallback_def
         SetNackCallback_def Nack_Reset_def nack_stats_init_def)
qed

lemma nack_reachable_wf: "nack_wf (fst (run nack_step (Nack_new c) es))"
  by (rule nack_inv.run_inv) (simp_all add: nack_wf_new list_all_iff)

lemma Nack_Process_sent:
  assumes "SendNack batch \<in> set (snd (Nack_Process now r))"
  obtains kept ab where "process_loop r now (missing_packets r) 0 = (kept, batch, ab)" "batch \<noteq> []"
proof -
  obtain kept b ab where p: "process_loop r now (missing_packets r) 0 = (kept, b, ab)"
    by (metis prod_cases3)
  then show thesis
    using assms that [of kept ab] by (auto simp: Nack_Process_def Let_def split: if_splits)
qed

text \<open>Recording a gap adds exactly the numbers of the gap, each with the time it was noticed.\<close>

definition gap_numbers :: "u16 \<Rightarrow> u16 \<Rightarrow> u16 set" where
  "gap_numbers b e = (\<lambda>i. b + of_nat i) ` {..<unat (e - b)}"

lemma gap_numbers_step: "b \<noteq> e \<Longrightarrow> gap_numbers b e = insert b (gap_numbers (b + 1) e)"
proof -
  assume "b \<noteq> e"
  then have "e - b \<noteq> 0"
    by simp
  then have u: "unat (e - b) = Suc (unat (e - (b + 1)))"
    using unat_minus_one [of "e - b"] unat_eq_zero [of "e - b"]
    by (metis Suc_pred' diff_diff_eq gr0I)
  show ?thesis
    unfolding gap_numbers_def u lessThan_Suc_eq_insert_0
    by (simp add: image_image add.commute add.left_commute)
qed

lemma AddMissingPackets_exact:
  "omap_ok (missing_packets r) \<Longrightarrow>
   length (missing_packets r) + unat (e - b) \<le> max_nack_list_size (nk_config r) \<Longrightarrow>
   map_of (missing_packets (AddMissingPackets b e now r)) x =
     (if x \<in> gap_numbers b e \<and> map_of (missing_packets r) x = None
      then Some \<lparr>first_missing_ms = now, last_nack_ms = 0, nack_count = 0\<rparr>
      else map_of (missing_packets r) x)"
proof (induction b e now r rule: AddMissingPackets.induct)
  case (1 seq end_seq now r)
  show ?case
  proof (cases "seq = end_seq")
    case True
    then show ?thesis
      by (subst AddMissingPackets.simps) (simp add: gap_numbers_def)
  next
    case False
    then have "unat (end_seq - (seq + 1)) < unat (end_seq - seq)"
      by (rule unat_step_less)
    then show ?thesis
      using 1 False
      by (subst AddMissingPackets.simps)
        (auto simp: gap_numbers_step omap_ok_emplace omap.card_emplace map_of_emplace)
  qed
qed

lemma end_notin_gap: "e \<notin> gap_numbers b e"
proof
  assume "e \<in> gap_numbers b e"
  then obtain i where i: "i < unat (e - b)" "e = b + of_nat i"
    by (auto simp: gap_numbers_def)
  have "unat (of_nat i :: u16) \<le> i"
    by (simp add: unsigned_of_nat)
  with i show False
    by simp
qed

lemma take_missing_length: "length (missing_packets (snd (take_missing seq now fec r))) \<le> length (missing_packets r)"
  by (auto simp: take_missing_def omap_erase_def Let_def split: option.splits)

section \<open>Properties\<close>

text \<open>
  In every state a requester can reach, the list of missing packets stays within
  \<open>max_nack_list_size\<close>, no packet of it has been requested more than \<open>max_retries\<close> times, and the
  statistics never count a packet twice: recovered, reordered, abandoned and still missing packets
  together are at most the packets ever counted missing.
\<close>

theorem Nack_state_bounded:
  "let r = fst (run nack_step (Nack_new c) es) in
     length (missing_packets r) \<le> max_nack_list_size (nk_config r) \<and>
     (\<forall>s p. map_of (missing_packets r) s = Some p \<longrightarrow> nack_count p \<le> max_retries (nk_config r)) \<and>
     recovered_packets (nk_stats r) + reordered_packets (nk_stats r) + abandoned_packets (nk_stats r) +
       length (missing_packets r) \<le> missing_count (nk_stats r)"
  using nack_reachable_wf [of c es] by (auto simp: nack_wf_def Let_def dest!: map_of_SomeD)

theorem Nack_state_bounded_witness:
  "let r = fst (run nack_step (Nack_new nack_config_default) [NkPacket 5 0 False, NkPacket 9 10 False]) in
     length (missing_packets r) \<le> 1000 \<and> (\<exists>p. map_of (missing_packets r) 7 = Some p \<and> nack_count p \<le> 5)"
proof -
  let ?r = "fst (run nack_step (Nack_new nack_config_default) [NkPacket 5 0 False, NkPacket 9 10 False])"
  have "nk_config ?r = nack_config_default"
    by code_simp
  moreover have "map_of (missing_packets ?r) 7 = Some \<lparr>first_missing_ms = 10, last_nack_ms = 0, nack_count = 0\<rparr>"
    by code_simp
  ultimately show ?thesis
    using Nack_state_bounded [of nack_config_default "[NkPacket 5 0 False, NkPacket 9 10 False]"]
    by (simp add: Let_def nack_config_default_def)
qed

text \<open>
  C18: every retransmission request a reachable requester sends is justified.  The batch is non-empty,
  free of duplicates and no longer than \<open>max_batch_size\<close>; each number in it is on the missing list,
  has waited at least \<open>reorder_wait_ms\<close> for a reordered arrival, is younger than \<open>max_packet_age_ms\<close>,
  has been requested fewer than \<open>max_retries\<close> times before, and any earlier request for it is at
  least one retry interval old.
\<close>

theorem Nack_batch_justified:
  assumes "r = fst (run nack_step (Nack_new c) es)" "SendNack batch \<in> set (snd (nack_step r (NkProcess now)))"
  shows "batch \<noteq> [] \<and> distinct batch \<and> length batch \<le> max_batch_size (nk_config r) \<and>
    (\<forall>s \<in> set batch. \<exists>p. map_of (missing_packets r) s = Some p \<and>
       first_missing_ms p + reorder_wait_ms (nk_config r) \<le> now \<and>
       now < first_missing_ms p + max_packet_age_ms (nk_config r) \<and>
       nack_count p < max_retries (nk_config r) \<and>
       (nack_count p = 0 \<or> last_nack_ms p + RetryIntervalMs r \<le> now))"
proof -
  have wf: "nack_wf r"
    using assms(1) by (simp add: nack_reachable_wf)
  then have ok: "omap_ok (missing_packets r)"
    by (simp add: nack_wf_def)
  obtain kept ab where p: "process_loop r now (missing_packets r) 0 = (kept, batch, ab)" "batch \<noteq> []"
    using assms(2) by (auto simp: nack_step_def elim: Nack_Process_sent)
  have "\<exists>p. map_of (missing_packets r) s = Some p \<and>
       first_missing_ms p + reorder_wait_ms (nk_config r) \<le> now \<and>
       now < first_missing_ms p + max_packet_age_ms (nk_config r) \<and>
       nack_count p < max_retries (nk_config r) \<and>
       (nack_count p = 0 \<or> last_nack_ms p + RetryIntervalMs r \<le> now)" if s: "s \<in> set batch" for s
  proof -
    obtain p n where "(s, p) \<in> set (missing_packets r)" "nack_decide r now n p = Request"
      using process_loop_batch [OF p(1) s] by blast
    then show ?thesis
      using map_of_is_SomeI [OF omap_ok_distinct [OF ok]] nack_decide_Request [of r now n p] by blast
  qed
  moreover have "distinct batch"
    using process_loop_ok [OF p(1) ok] by (simp add: strict_sorted_iff)
  ultimately show ?thesis
    using p(2) process_loop_length(2) [OF p(1)] by simp
qed

theorem Nack_batch_justified_witness:
  "\<exists>batch. SendNack batch \<in> set (snd (nack_step (fst (run nack_step (Nack_new nack_config_default)
       [NkSetCallbacks True True, NkPacket 65534 0 False, NkPacket 1 10 False])) (NkProcess 40))) \<and>
     batch \<noteq> [] \<and> distinct batch"
proof -
  let ?r = "fst (run nack_step (Nack_new nack_config_default)
       [NkSetCallbacks True True, NkPacket 65534 0 False, NkPacket 1 10 False])"
  have "snd (nack_step ?r (NkProcess 40)) = [SendNack [0, 65535]]"
    by code_simp
  then have "SendNack [0, 65535] \<in> set (snd (nack_step ?r (NkProcess 40)))"
    by simp
  from Nack_batch_justified [OF refl this] this show ?thesis
    by blast
qed

text \<open>
  C17: a forward jump within \<open>max_sequence_gap\<close>, with room in the list, records exactly the skipped
  numbers: the received number itself is no longer missing, each number strictly between the old
  newest and the received one that was not yet listed is listed with the current time and no
  requests made, every other entry is unchanged, and the received number becomes the newest.
  All arithmetic is modulo \<open>2^16\<close>, so this holds across the wrap-around.
\<close>

theorem Nack_gap_recorded:
  assumes "r = fst (run nack_step (Nack_new c) es)" "nk_initialized r"
    and "IsNewerSequenceNumber seq (newest_seq r)" "seq - newest_seq r \<le> max_sequence_gap (nk_config r)"
    and "length (missing_packets r) + unat (seq - newest_seq r) \<le> max_nack_list_size (nk_config r)"
    and "r' = snd (OnReceivedPacket seq now fec r)"
  shows "newest_seq r' = seq \<and>
    map_of (missing_packets r') x =
      (if x = seq then None
       else if x \<in> gap_numbers (newest_seq r + 1) seq \<and> map_of (missing_packets r) x = None
       then Some \<lparr>first_missing_ms = now, last_nack_ms = 0, nack_count = 0\<rparr>
       else map_of (missing_packets r) x)"
proof -
  let ?t = "snd (take_missing seq now fec r)"
  have ok: "omap_ok (missing_packets ?t)"
    using take_missing_wf [of r seq now fec] nack_reachable_wf [of c es] assms(1) by (simp add: nack_wf_def)
  have "newest_seq r \<noteq> seq"
    using assms(3) by (auto simp: IsNewerSequenceNumber_def)
  then have "unat (seq - (newest_seq r + 1)) < unat (seq - newest_seq r)"
    by (rule unat_step_less)
  then have room: "length (missing_packets ?t) + unat (seq - (newest_seq r + 1)) \<le> max_nack_list_size (nk_config ?t)"
    using assms(5) take_missing_length [of seq now fec r] by simp
  have small: "gap_numbers (newest_seq r + 1) seq = {}" if "\<not> 1 < seq - newest_seq r"
  proof -
    have "unat (seq - newest_seq r) \<le> 1"
      using that by (simp add: word_less_nat_alt)
    then have "unat (seq - (newest_seq r + 1)) = 0"
      using \<open>unat (seq - (newest_seq r + 1)) < _\<close> by linarith
    then show ?thesis
      by (simp add: gap_numbers_def)
  qed
  show ?thesis
    unfolding assms(6)
    using assms(2-4) AddMissingPackets_exact [OF ok room, of now x] end_notin_gap [of seq "newest_seq r + 1"] small
    by (auto simp: OnReceivedPacket_def advance_newest_def Let_def split_def not_less)
qed

theorem Nack_gap_recorded_witness:
  "let r = fst (run nack_step (Nack_new nack_config_default) [NkPacket 65534 0 False]);
       r' = snd (OnReceivedPacket 1 10 False r)
   in newest_seq r' = 1 \<and>
      map_of (missing_packets r') 65535 = Some \<lparr>first_missing_ms = 10, last_nack_ms = 0, nack_count = 0\<rparr>"
proof -
  let ?r = "fst (run nack_step (Nack_new nack_config_default) [NkPacket 65534 0 False])"
  have r: "?r = (Nack_new nack_config_default)\<lparr>nk_initialized := True, newest_seq := 65534\<rparr>"
    by code_simp
  have "65535 \<in> gap_numbers (newest_seq ?r + 1) (1 :: u16)"
    unfolding r gap_numbers_def by (rule image_eqI [of _ _ 0]) simp_all
  moreover have "(65535 :: u16) \<noteq> 1"
    by simp
  moreover note Nack_gap_recorded [OF refl, of nack_config_default "[NkPacket 65534 0 False]" 1 _ 10 False 65535]
  ultimately show ?thesis
    unfolding r Let_def
    by (simp add: Nack_new_def nack_config_default_def IsNewerSequenceNumber_def Let_def)
qed

end
