(* ===== verification/Reorder_Queue.thy ===== *)
theory Reorder_Queue
  imports Packetia_Prelude
begin

text \<open>
  \<open>src/Rtsp/RtpPacketReorderQueue.h\<close>: the per-stream reorder queue, which hands RTP packets on in
  ascending sequence order, waits a bounded time for missing ones and resynchronises after a
  confirmed jump.  Time points are \<open>int\<close> nanoseconds of the steady clock, durations milliseconds.
  The callback is the output: the extended number, the 16-bit number the callback sees, the packet.
\<close>

section \<open>State\<close>

record resync_config =
  consecutive_packets :: u16
  stalled_ms :: nat
  probation_ms :: nat

record rq_stats =
  emitted :: nat
  lost :: nat
  duplicates :: nat
  late :: nat
  out_of_window :: nat
  timeouts :: nat
  overflows :: nat
  resync_attempts :: nat
  resyncs :: nat

record 'p rq =
  max_gap :: u16
  max_cache :: nat
  timeout_ms :: nat
  resync :: resync_config
  last_progress :: int
  resync_started :: int
  resync_last :: u16
  resync_count :: nat
  started :: bool
  next_seq :: int
  buffer :: "(int, 'p \<times> int) omap"
  rq_callback :: bool
  rq_st :: rq_stats

type_synonym 'p rq_out = "(int \<times> u16 \<times> 'p) list"

definition rq_stats_init :: rq_stats where
  "rq_stats_init = \<lparr>emitted = 0, lost = 0, duplicates = 0, late = 0, out_of_window = 0, timeouts = 0,
     overflows = 0, resync_attempts = 0, resyncs = 0\<rparr>"

definition resync_config_default :: resync_config where
  "resync_config_default = \<lparr>consecutive_packets = 3, stalled_ms = 500, probation_ms = 100\<rparr>"

text \<open>The constructor; \<open>None\<close> is \<open>std::invalid_argument\<close>.\<close>

definition Rq_new :: "u16 \<Rightarrow> nat \<Rightarrow> nat \<Rightarrow> resync_config \<Rightarrow> 'p rq option" where
  "Rq_new gap cache flush_timeout_ms rs =
     (if gap = 0 \<or> gap > 0x8000 \<or> cache \<ge> 0x8000 then None
      else if consecutive_packets rs \<noteq> 0 \<and>
        (consecutive_packets rs < 2 \<or> consecutive_packets rs \<ge> 0x8000 \<or> stalled_ms rs = 0 \<or> probation_ms rs = 0)
      then None
      else Some \<lparr>max_gap = gap, max_cache = cache, timeout_ms = flush_timeout_ms, resync = rs,
        last_progress = 0, resync_started = 0, resync_last = 0, resync_count = 0, started = False,
        next_seq = 0, buffer = [], rq_callback = False, rq_st = rq_stats_init\<rparr>)"

section \<open>Operations\<close>

definition setOnPacketSorted :: "bool \<Rightarrow> 'p rq \<Rightarrow> 'p rq" where
  "setOnPacketSorted cb q = q\<lparr>rq_callback := cb\<rparr>"

definition ClearResync :: "'p rq \<Rightarrow> 'p rq" where
  "ClearResync q = q\<lparr>resync_count := 0\<rparr>"

definition Emit :: "int \<Rightarrow> 'p \<Rightarrow> int \<Rightarrow> 'p rq \<Rightarrow> 'p rq \<times> 'p rq_out" where
  "Emit extended packet now q =
     (let q = ClearResync (q\<lparr>next_seq := extended + 1, last_progress := now\<rparr>);
          q = q\<lparr>rq_st := (rq_st q)\<lparr>emitted := emitted (rq_st q) + 1\<rparr>\<rparr>
      in (q, if rq_callback q then [(extended, word_of_int extended, packet)] else []))"

definition SkipToFirst :: "'p rq \<Rightarrow> 'p rq" where
  "SkipToFirst q =
     (case buffer q of
        [] \<Rightarrow> q
      | (k, _) # _ \<Rightarrow> q\<lparr>rq_st := (rq_st q)\<lparr>lost := lost (rq_st q) + nat (k - next_seq q)\<rparr>, next_seq := k\<rparr>)"

text \<open>The loop of \<open>flushBuffered\<close> pops the buffer, so it is recursive in the buffer.\<close>

fun flush_loop :: "(int, 'p \<times> int) omap \<Rightarrow> int \<Rightarrow> 'p rq \<Rightarrow> 'p rq \<times> 'p rq_out" where
  "flush_loop [] now q = (q\<lparr>buffer := []\<rparr>, [])"
| "flush_loop ((k, packet, arrived) # rest) now q =
     (if k = next_seq q then
        let q1 = Emit k packet now (q\<lparr>buffer := rest\<rparr>);
            q2 = flush_loop rest now (fst q1)
        in (fst q2, snd q1 @ snd q2)
      else (q\<lparr>buffer := (k, packet, arrived) # rest\<rparr>, []))"

definition flushBuffered :: "int \<Rightarrow> 'p rq \<Rightarrow> 'p rq \<times> 'p rq_out" where
  "flushBuffered now q = flush_loop (buffer q) now q"

definition oldest_arrival :: "(int, 'p \<times> int) omap \<Rightarrow> int" where
  "oldest_arrival m = fold (\<lambda>e oldest. if snd (snd e) < oldest then snd (snd e) else oldest) m (snd (snd (hd m)))"

lemma Emit_buffer [simp]: "buffer (fst (Emit k p now q)) = buffer q"
  by (simp add: Emit_def ClearResync_def Let_def)

lemma flush_loop_length: "length (buffer (fst (flush_loop m now q))) \<le> length m"
  by (induction m arbitrary: q) (auto simp: Let_def le_SucI)

lemma skip_flush_shorter:
  "buffer q \<noteq> [] \<Longrightarrow> length (buffer (fst (flushBuffered now (SkipToFirst q)))) < length (buffer q)"
proof (cases "buffer q")
  case (Cons e m)
  obtain k p a where e: "e = (k, p, a)"
    by (metis prod_cases3)
  let ?q1 = "fst (Emit k p now (SkipToFirst q\<lparr>buffer := m\<rparr>))"
  have "length (buffer (fst (flush_loop m now ?q1))) \<le> length m"
    by (rule flush_loop_length)
  then show ?thesis
    using Cons e by (simp add: flushBuffered_def SkipToFirst_def Let_def split_def)
qed simp

text \<open>The loop of \<open>flushExpired\<close>: while the longest-waiting entry is overdue, give up the gap before the first.\<close>

function expire_loop :: "int \<Rightarrow> 'p rq \<Rightarrow> 'p rq \<times> 'p rq_out" where
  "expire_loop now q =
     (if buffer q = [] then (q, [])
      else let oldest = oldest_arrival (buffer q) in
        if now < oldest \<or> now - oldest < ms (timeout_ms q) then (q, [])
        else
          let q1 = q\<lparr>rq_st := (rq_st q)\<lparr>timeouts := timeouts (rq_st q) + 1\<rparr>\<rparr>;
              q2 = flushBuffered now (SkipToFirst q1);
              q3 = expire_loop now (fst q2)
          in (fst q3, snd q2 @ snd q3))"
  by pat_completeness auto

termination
  by (relation "measure (\<lambda>(_, q). length (buffer q))")
    (auto simp: skip_flush_shorter [of "_\<lparr>rq_st := _\<rparr>", simplified])

declare expire_loop.simps [simp del]

definition flushExpired :: "int \<Rightarrow> 'p rq \<Rightarrow> 'p rq \<times> 'p rq_out" where
  "flushExpired now q =
     expire_loop now
       (if resync_count q \<noteq> 0 \<and>
           (now < resync_started q \<or> now - resync_started q \<ge> ms (probation_ms (resync q)))
        then ClearResync q else q)"

function drain_loop :: "int \<Rightarrow> 'p rq \<Rightarrow> 'p rq \<times> 'p rq_out" where
  "drain_loop now q =
     (if buffer q = [] then (q, [])
      else let q1 = flushBuffered now (SkipToFirst q);
               q2 = drain_loop now (fst q1)
           in (fst q2, snd q1 @ snd q2))"
  by pat_completeness auto

termination
  by (relation "measure (\<lambda>(_, q). length (buffer q))") (auto simp: skip_flush_shorter)

declare drain_loop.simps [simp del]

definition flushTimeout :: "int \<Rightarrow> 'p rq \<Rightarrow> 'p rq \<times> 'p rq_out" where
  "flushTimeout now q = drain_loop now (ClearResync q)"

definition Rq_reset :: "'p rq \<Rightarrow> 'p rq" where
  "Rq_reset q = ClearResync (q\<lparr>buffer := [], started := False, next_seq := 0, last_progress := 0,
     rq_st := rq_stats_init\<rparr>)"

definition ConfirmForwardResync :: "u16 \<Rightarrow> int \<Rightarrow> 'p rq \<Rightarrow> bool \<times> 'p rq" where
  "ConfirmForwardResync seq now q =
     (if consecutive_packets (resync q) = 0 \<or> buffer q \<noteq> [] \<or> now < last_progress q \<or>
         now - last_progress q < ms (stalled_ms (resync q))
      then (False, ClearResync q)
      else if resync_count q \<noteq> 0 \<and> seq = resync_last q then (False, q)
      else
        let q = (if resync_count q = 0 \<or> seq \<noteq> resync_last q + 1
                 then q\<lparr>resync_count := 1, resync_started := now,
                        rq_st := (rq_st q)\<lparr>resync_attempts := resync_attempts (rq_st q) + 1\<rparr>\<rparr>
                 else q\<lparr>resync_count := resync_count q + 1\<rparr>);
            q = q\<lparr>resync_last := seq\<rparr>
        in (resync_count q \<ge> unat (consecutive_packets (resync q)), q))"

text \<open>
  \<open>inputPacket\<close> once the queue runs and overdue entries have been flushed: numbers inside the window
  (\<open>admit_near\<close>), numbers ahead of it (\<open>admit_far\<close>), and the dispatch on the distance.
\<close>

definition admit_near :: "u16 \<Rightarrow> 'p \<Rightarrow> int \<Rightarrow> 'p rq \<Rightarrow> 'p rq \<times> 'p rq_out" where
  "admit_near delta packet now q =
     (if delta = 0
      then let q1 = Emit (next_seq q) packet now q;
               q2 = flushBuffered now (fst q1)
           in (fst q2, snd q1 @ snd q2)
      else
        let extended = next_seq q + uint delta in
        if map_of (buffer q) extended \<noteq> None
        then (q\<lparr>rq_st := (rq_st q)\<lparr>duplicates := duplicates (rq_st q) + 1\<rparr>\<rparr>, [])
        else
          let q = q\<lparr>buffer := omap_emplace extended (packet, now) (buffer q)\<rparr>;
              q1 = (if length (buffer q) > max_cache q
                    then flushBuffered now
                      (SkipToFirst (q\<lparr>rq_st := (rq_st q)\<lparr>overflows := overflows (rq_st q) + 1\<rparr>\<rparr>))
                    else (q, []));
              q2 = flushExpired now (fst q1)
          in (fst q2, snd q1 @ snd q2))"

definition admit_far :: "u16 \<Rightarrow> u16 \<Rightarrow> 'p \<Rightarrow> int \<Rightarrow> 'p rq \<Rightarrow> 'p rq \<times> 'p rq_out" where
  "admit_far seq delta packet now q =
     (let c = ConfirmForwardResync seq now q;
          q = snd c
      in if fst c
         then Emit (next_seq q + uint delta) packet now
                (q\<lparr>rq_st := (rq_st q)\<lparr>resyncs := resyncs (rq_st q) + 1, lost := lost (rq_st q) + unat delta\<rparr>\<rparr>)
         else (q\<lparr>rq_st := (rq_st q)\<lparr>out_of_window := out_of_window (rq_st q) + 1\<rparr>\<rparr>, []))"

definition admit :: "u16 \<Rightarrow> 'p \<Rightarrow> int \<Rightarrow> 'p rq \<Rightarrow> 'p rq \<times> 'p rq_out" where
  "admit seq packet now q =
     (let delta = seq - word_of_int (next_seq q) in
      if delta = 0x8000
      then ((ClearResync q)\<lparr>rq_st := (rq_st q)\<lparr>out_of_window := out_of_window (rq_st q) + 1\<rparr>\<rparr>, [])
      else if delta > 0x8000
      then (q\<lparr>rq_st := (rq_st q)\<lparr>late := late (rq_st q) + 1\<rparr>\<rparr>, [])
      else if delta \<ge> max_gap q then admit_far seq delta packet now q
      else admit_near delta packet now (ClearResync q))"

definition inputPacket :: "u16 \<Rightarrow> 'p \<Rightarrow> int \<Rightarrow> 'p rq \<Rightarrow> 'p rq \<times> 'p rq_out" where
  "inputPacket seq packet now q =
     (if \<not> started q then Emit (uint seq) packet now (q\<lparr>started := True, next_seq := uint seq\<rparr>)
      else let q1 = flushExpired now q;
               q2 = admit seq packet now (fst q1)
           in (fst q2, snd q1 @ snd q2))"

definition getDropCount :: "'p rq \<Rightarrow> nat" where
  "getDropCount q = duplicates (rq_st q) + late (rq_st q) + out_of_window (rq_st q)"

section \<open>Moves: what every operation may do to the output position\<close>

text \<open>
  \<open>moves q (q', out)\<close>: the configuration is kept, the emitted numbers are strictly ascending and lie
  between the old and the new position, the position advances by exactly what is emitted or counted
  lost, and (with a callback) every counted emission is an output.
\<close>

definition moves :: "'p rq \<Rightarrow> 'p rq \<times> 'p rq_out \<Rightarrow> bool" where
  "moves q r \<longleftrightarrow>
     max_gap (fst r) = max_gap q \<and> max_cache (fst r) = max_cache q \<and> timeout_ms (fst r) = timeout_ms q \<and>
     started (fst r) = started q \<and> rq_callback (fst r) = rq_callback q \<and>
     sorted_wrt (<) (map fst (snd r)) \<and>
     (\<forall>x \<in> set (snd r). next_seq q \<le> fst x \<and> fst x < next_seq (fst r) \<and> fst (snd x) = word_of_int (fst x)) \<and>
     next_seq q \<le> next_seq (fst r) \<and>
     next_seq (fst r) - int (emitted (rq_st (fst r))) - int (lost (rq_st (fst r))) =
       next_seq q - int (emitted (rq_st q)) - int (lost (rq_st q)) \<and>
     (rq_callback q \<longrightarrow> emitted (rq_st (fst r)) = emitted (rq_st q) + length (snd r))"

lemma moves_refl [simp]: "moves q (q, [])"
  by (simp add: moves_def)

lemma moves_trans:
  assumes "moves q r" "moves (fst r) r'"
  shows "moves q (fst r', snd r @ snd r')"
proof -
  have "fst x < fst y" if "x \<in> set (snd r)" "y \<in> set (snd r')" for x y
    using assms that by (fastforce simp: moves_def)
  then show ?thesis
    using assms by (fastforce simp: moves_def sorted_wrt_append)
qed

lemma moves_frame [simp]:
  "moves (q\<lparr>buffer := b\<rparr>) r \<longleftrightarrow> moves q r"
  "moves (q\<lparr>rq_st := (rq_st q)\<lparr>timeouts := n\<rparr>\<rparr>) r \<longleftrightarrow> moves q r"
  "moves (q\<lparr>rq_st := (rq_st q)\<lparr>overflows := n\<rparr>\<rparr>) r \<longleftrightarrow> moves q r"
  "moves (ClearResync q) r \<longleftrightarrow> moves q r"
  by (simp_all add: moves_def ClearResync_def)

lemma Emit_moves: "moves q (Emit (next_seq q) p now q)"
  by (simp add: moves_def Emit_def ClearResync_def Let_def)

lemma flush_loop_moves: "moves q (flush_loop m now q)"
proof (induction m arbitrary: q)
  case (Cons e m)
  obtain k p a where e: "e = (k, p, a)"
    by (metis prod_cases3)
  show ?case
  proof (cases "k = next_seq q")
    case True
    then show ?thesis
      using moves_trans [OF Emit_moves [of "q\<lparr>buffer := m\<rparr>" p now, unfolded moves_frame] Cons.IH]
      by (simp add: e Let_def)
  next
    case False
    then show ?thesis
      by (simp add: e moves_def)
  qed
qed (simp add: moves_def)

lemma flushBuffered_moves: "moves q (flushBuffered now q)"
  by (simp add: flushBuffered_def flush_loop_moves)

text \<open>Entries wait in ascending order inside the window that starts at the next number.\<close>

definition in_window :: "'p rq \<Rightarrow> bool" where
  "in_window q \<longleftrightarrow> omap_ok (buffer q) \<and>
     (\<forall>k \<in> fst ` set (buffer q). next_seq q \<le> k \<and> k < next_seq q + uint (max_gap q))"

lemma in_window_frame [simp]:
  "in_window (q\<lparr>rq_st := st\<rparr>) \<longleftrightarrow> in_window q" "in_window (ClearResync q) \<longleftrightarrow> in_window q"
  by (simp_all add: in_window_def ClearResync_def)

lemma SkipToFirst_moves: "in_window q \<Longrightarrow> moves q (SkipToFirst q, [])"
  by (auto simp: moves_def SkipToFirst_def in_window_def split: list.splits)

lemma SkipToFirst_window: "in_window q \<Longrightarrow> in_window (SkipToFirst q)"
  by (fastforce simp: SkipToFirst_def in_window_def omap_ok_Cons split: list.splits)

lemma flush_loop_window:
  assumes "in_window (q\<lparr>buffer := m\<rparr>)"
  shows "in_window (fst (flush_loop m now q)) \<and>
    next_seq (fst (flush_loop m now q)) \<notin> fst ` set (buffer (fst (flush_loop m now q)))"
  using assms
proof (induction m arbitrary: q)
  case (Cons e m)
  obtain k p a where e: "e = (k, p, a)"
    by (metis prod_cases3)
  show ?case
  proof (cases "k = next_seq q")
    case True
    let ?q = "fst (Emit (next_seq q) p now (q\<lparr>buffer := m\<rparr>))"
    have "in_window (?q\<lparr>buffer := m\<rparr>)"
      using Cons.prems True
      by (fastforce simp: e in_window_def omap_ok_Cons Emit_def ClearResync_def Let_def)
    then show ?thesis
      using Cons.IH [of ?q] True by (simp add: e Let_def)
  next
    case False
    then have "next_seq q \<notin> fst ` set (e # m)"
      using Cons.prems by (fastforce simp: e in_window_def omap_ok_Cons)
    then show ?thesis
      using Cons.prems False by (simp add: e)
  qed
qed (simp add: in_window_def)

lemma flushBuffered_window:
  "in_window q \<Longrightarrow> in_window (fst (flushBuffered now q)) \<and>
    next_seq (fst (flushBuffered now q)) \<notin> fst ` set (buffer (fst (flushBuffered now q)))"
  using flush_loop_window [where q = q and m = "buffer q" and now = now] by (simp add: flushBuffered_def)

section \<open>Well-formed queues\<close>

definition rq_wf :: "'p rq \<Rightarrow> bool" where
  "rq_wf q \<longleftrightarrow> in_window q \<and> next_seq q \<notin> fst ` set (buffer q) \<and> length (buffer q) \<le> max_cache q \<and>
     0 < max_gap q \<and> max_gap q \<le> 0x8000 \<and> max_cache q < 0x8000 \<and> (\<not> started q \<longrightarrow> buffer q = [])"

text \<open>What is conserved: every packet put in is emitted, held, or counted in one drop counter.\<close>

definition rq_total :: "'p rq \<Rightarrow> nat" where
  "rq_total q = emitted (rq_st q) + duplicates (rq_st q) + late (rq_st q) + out_of_window (rq_st q) +
     length (buffer q)"

lemma rq_total_frame [simp]:
  "rq_total (ClearResync q) = rq_total q"
  "rq_total (q\<lparr>rq_st := (rq_st q)\<lparr>timeouts := n\<rparr>\<rparr>) = rq_total q"
  "rq_total (q\<lparr>rq_st := (rq_st q)\<lparr>overflows := n\<rparr>\<rparr>) = rq_total q"
  "rq_total (SkipToFirst q) = rq_total q"
  "rq_total (fst (Emit k p now q)) = Suc (rq_total q)"
  by (auto simp: rq_total_def ClearResync_def SkipToFirst_def Emit_def Let_def split: list.splits)

lemma flush_loop_total: "rq_total (fst (flush_loop m now q)) = rq_total (q\<lparr>buffer := m\<rparr>)"
proof (induction m arbitrary: q)
  case (Cons e m)
  obtain k p a where e: "e = (k, p, a)"
    by (metis prod_cases3)
  have "rq_total (fst (Emit k p now (q\<lparr>buffer := m\<rparr>))\<lparr>buffer := m\<rparr>) = rq_total (q\<lparr>buffer := e # m\<rparr>)"
    by (simp add: rq_total_def Emit_def ClearResync_def Let_def)
  then show ?case
    using Cons.IH by (auto simp: e Let_def)
qed simp

lemma flushBuffered_total [simp]: "rq_total (fst (flushBuffered now q)) = rq_total q"
  by (simp add: flushBuffered_def flush_loop_total)

text \<open>Giving up the first gap and emitting what follows it: the body of both draining loops.\<close>

lemma skip_flush:
  assumes "in_window q"
  shows "moves q (flushBuffered now (SkipToFirst q))" "in_window (fst (flushBuffered now (SkipToFirst q)))"
    "next_seq (fst (flushBuffered now (SkipToFirst q))) \<notin> fst ` set (buffer (fst (flushBuffered now (SkipToFirst q))))"
    "rq_total (fst (flushBuffered now (SkipToFirst q))) = rq_total q"
  using moves_trans [OF SkipToFirst_moves [OF assms], of "flushBuffered now (SkipToFirst q)"]
    flushBuffered_moves [of "SkipToFirst q" now] flushBuffered_window [OF SkipToFirst_window [OF assms], of now]
  by simp_all

lemma moves_wf:
  assumes "moves q r" "rq_wf q" "in_window (fst r)" "next_seq (fst r) \<notin> fst ` set (buffer (fst r))"
    and "length (buffer (fst r)) \<le> length (buffer q)"
  shows "rq_wf (fst r)"
  using assms by (auto simp: rq_wf_def moves_def)

lemma expire_loop_spec:
  "in_window q \<Longrightarrow> next_seq q \<notin> fst ` set (buffer q) \<Longrightarrow>
   moves q (expire_loop now q) \<and> in_window (fst (expire_loop now q)) \<and>
   next_seq (fst (expire_loop now q)) \<notin> fst ` set (buffer (fst (expire_loop now q))) \<and>
   rq_total (fst (expire_loop now q)) = rq_total q \<and>
   length (buffer (fst (expire_loop now q))) \<le> length (buffer q)"
proof (induction now q rule: expire_loop.induct)
  case (1 now q)
  let ?q = "q\<lparr>rq_st := (rq_st q)\<lparr>timeouts := timeouts (rq_st q) + 1\<rparr>\<rparr>"
  let ?r = "flushBuffered now (SkipToFirst ?q)"
  show ?case
  proof (cases "buffer q = [] \<or> now < oldest_arrival (buffer q) \<or>
      now - oldest_arrival (buffer q) < ms (timeout_ms q)")
    case True
    then have "expire_loop now q = (q, [])"
      by (subst expire_loop.simps) (auto simp: Let_def)
    then show ?thesis
      using "1.prems" by simp
  next
    case False
    have w: "in_window ?q"
      using "1.prems" by simp
    have eq: "expire_loop now q = (fst (expire_loop now (fst ?r)), snd ?r @ snd (expire_loop now (fst ?r)))"
      using False by (subst expire_loop.simps) (simp add: Let_def)
    have "moves (fst ?r) (expire_loop now (fst ?r)) \<and> in_window (fst (expire_loop now (fst ?r))) \<and>
        next_seq (fst (expire_loop now (fst ?r))) \<notin> fst ` set (buffer (fst (expire_loop now (fst ?r)))) \<and>
        rq_total (fst (expire_loop now (fst ?r))) = rq_total (fst ?r) \<and>
        length (buffer (fst (expire_loop now (fst ?r)))) \<le> length (buffer (fst ?r))"
      using False skip_flush(2,3) [OF w, of now] by (intro 1(1)) auto
    then show ?thesis
      using skip_flush [OF w, of now] moves_trans [of q ?r] skip_flush_shorter [of ?q now] False
      unfolding eq by simp
  qed
qed

lemma drain_loop_spec:
  "in_window q \<Longrightarrow> moves q (drain_loop now q) \<and> buffer (fst (drain_loop now q)) = [] \<and>
     rq_total (fst (drain_loop now q)) = rq_total q"
proof (induction now q rule: drain_loop.induct)
  case (1 now q)
  let ?r = "flushBuffered now (SkipToFirst q)"
  show ?case
  proof (cases "buffer q = []")
    case True
    then show ?thesis
      by (subst (1 2 3) drain_loop.simps) simp
  next
    case False
    have eq: "drain_loop now q = (fst (drain_loop now (fst ?r)), snd ?r @ snd (drain_loop now (fst ?r)))"
      using False by (subst drain_loop.simps) (simp add: Let_def)
    have "moves (fst ?r) (drain_loop now (fst ?r)) \<and> buffer (fst (drain_loop now (fst ?r))) = [] \<and>
        rq_total (fst (drain_loop now (fst ?r))) = rq_total (fst ?r)"
      using False skip_flush(2) [OF "1.prems", of now] by (intro 1(1)) auto
    then show ?thesis
      using skip_flush [OF "1.prems", of now] moves_trans [of q ?r] unfolding eq by simp
  qed
qed

text \<open>The contract of an operation that takes in \<open>n\<close> packets.\<close>

definition rq_op :: "nat \<Rightarrow> 'p rq \<Rightarrow> 'p rq \<times> 'p rq_out \<Rightarrow> bool" where
  "rq_op n q r \<longleftrightarrow> moves q r \<and> rq_wf (fst r) \<and> rq_total (fst r) = rq_total q + n"

lemma rq_op_trans: "rq_op m q r \<Longrightarrow> rq_op n (fst r) r' \<Longrightarrow> rq_op (m + n) q (fst r', snd r @ snd r')"
  by (simp add: rq_op_def moves_trans)

lemma rq_wf_frame [simp]:
  "rq_wf (ClearResync q) \<longleftrightarrow> rq_wf q" "rq_wf (q\<lparr>rq_st := st\<rparr>) \<longleftrightarrow> rq_wf q"
  by (simp_all add: rq_wf_def in_window_def ClearResync_def)

lemma flushExpired_op:
  assumes "rq_wf q"
  shows "rq_op 0 q (flushExpired now q)"
proof -
  have "rq_op 0 q (expire_loop now q')" if "q' = q \<or> q' = ClearResync q" for q'
  proof -
    have wf: "rq_wf q'" and m: "moves q = moves q'" "rq_total q' = rq_total q"
      using assms that by auto
    then have e: "in_window q'" "next_seq q' \<notin> fst ` set (buffer q')"
      by (auto simp: rq_wf_def)
    note s = expire_loop_spec [OF e, of now]
    show ?thesis
      using s moves_wf [of q' "expire_loop now q'"] wf m by (simp add: rq_op_def)
  qed
  then show ?thesis
    by (simp add: flushExpired_def)
qed

lemma flushTimeout_op:
  assumes "rq_wf q"
  shows "rq_op 0 q (flushTimeout now q)" "buffer (fst (flushTimeout now q)) = []"
proof -
  have w: "in_window (ClearResync q)" "rq_wf (ClearResync q)"
    using assms by (simp_all, simp add: rq_wf_def)
  note s = drain_loop_spec [OF w(1), of now]
  then show "buffer (fst (flushTimeout now q)) = []"
    by (simp add: flushTimeout_def)
  have "rq_wf (fst (drain_loop now (ClearResync q)))"
    by (rule moves_wf [OF _ w(2)]) (use s in \<open>simp_all add: in_window_def\<close>)
  then show "rq_op 0 q (flushTimeout now q)"
    using s by (simp add: rq_op_def flushTimeout_def)
qed

lemma ConfirmForwardResync_frame:
  "buffer (snd (ConfirmForwardResync seq now q)) = buffer q"
  "next_seq (snd (ConfirmForwardResync seq now q)) = next_seq q"
  "moves (snd (ConfirmForwardResync seq now q)) r = moves q r"
  "rq_wf (snd (ConfirmForwardResync seq now q)) = rq_wf q"
  "rq_total (snd (ConfirmForwardResync seq now q)) = rq_total q"
  "fst (ConfirmForwardResync seq now q) \<Longrightarrow> buffer q = []"
  by (auto simp: ConfirmForwardResync_def ClearResync_def Let_def moves_def rq_wf_def in_window_def rq_total_def
      split: if_splits)

lemma count_drop_op:
  assumes "rq_wf q" "rq_total (q\<lparr>rq_st := st\<rparr>) = rq_total q + 1" "emitted st = emitted (rq_st q)" "lost st = lost (rq_st q)"
  shows "rq_op 1 q (q\<lparr>rq_st := st\<rparr>, [])"
  using assms by (simp add: rq_op_def moves_def)

lemma uint_delta: "0 \<le> uint (d :: u16)" "int (unat d) = uint d"
  by simp_all

lemma emit_in_order_op:
  assumes "rq_wf q"
  shows "rq_op 1 q (fst (flushBuffered now (fst (Emit (next_seq q) p now q))),
    snd (Emit (next_seq q) p now q) @ snd (flushBuffered now (fst (Emit (next_seq q) p now q))))"
proof -
  let ?q = "fst (Emit (next_seq q) p now q)"
  have above: "next_seq q < k \<and> k < next_seq q + uint (max_gap q)" if "k \<in> fst ` set (buffer q)" for k
    using assms that by (cases "k = next_seq q") (auto simp: rq_wf_def in_window_def order_le_less)
  have "in_window ?q"
    using assms above by (force simp: rq_wf_def in_window_def Emit_def ClearResync_def Let_def)
  note w = flushBuffered_window [OF this, of now]
  have m: "moves q (fst (flushBuffered now ?q), snd (Emit (next_seq q) p now q) @ snd (flushBuffered now ?q))"
    using moves_trans [OF Emit_moves flushBuffered_moves] .
  have "length (buffer (fst (flushBuffered now ?q))) \<le> length (buffer q)"
    using flush_loop_length [of "buffer ?q" now ?q] by (simp add: flushBuffered_def)
  then show ?thesis
    using m w moves_wf [OF m assms] by (simp add: rq_op_def)
qed

lemma resync_op:
  assumes "rq_wf q" "buffer q = []" "0 < uint d"
  shows "rq_op 1 q (Emit (next_seq q + uint (d :: u16)) p now
    (q\<lparr>rq_st := (rq_st q)\<lparr>resyncs := n, lost := lost (rq_st q) + unat d\<rparr>\<rparr>))"
  using assms
  by (simp add: rq_op_def moves_def rq_wf_def in_window_def rq_total_def Emit_def ClearResync_def Let_def)

lemma insert_op:
  assumes wf: "rq_wf q" and d: "0 < uint d" "uint d < uint (max_gap q)" and st: "started q"
    and fresh: "map_of (buffer q) (next_seq q + uint d) = None"
    and q': "q' = q\<lparr>buffer := omap_emplace (next_seq q + uint (d :: u16)) (p, now) (buffer q)\<rparr>"
  shows "length (buffer q') \<le> max_cache q' \<Longrightarrow> rq_op 1 q (q', [])"
    and "\<not> length (buffer q') \<le> max_cache q' \<Longrightarrow> rq_op 1 q (flushBuffered now
           (SkipToFirst (q'\<lparr>rq_st := (rq_st q')\<lparr>overflows := n\<rparr>\<rparr>)))"
proof -
  have ok: "omap_ok (buffer q)"
    using wf by (simp add: rq_wf_def in_window_def)
  have len: "length (buffer q') = Suc (length (buffer q))"
    using omap.card_emplace [OF ok, of "next_seq q + uint d"] fresh by (simp add: q')
  have w: "in_window q'"
    using wf d by (auto simp: q' rq_wf_def in_window_def omap_ok_emplace set_emplace_keys)
  have nxt: "next_seq q' \<notin> fst ` set (buffer q')"
    using wf d by (auto simp: q' rq_wf_def set_emplace_keys)
  have tot: "rq_total q' = rq_total q + 1"
    using len by (simp add: rq_total_def q')
  show "length (buffer q') \<le> max_cache q' \<Longrightarrow> rq_op 1 q (q', [])"
    using wf w nxt tot st by (auto simp: rq_op_def rq_wf_def moves_def q')
  let ?q = "q'\<lparr>rq_st := (rq_st q')\<lparr>overflows := n\<rparr>\<rparr>"
  have w': "in_window ?q"
    using w by simp
  note s = skip_flush [OF w', of now]
  have "length (buffer (fst (flushBuffered now (SkipToFirst ?q)))) < length (buffer ?q)"
    using len by (intro skip_flush_shorter) auto
  moreover have "moves q (flushBuffered now (SkipToFirst ?q))"
    using s(1) unfolding moves_def q' by simp
  ultimately show "\<not> length (buffer q') \<le> max_cache q' \<Longrightarrow> rq_op 1 q (flushBuffered now (SkipToFirst ?q))"
    using s wf tot len st moves_wf [of q "flushBuffered now (SkipToFirst ?q)"] by (simp add: rq_op_def)
qed

lemma uint_pos: "(d :: u16) \<noteq> 0 \<Longrightarrow> 0 < uint d"
  by (metis uint_delta(1) unsigned_eq_0_iff order_le_less)

lemma admit_near_op:
  assumes wf: "rq_wf q" and st: "started q" and d: "uint d < uint (max_gap q)"
  shows "rq_op 1 q (admit_near d p now q)"
proof (cases "d = 0")
  case True
  then show ?thesis
    using emit_in_order_op [OF wf] by (simp add: admit_near_def Let_def)
next
  case False
  let ?x = "next_seq q + uint d"
  let ?q = "q\<lparr>buffer := omap_emplace ?x (p, now) (buffer q)\<rparr>"
  let ?r = "if length (buffer ?q) > max_cache ?q
    then flushBuffered now (SkipToFirst (?q\<lparr>rq_st := (rq_st ?q)\<lparr>overflows := overflows (rq_st ?q) + 1\<rparr>\<rparr>))
    else (?q, [])"
  show ?thesis
  proof (cases "map_of (buffer q) ?x = None")
    case True
    have ins: "rq_op 1 q ?r"
      using insert_op [OF wf uint_pos [OF False] d st True refl] by (simp add: not_less)
    then have "rq_op 0 (fst ?r) (flushExpired now (fst ?r))"
      by (intro flushExpired_op) (simp only: rq_op_def)
    from rq_op_trans [OF ins this] True False show ?thesis
      by (simp add: admit_near_def Let_def)
  next
    case dup: False
    have "rq_op 1 q (q\<lparr>rq_st := (rq_st q)\<lparr>duplicates := duplicates (rq_st q) + 1\<rparr>\<rparr>, [])"
      by (rule count_drop_op [OF wf]) (simp_all add: rq_total_def)
    then show ?thesis
      using dup False by (simp add: admit_near_def Let_def)
  qed
qed

lemma admit_far_op:
  assumes "rq_wf q" "d \<noteq> 0"
  shows "rq_op 1 q (admit_far seq d p now q)"
proof -
  let ?q = "snd (ConfirmForwardResync seq now q)"
  have wf: "rq_wf ?q"
    using assms(1) by (simp add: ConfirmForwardResync_frame)
  have "rq_op 1 ?q (?q\<lparr>rq_st := (rq_st ?q)\<lparr>out_of_window := out_of_window (rq_st ?q) + 1\<rparr>\<rparr>, [])"
    by (rule count_drop_op [OF wf]) (simp_all add: rq_total_def)
  moreover have "rq_op 1 ?q (Emit (next_seq ?q + uint d) p now
      (?q\<lparr>rq_st := (rq_st ?q)\<lparr>resyncs := resyncs (rq_st ?q) + 1, lost := lost (rq_st ?q) + unat d\<rparr>\<rparr>))"
    if "fst (ConfirmForwardResync seq now q)"
    by (rule resync_op [OF wf]) (use that assms(2) in \<open>simp_all add: ConfirmForwardResync_frame uint_pos\<close>)
  ultimately show ?thesis
    by (simp add: admit_far_def Let_def rq_op_def ConfirmForwardResync_frame)
qed

lemma admit_op:
  assumes "rq_wf q" "started q"
  shows "rq_op 1 q (admit seq p now q)"
proof -
  define d where "d = seq - (word_of_int (next_seq q) :: u16)"
  have cl: "rq_wf (ClearResync q)" "started (ClearResync q)" "max_gap (ClearResync q) = max_gap q"
    using assms by (simp, simp_all add: ClearResync_def)
  have op_cl: "rq_op n (ClearResync q) r = rq_op n q r" for n r
    by (simp add: rq_op_def)
  have "rq_op 1 (ClearResync q) ((ClearResync q)\<lparr>rq_st := (rq_st q)\<lparr>out_of_window := out_of_window (rq_st q) + 1\<rparr>\<rparr>, [])"
    by (rule count_drop_op [OF cl(1)]) (simp_all add: rq_total_def ClearResync_def)
  moreover have "rq_op 1 q (q\<lparr>rq_st := (rq_st q)\<lparr>late := late (rq_st q) + 1\<rparr>\<rparr>, [])"
    by (rule count_drop_op [OF assms(1)]) (simp_all add: rq_total_def)
  moreover have "rq_op 1 q (admit_far seq d p now q)" if "max_gap q \<le> d"
    using that assms by (intro admit_far_op) (auto simp: rq_wf_def)
  moreover have "rq_op 1 (ClearResync q) (admit_near d p now (ClearResync q))" if "\<not> max_gap q \<le> d"
    using that cl by (intro admit_near_op) (auto simp: word_le_def)
  ultimately show ?thesis
    unfolding admit_def Let_def d_def [symmetric] op_cl by simp
qed

section \<open>The queue as a machine\<close>

datatype 'p rq_event =
    Input u16 'p int
  | Tick int
  | Flush int
  | Drain int

definition rq_step :: "'p rq \<Rightarrow> 'p rq_event \<Rightarrow> 'p rq \<times> 'p rq_out" where
  "rq_step q e = (case e of
     Input seq p now \<Rightarrow> inputPacket seq p now q
   | Tick now \<Rightarrow> flushExpired now q
   | Flush now \<Rightarrow> flushBuffered now q
   | Drain now \<Rightarrow> flushTimeout now q)"

fun inputs :: "'p rq_event \<Rightarrow> nat" where
  "inputs (Input seq p now) = 1"
| "inputs _ = 0"

lemma flushBuffered_op: "rq_wf q \<Longrightarrow> rq_op 0 q (flushBuffered now q)"
  using moves_wf [OF flushBuffered_moves, of q now] flushBuffered_window [of q now] flush_loop_length [of "buffer q" now q]
  by (simp add: rq_op_def rq_wf_def flush_loop_moves flush_loop_total flushBuffered_def)

lemma inputPacket_op:
  assumes "rq_wf q" "started q"
  shows "rq_op 1 q (inputPacket seq p now q)"
proof -
  have f: "rq_op 0 q (flushExpired now q)"
    using assms(1) by (rule flushExpired_op)
  then have "rq_op 1 (fst (flushExpired now q)) (admit seq p now (fst (flushExpired now q)))"
    using assms(2) by (intro admit_op) (auto simp: rq_op_def moves_def)
  from rq_op_trans [OF f this] show ?thesis
    using assms(2) by (simp add: inputPacket_def Let_def)
qed

lemma rq_step_op: "rq_wf q \<Longrightarrow> started q \<Longrightarrow> rq_op (inputs e) q (rq_step q e)"
  by (cases e) (simp_all add: rq_step_def inputPacket_op [unfolded One_nat_def] flushExpired_op flushBuffered_op flushTimeout_op)

text \<open>A queue that has not started: empty, at position zero, nothing counted.\<close>

definition rq_idle :: "'p rq \<Rightarrow> bool" where
  "rq_idle q \<longleftrightarrow> \<not> started q \<and> buffer q = [] \<and> next_seq q = 0 \<and> emitted (rq_st q) = 0 \<and> lost (rq_st q) = 0"

lemma rq_idle_step:
  assumes "rq_wf q" "rq_idle q"
  shows "rq_wf (fst (rq_step q e)) \<and> rq_total (fst (rq_step q e)) = rq_total q + inputs e \<and>
    (case e of Input seq p now \<Rightarrow> started (fst (rq_step q e)) \<and> next_seq (fst (rq_step q e)) = uint seq + 1 \<and>
        emitted (rq_st (fst (rq_step q e))) = 1 \<and> lost (rq_st (fst (rq_step q e))) = 0 \<and>
        snd (rq_step q e) = (if rq_callback q then [(uint seq, seq, p)] else [])
     | _ \<Rightarrow> rq_idle (fst (rq_step q e)) \<and> snd (rq_step q e) = []) \<and>
    rq_callback (fst (rq_step q e)) = rq_callback q"
proof (cases e)
  case (Input seq p now)
  then show ?thesis
    using assms by (simp add: rq_step_def inputPacket_def rq_idle_def Emit_def ClearResync_def Let_def rq_wf_def
        in_window_def rq_total_def)
next
  case (Tick now)
  have "expire_loop now q' = (q', [])" if "buffer q' = []" for q' :: "'a rq"
    using that by (subst expire_loop.simps) simp
  then show ?thesis
    using assms Tick by (simp add: rq_step_def flushExpired_def rq_idle_def ClearResync_def rq_wf_def in_window_def
        rq_total_def)
next
  case (Flush now)
  then show ?thesis
    using assms by (simp add: rq_step_def flushBuffered_def rq_idle_def rq_wf_def in_window_def rq_total_def)
next
  case (Drain now)
  then show ?thesis
    using assms by (simp add: rq_step_def flushTimeout_def drain_loop.simps rq_idle_def ClearResync_def rq_wf_def
        in_window_def rq_total_def)
qed

definition rq_inv :: "'p rq \<Rightarrow> bool" where
  "rq_inv q \<longleftrightarrow> rq_wf q \<and> (\<not> started q \<longrightarrow> rq_idle q)"

lemma rq_step_inv:
  assumes "rq_inv q"
  shows "rq_inv (fst (rq_step q e)) \<and> rq_total (fst (rq_step q e)) = rq_total q + inputs e"
proof (cases "started q")
  case True
  then show ?thesis
    using assms rq_step_op [of q e] by (auto simp: rq_inv_def rq_op_def moves_def)
next
  case False
  then show ?thesis
    using assms rq_idle_step [of q e] by (auto simp: rq_inv_def rq_idle_def split: rq_event.splits)
qed

interpretation rq_out: ordered_output_machine rq_step "\<lambda>_. True" rq_inv next_seq fst
proof
  fix q :: "'p rq" and e
  assume i: "rq_inv q"
  show "rq_inv (fst (rq_step q e))"
    using rq_step_inv [OF i] by simp
  have m: "sorted_wrt (<) (map fst (snd (rq_step q e))) \<and> next_seq q \<le> next_seq (fst (rq_step q e)) \<and>
      (\<forall>x \<in> set (snd (rq_step q e)). next_seq q \<le> fst x \<and> fst x < next_seq (fst (rq_step q e)))"
  proof (cases "started q")
    case True
    then show ?thesis
      using i rq_step_op [of q e] by (auto simp: rq_inv_def rq_op_def moves_def)
  next
    case False
    then show ?thesis
      using i rq_idle_step [of q e] by (auto simp: rq_inv_def rq_idle_def split: rq_event.splits if_splits)
  qed
  then show "sorted_wrt (<) (map fst (snd (rq_step q e)))"
    "next_seq q \<le> next_seq (fst (rq_step q e))"
    by auto
  fix x assume "x \<in> set (snd (rq_step q e))"
  then show "next_seq q \<le> fst x" "fst x < next_seq (fst (rq_step q e))"
    using m by auto
qed

lemma Rq_new_inv: "Rq_new gap cache t rs = Some q \<Longrightarrow> rq_inv (setOnPacketSorted cb q)"
  by (auto simp: Rq_new_def rq_inv_def rq_idle_def rq_wf_def in_window_def setOnPacketSorted_def rq_stats_init_def
      word_neq_0_conv split: if_splits)

lemma rq_run_inv: "rq_inv q \<Longrightarrow> rq_inv (fst (run rq_step q es))"
  by (rule rq_out.run_inv) (simp_all add: list_all_iff)

lemma rq_run_total:
  "rq_inv q \<Longrightarrow> rq_total (fst (run rq_step q es)) = rq_total q + sum_list (map inputs es)"
  by (induction es arbitrary: q) (auto simp: Let_def split_def rq_step_inv)

lemma rq_run_moves: "rq_wf q \<Longrightarrow> started q \<Longrightarrow> moves q (run rq_step q es)"
proof (induction es arbitrary: q)
  case (Cons e es)
  have o: "rq_op (inputs e) q (rq_step q e)"
    using Cons.prems by (rule rq_step_op)
  then have "moves (fst (rq_step q e)) (run rq_step (fst (rq_step q e)) es)"
    using Cons.prems by (intro Cons.IH) (auto simp: rq_op_def moves_def)
  then show ?case
    using o moves_trans [of q "rq_step q e"] by (simp add: rq_op_def Let_def split_def)
qed simp

lemma oldest_le:
  assumes "(k, p, a) \<in> set m"
  shows "oldest_arrival m \<le> a"
proof -
  have "fold (\<lambda>e oldest. if snd (snd e) < oldest then snd (snd e) else oldest) m b \<le> b \<and>
      (\<forall>(k, p, a) \<in> set m. fold (\<lambda>e oldest. if snd (snd e) < oldest then snd (snd e) else oldest) m b \<le> a)" for b
    by (induction m arbitrary: b) (force split: if_splits)+
  then show ?thesis
    using assms unfolding oldest_arrival_def by blast
qed

lemma expire_loop_fresh:
  "(k, p, a) \<in> set (buffer (fst (expire_loop now q))) \<Longrightarrow>
     now - a < ms (timeout_ms (fst (expire_loop now q)))"
proof (induction now q rule: expire_loop.induct)
  case (1 now q)
  let ?r = "flushBuffered now (SkipToFirst (q\<lparr>rq_st := (rq_st q)\<lparr>timeouts := timeouts (rq_st q) + 1\<rparr>\<rparr>))"
  show ?case
  proof (cases "buffer q = [] \<or> now < oldest_arrival (buffer q) \<or>
      now - oldest_arrival (buffer q) < ms (timeout_ms q)")
    case True
    then have "expire_loop now q = (q, [])"
      by (subst expire_loop.simps) (auto simp: Let_def)
    moreover have "0 \<le> ms (timeout_ms q)"
      by (simp add: ms_def)
    ultimately show ?thesis
      using True 1(2) oldest_le [of k p a "buffer q"] by auto
  next
    case False
    then have "fst (expire_loop now q) = fst (expire_loop now (fst ?r))"
      by (subst expire_loop.simps) (simp add: Let_def)
    then show ?thesis
      using 1 False by auto
  qed
qed

section \<open>Properties\<close>

text \<open>
  C1: a queue hands packets on in strictly ascending order of extended sequence number, whatever the
  order of arrival and whenever it is ticked, flushed or drained: no packet is emitted twice and
  none overtakes another.
\<close>

theorem Rq_emits_in_order:
  assumes "Rq_new gap cache t rs = Some q"
  shows "sorted_wrt (<) (map fst (snd (run rq_step (setOnPacketSorted True q) es)))"
  by (rule rq_out.run_sorted [OF Rq_new_inv [OF assms]]) (simp add: list_all_iff)

theorem Rq_emits_in_order_witness:
  "\<exists>q. Rq_new 1000 50 100 resync_config_default = Some q \<and>
     sorted_wrt (<) (map fst (snd (run rq_step (setOnPacketSorted True q)
       [Input 65534 (0::nat) 0, Input 0 1 1, Input 65535 2 2])))"
proof -
  obtain q where "Rq_new 1000 50 100 resync_config_default = Some (q :: nat rq)"
    by (simp add: Rq_new_def resync_config_default_def)
  with Rq_emits_in_order [OF this] show ?thesis
    by blast
qed

text \<open>
  C2: exact accounting over a whole run that starts with a packet numbered \<open>s\<close>.  The queue's position
  is \<open>s\<close> plus the packets emitted plus the numbers counted lost; the outputs are exactly the emitted
  packets; and every packet put in is emitted, counted as duplicate, late or out of window, or still
  held.
\<close>

theorem Rq_accounting:
  assumes "Rq_new gap cache t rs = Some q"
    and "run rq_step (setOnPacketSorted True q) (Input s p now # es) = (q', out)"
  shows "next_seq q' = uint s + int (emitted (rq_st q')) + int (lost (rq_st q')) \<and>
    emitted (rq_st q') = length out \<and>
    Suc (sum_list (map inputs es)) = emitted (rq_st q') + getDropCount q' + length (buffer q')"
proof -
  let ?q = "setOnPacketSorted True q"
  let ?r = "rq_step ?q (Input s p now)"
  have i: "rq_inv ?q" and idle: "rq_idle ?q" and tot: "rq_total ?q = 0" and cb: "rq_callback ?q"
    using Rq_new_inv [OF assms(1), of True] assms(1)
    by (auto simp: Rq_new_def rq_idle_def setOnPacketSorted_def rq_stats_init_def rq_total_def split: if_splits)
  have wf: "rq_wf ?q"
    using i by (simp add: rq_inv_def)
  have f: "rq_wf (fst ?r)" "started (fst ?r)" "next_seq (fst ?r) = uint s + 1" "emitted (rq_st (fst ?r)) = 1"
      "lost (rq_st (fst ?r)) = 0" "length (snd ?r) = 1" "rq_callback (fst ?r)"
    using rq_idle_step [OF wf idle, of "Input s p now"] cb by auto
  have r: "q' = fst (run rq_step (fst ?r) es)" "out = snd ?r @ snd (run rq_step (fst ?r) es)"
    using assms(2) by (auto simp: Let_def split_def)
  have "rq_total q' = Suc (sum_list (map inputs es))"
    using rq_run_total [OF i, of "Input s p now # es"] tot assms(2) by simp
  then show ?thesis
    using rq_run_moves [OF f(1,2), of es] f r
    by (auto simp: moves_def rq_total_def getDropCount_def)
qed

theorem Rq_accounting_witness:
  "\<exists>q q' out. Rq_new 1000 50 100 resync_config_default = Some q \<and>
     run rq_step (setOnPacketSorted True q) (Input 65534 (0::nat) 0 # [Input 1 1 1, Tick 200000000]) = (q', out) \<and>
     next_seq q' = 65534 + int (emitted (rq_st q')) + int (lost (rq_st q'))"
proof -
  obtain q where q: "Rq_new 1000 50 100 resync_config_default = Some (q :: nat rq)"
    by (simp add: Rq_new_def resync_config_default_def)
  obtain q' out where r: "run rq_step (setOnPacketSorted True q) (Input 65534 (0::nat) 0 # [Input 1 1 1, Tick 200000000]) = (q', out)"
    by force
  from Rq_accounting [OF q r] q r show ?thesis
    by auto
qed

text \<open>
  C20: in every state a queue can reach, at most \<open>max_cache\<close> packets are held, and every held number
  lies strictly ahead of the next number to emit and less than \<open>max_gap\<close> ahead of it, so its 16-bit
  sequence number identifies it uniquely.
\<close>

theorem Rq_window_bounded:
  assumes "Rq_new gap cache t rs = Some q" "q' = fst (run rq_step (setOnPacketSorted cb q) es)"
  shows "length (buffer q') \<le> max_cache q' \<and>
    (\<forall>k v. map_of (buffer q') k = Some v \<longrightarrow> next_seq q' < k \<and> k < next_seq q' + uint (max_gap q')) \<and>
    uint (max_gap q') \<le> 32768"
proof -
  have "rq_wf q'"
    using rq_run_inv [OF Rq_new_inv [OF assms(1)], of cb es] assms(2) by (simp add: rq_inv_def)
  then have w: "in_window q'" "next_seq q' \<notin> fst ` set (buffer q')" "length (buffer q') \<le> max_cache q'"
      "max_gap q' \<le> 0x8000"
    by (auto simp: rq_wf_def)
  have "next_seq q' < k \<and> k < next_seq q' + uint (max_gap q')" if "map_of (buffer q') k = Some v" for k v
  proof -
    have "k \<in> fst ` set (buffer q')"
      using map_of_SomeD [OF that] by force
    then show ?thesis
      using w(1,2) by (cases "k = next_seq q'") (auto simp: in_window_def order_le_less)
  qed
  then show ?thesis
    using w(3,4) by (simp add: word_le_def)
qed

theorem Rq_window_bounded_witness:
  "\<exists>q. Rq_new 1000 2 100 resync_config_default = Some q \<and>
     length (buffer (fst (run rq_step (setOnPacketSorted True q)
       [Input 1 (0::nat) 0, Input 3 1 1, Input 5 2 2, Input 7 2 2])))
     \<le> max_cache (fst (run rq_step (setOnPacketSorted True q)
       [Input 1 (0::nat) 0, Input 3 1 1, Input 5 2 2, Input 7 2 2]))"
proof -
  obtain q where "Rq_new 1000 2 100 resync_config_default = Some (q :: nat rq)"
    by (simp add: Rq_new_def resync_config_default_def)
  with Rq_window_bounded [OF this refl] show ?thesis
    by blast
qed

text \<open>
  A tick never leaves an overdue packet behind.  After \<open>flushExpired(now)\<close> every packet still held
  arrived less than the flush timeout before \<open>now\<close>.
\<close>

theorem Rq_tick_leaves_none_overdue:
  assumes "(k, p, arrived) \<in> set (buffer (fst (flushExpired now q)))"
  shows "now - arrived < ms (timeout_ms q)"
proof -
  have t: "timeout_ms (fst (expire_loop now q')) = timeout_ms q'" for q' :: "'a rq"
  proof (induction now q' rule: expire_loop.induct)
    case (1 now q)
    have "timeout_ms (fst (flushBuffered now (SkipToFirst q))) = timeout_ms q" for q :: "'a rq"
      using flushBuffered_moves [of "SkipToFirst q" now]
      by (auto simp: moves_def SkipToFirst_def split: list.splits)
    with 1 show ?case
      by (subst expire_loop.simps) (simp add: Let_def)
  qed
  obtain q0 where "flushExpired now q = expire_loop now q0" "timeout_ms q0 = timeout_ms q"
    by (simp add: flushExpired_def ClearResync_def)
  then show ?thesis
    using assms expire_loop_fresh [of k p arrived now q0] t by simp
qed

theorem Rq_tick_leaves_none_overdue_witness:
  "let q = fst (run rq_step (setOnPacketSorted True (the (Rq_new 1000 50 100 resync_config_default)))
       [Input 1 (0::nat) 0, Input 3 1 1]) in
   (3, 1, 1) \<in> set (buffer (fst (flushExpired 5 q))) \<and> 5 - 1 < ms (timeout_ms q)"
proof -
  let ?q = "fst (run rq_step (setOnPacketSorted True (the (Rq_new 1000 50 100 resync_config_default)))
       [Input 1 (0::nat) 0, Input 3 1 1])"
  have "buffer (fst (flushExpired 5 ?q)) = [(3, 1, 1)]"
    by code_simp
  then have "(3, 1, 1) \<in> set (buffer (fst (flushExpired 5 ?q)))"
    by simp
  with Rq_tick_leaves_none_overdue [OF this] show ?thesis
    by (simp add: Let_def)
qed

end
