(* ===== verification/Rtcp_Nack.thy ===== *)
theory Rtcp_Nack
  imports Rtcp_Types
begin

text \<open>
  \<open>src/protocol/Rtcp/RtcpNack.cpp\<close>: the Generic NACK packet (RTPFB, FMT 1).  Lost sequence numbers are
  packed into pairs of a number and a bitmap of the sixteen numbers after it; the packet is built
  and parsed through the codecs of theory \<open>Byte_Codec\<close>.
\<close>

section \<open>Packing and expanding\<close>

record NackPair =
  pid :: u16
  blp :: u16

definition RTCP_VERSION :: u8 where "RTCP_VERSION = 2"
definition RTCP_FMT_NACK :: u8 where "RTCP_FMT_NACK = 1"
definition RTCP_PT_RTPFB :: u8 where "RTCP_PT_RTPFB = 205"

text \<open>The scan for followers of \<open>pid\<close> (index \<open>j\<close> of the source) builds the bitmap.\<close>

fun blp_scan :: "u16 \<Rightarrow> u16 list \<Rightarrow> u16 \<Rightarrow> u16" where
  "blp_scan p [] b = b"
| "blp_scan p (s # ss) b =
     (let diff = s - p in
      if diff = 0 then blp_scan p ss b
      else if diff > 16 then b
      else blp_scan p ss (b OR push_bit (unat diff - 1) 1))"

text \<open>The second inner loop (index \<open>i\<close>) skips the numbers the bitmap covers.\<close>

fun skip_covered :: "u16 \<Rightarrow> u16 list \<Rightarrow> u16 list" where
  "skip_covered p [] = []"
| "skip_covered p (s # ss) =
     (let diff = s - p in if diff = 0 \<or> diff > 16 then s # ss else skip_covered p ss)"

lemma skip_covered_length: "length (skip_covered p ss) \<le> length ss"
  by (induction p ss rule: skip_covered.induct) (auto simp: Let_def)

function pack_loop :: "u16 list \<Rightarrow> NackPair list" where
  "pack_loop [] = []"
| "pack_loop (p # ss) = \<lparr>pid = p, blp = blp_scan p ss 0\<rparr> # pack_loop (skip_covered p ss)"
  by pat_completeness auto

termination
  by (relation "measure length") (auto simp: le_imp_less_Suc skip_covered_length)

definition PackPairs :: "u16 list \<Rightarrow> NackPair list" where
  "PackPairs lost_seqs = (if lost_seqs = [] then [] else pack_loop (remdups_adj (sort lost_seqs)))"

definition ExpandNackPair :: "NackPair \<Rightarrow> u16 list" where
  "ExpandNackPair p =
     pid p # map (\<lambda>i. pid p + of_nat i + 1) (filter (\<lambda>i. blp p AND push_bit i 1 \<noteq> 0) [0..<16])"

definition ExpandPairs :: "NackPair list \<Rightarrow> u16 list" where
  "ExpandPairs pairs = concat (map ExpandNackPair pairs)"

section \<open>Building and parsing\<close>

text \<open>The writes of \<open>Build\<close> fill the zeroed vector from front to back.\<close>

definition enc_pair :: "NackPair \<Rightarrow> bytes" where
  "enc_pair p = enc16 (pid p) @ enc16 (blp p)"

definition dec_pair :: "bytes \<Rightarrow> NackPair" where
  "dec_pair b = \<lparr>pid = dec16 b, blp = dec16 (drop 2 b)\<rparr>"

definition Nack_Build :: "u32 \<Rightarrow> u32 \<Rightarrow> u16 list \<Rightarrow> bytes" where
  "Nack_Build sender media lost_seqs =
     (let pairs = PackPairs lost_seqs in
      if pairs = [] then []
      else
        let packet_size = 12 + length pairs * 4;
            length_words_minus_one = of_nat (packet_size div 4 - 1)
        in [push_bit 6 RTCP_VERSION OR RTCP_FMT_NACK, RTCP_PT_RTPFB] @ enc16 length_words_minus_one @
           enc32 sender @ enc32 media @ concat (map enc_pair pairs))"

function pairs_loop :: "bytes \<Rightarrow> nat \<Rightarrow> nat \<Rightarrow> NackPair list outcome" where
  "pairs_loop p packet_size off =
     (if off + 4 \<le> packet_size
      then ReadUint16BE p off (\<lambda>a. ReadUint16BE p (off + 2) (\<lambda>b.
             bind_outcome (pairs_loop p packet_size (off + 4)) (\<lambda>ps. Ok (\<lparr>pid = a, blp = b\<rparr> # ps))))
      else Ok [])"
  by pat_completeness auto

termination
  by (relation "measure (\<lambda>(_, n, off). n - off)") auto

declare pairs_loop.simps [simp del]

definition Nack_Parse :: "bytes \<Rightarrow> (u32 \<times> u32 \<times> u16 list) outcome" where
  "Nack_Parse p =
     (if length p < 12 then Reject
      else rd8 p 0 (\<lambda>b0. rd8 p 1 (\<lambda>pt.
        let version = drop_bit 6 b0; fmt = b0 AND 0x1F in
        if version \<noteq> RTCP_VERSION then Reject
        else if fmt \<noteq> RTCP_FMT_NACK then Reject
        else if pt \<noteq> RTCP_PT_RTPFB then Reject
        else ReadUint16BE p 2 (\<lambda>words.
          let packet_size = (unat words + 1) * 4 in
          if packet_size < 12 \<or> packet_size > length p then Reject
          else if (packet_size - 12) mod 4 \<noteq> 0 then Reject
          else ReadUint32BE p 4 (\<lambda>sender. ReadUint32BE p 8 (\<lambda>media.
            bind_outcome (pairs_loop p packet_size 12) (\<lambda>pairs. Ok (sender, media, ExpandPairs pairs))))))))"

section \<open>Expansion inverts packing\<close>

text \<open>The numbers one pair covers: those of an ascending list within sixteen of its head.\<close>

lemma skip_covered_dropWhile: "skip_covered p ss = dropWhile (\<lambda>s. \<not> (s - p = 0 \<or> s - p > 16)) ss"
  by (induction p ss rule: skip_covered.induct) (auto simp: Let_def)

lemma minus_u16: "p \<le> s \<Longrightarrow> unat (s - p :: u16) = unat s - unat p"
  by (simp add: unat_sub)

lemma blp_scan_bit:
  assumes "sorted_wrt (<) (p # ss)"
  shows "bit (blp_scan p ss b) i \<longleftrightarrow> bit b i \<or>
    (i < 16 \<and> (\<exists>s \<in> set (takeWhile (\<lambda>s. \<not> (s - p = 0 \<or> s - p > 16)) ss). unat s = unat p + i + 1))"
  using assms
proof (induction p ss b rule: blp_scan.induct)
  case (2 p s ss b)
  then have ps: "p < s" "sorted_wrt (<) (p # ss)"
    by auto
  have u: "unat (s - p) = unat s - unat p" "unat p < unat s"
    using minus_u16 [OF less_imp_le [OF ps(1)]] ps(1) by (simp_all add: word_less_nat_alt)
  have ne: "s - p \<noteq> 0"
    using ps(1) by auto
  show ?case
  proof (cases "s - p > 16")
    case True
    then show ?thesis
      using ne by (simp add: Let_def)
  next
    case False
    then have "unat (s - p) \<le> 16"
      by (simp add: word_less_nat_alt)
    then have "bit (push_bit (unat (s - p) - 1) (1 :: u16)) i \<longleftrightarrow> i < 16 \<and> unat s = unat p + i + 1"
      using u by (auto simp: bit_simps)
    then show ?thesis
      using 2 ps False ne by (auto simp: Let_def bit_or_iff)
  qed
qed simp

lemma expand_packed:
  assumes "sorted_wrt (<) (p # ss)"
  shows "ExpandNackPair \<lparr>pid = p, blp = blp_scan p ss 0\<rparr> =
    p # takeWhile (\<lambda>s. \<not> (s - p = 0 \<or> s - p > 16)) ss"
proof -
  let ?t = "takeWhile (\<lambda>s. \<not> (s - p = 0 \<or> s - p > 16)) ss"
  let ?is = "filter (\<lambda>i. bit (blp_scan p ss 0) i) [0..<16]"
  let ?f = "\<lambda>i. p + of_nat i + 1"
  have f: "?f i = s" if "unat s = unat p + i + 1" for s :: u16 and i
  proof -
    have "?f i = of_nat (unat p + i + 1)"
      by simp
    also have "\<dots> = s"
      unfolding that [symmetric] by simp
    finally show ?thesis .
  qed
  have t: "s \<in> set ?t \<Longrightarrow> p < s \<and> s - p \<le> 16" for s
    using assms by (auto dest: set_takeWhileD)
  have i: "i \<in> set ?is \<longleftrightarrow> i < 16 \<and> (\<exists>s \<in> set ?t. unat s = unat p + i + 1)" for i
    using blp_scan_bit [OF assms, of 0 i] by auto
  have "sorted_wrt (<) (map ?f ?is)"
    unfolding sorted_wrt_map
  proof (rule sorted_wrt_mono_rel)
    show "sorted_wrt (<) ?is"
      by (intro sorted_wrt_filter) simp
    show "?f i < ?f j" if "i \<in> set ?is" "j \<in> set ?is" "i < j" for i j
    proof -
      obtain s s' :: u16 where "unat s = unat p + i + 1" "unat s' = unat p + j + 1"
        using \<open>i \<in> set ?is\<close> \<open>j \<in> set ?is\<close> unfolding i by blast
      then show ?thesis
        using \<open>i < j\<close> f by (simp add: word_less_nat_alt)
    qed
  qed
  moreover have "sorted_wrt (<) ?t"
    using assms by (simp add: sorted_wrt_takeWhile)
  moreover have "set (map ?f ?is) = set ?t"
  proof (intro set_eqI iffI)
    fix s assume "s \<in> set (map ?f ?is)"
    then obtain i where "i \<in> set ?is" "s = ?f i"
      by auto
    then show "s \<in> set ?t"
      unfolding i using f by blast
  next
    fix s assume s: "s \<in> set ?t"
    define i where "i = unat s - unat p - 1"
    have "unat p < unat s" "unat s - unat p \<le> 16"
      using t [OF s] minus_u16 [of p s] by (auto simp: word_less_nat_alt word_le_nat_alt)
    then have "unat s = unat p + i + 1" "i < 16"
      by (auto simp: i_def)
    then have "i \<in> set ?is" and fi: "?f i = s"
      unfolding i using s f by blast+
    then show "s \<in> set (map ?f ?is)"
      unfolding set_map by (intro image_eqI [of _ _ i]) (simp_all only: fi)
  qed
  ultimately have "map ?f ?is = ?t"
    by (intro strict_sorted_equal) (simp_all only:)
  then show ?thesis
    by (simp add: ExpandNackPair_def bit_iff_and_push_bit_not_eq_0)
qed

lemma expand_pack_loop: "sorted_wrt (<) ss \<Longrightarrow> ExpandPairs (pack_loop ss) = ss"
proof (induction ss rule: pack_loop.induct)
  case (2 p ss)
  have "sorted_wrt (<) (skip_covered p ss)"
    using "2.prems" by (simp add: skip_covered_dropWhile sorted_wrt_dropWhile)
  then have "ExpandPairs (pack_loop (skip_covered p ss)) = skip_covered p ss"
    by (rule "2.IH")
  then show ?case
    using expand_packed [OF "2.prems"] by (simp add: ExpandPairs_def skip_covered_dropWhile)
qed (simp add: ExpandPairs_def)

lemma remdups_adj_strict: "sorted xs \<Longrightarrow> sorted_wrt (<) (remdups_adj xs)" for xs :: "'a :: linorder list"
  by (induction xs rule: remdups_adj.induct) (auto simp: order_less_le)

lemma sort_unique: "remdups_adj (sort xs) = sorted_list_of_set (set xs)" for xs :: "'a :: linorder list"
  by (rule strict_sorted_equal) (auto simp: remdups_adj_strict)

lemma ExpandPairs_PackPairs: "ExpandPairs (PackPairs xs) = sorted_list_of_set (set xs)"
  by (simp add: PackPairs_def expand_pack_loop remdups_adj_strict flip: sort_unique)
    (simp add: ExpandPairs_def)

lemma skip_covered_Cons: "skip_covered p ss = s # ss' \<Longrightarrow> s \<in> set ss \<and> (s - p = 0 \<or> s - p > 16)"
  by (induction p ss rule: skip_covered.induct) (auto simp: Let_def split: if_splits)

lemma skip_covered_sorted: "sorted_wrt (<) ss \<Longrightarrow> sorted_wrt (<) (skip_covered p ss)"
  by (simp add: skip_covered_dropWhile sorted_wrt_dropWhile)

text \<open>Successive pairs start at least seventeen apart, so the length field never overflows.\<close>

lemma pack_loop_count: "sorted_wrt (<) (p # ss) \<Longrightarrow> 17 * length (pack_loop (p # ss)) + unat p \<le> 65552"
proof (induction "length ss" arbitrary: p ss rule: less_induct)
  case less
  have p: "unat p < 65536"
    using unsigned_less [of p] by simp
  show ?case
  proof (cases "skip_covered p ss")
    case (Cons s ss')
    have "length ss' < length ss"
      using skip_covered_length [of p ss] Cons by simp
    have s: "p < s" "s - p > 16"
      using skip_covered_Cons [OF Cons] less.prems by auto
    then have "unat p + 17 \<le> unat s"
      using minus_u16 [OF less_imp_le [OF s(1)]] by (simp add: word_less_nat_alt)
    moreover have "sorted_wrt (<) (s # ss')"
      using less.prems skip_covered_sorted [of ss p] by (simp add: Cons)
    ultimately show ?thesis
      using less.hyps [of ss' s] \<open>length ss' < length ss\<close> Cons by simp
  qed (use p in simp)
qed

lemma PackPairs_count: "length (PackPairs xs) \<le> 3856"
proof (cases "remdups_adj (sort xs)")
  case (Cons p ss)
  then show ?thesis
    using pack_loop_count [of p ss] remdups_adj_strict [OF sorted_sort, of xs] by (auto simp: PackPairs_def)
qed (simp add: PackPairs_def)

section \<open>The wire format\<close>

interpretation nackc: fixed_width_codec 4 enc_pair dec_pair "\<lambda>_. True"
proof
  show "length (enc_pair v) = 4" for v
    by (simp add: enc_pair_def)
  show "dec_pair (enc_pair v @ post) = v" for v post
    by (simp add: enc_pair_def dec_pair_def)
  show "dec_pair p = dec_pair (take 4 p)" if "4 \<le> length p" for p
    using that dec16_take [of p] dec16_take [of "drop 2 p"] dec16_take [of "take 4 p"] dec16_take [of "drop 2 (take 4 p)"]
    by (simp add: dec_pair_def take_drop min_def)
  show "enc_pair (dec_pair p) = p" if "length p = 4" for p
  proof -
    obtain a b c d where "p = [a, b, c, d]"
      using \<open>length p = 4\<close> unfolding list4_conv by blast
    then show ?thesis
      by (simp add: enc_pair_def dec_pair_def enc16_def)
  qed
qed simp

lemma pairs_loop_eq:
  "n \<le> length p \<Longrightarrow> pairs_loop p n off = Ok (map (\<lambda>i. dec_pair (drop (off + 4 * i) p)) [0..<(n - off) div 4])"
proof (induction p n off rule: pairs_loop.induct)
  case (1 p n off)
  show ?case
  proof (cases "off + 4 \<le> n")
    case True
    then have d: "(n - off) div 4 = Suc ((n - (off + 4)) div 4)"
      by (simp add: div_if)
    have r: "map (\<lambda>i. dec_pair (drop (off + 4 * i) p)) [0..<Suc m] =
        dec_pair (drop off p) # map (\<lambda>i. dec_pair (drop (off + 4 + 4 * i) p)) [0..<m]" for m
      by (simp add: map_upt_Suc del: upt_Suc) (simp add: add.assoc add.left_commute)
    have "pairs_loop p n (off + 4) = Ok (map (\<lambda>i. dec_pair (drop (off + 4 + 4 * i) p)) [0..<(n - (off + 4)) div 4])"
      by (rule "1.IH" [OF True _ _ "1.prems"]) (use True "1.prems" in \<open>auto\<close>)
    then show ?thesis
      using True "1.prems" unfolding d r
      by (subst pairs_loop.simps) (simp add: ReadUint16BE_eq dec_pair_def)
  next
    case False
    then show ?thesis
      by (subst pairs_loop.simps) simp
  qed
qed

lemma length_Nack_Build:
  "Nack_Build sender media xs = [] \<or> length (Nack_Build sender media xs) = 12 + 4 * length (PackPairs xs)"
  by (simp add: Nack_Build_def Let_def nackc.length_array)

lemma PackPairs_Nil_iff: "PackPairs xs = [] \<longleftrightarrow> xs = []"
  by (cases "remdups_adj (sort xs)") (auto simp: PackPairs_def dest: arg_cong [of _ _ length])

lemma safe_Nack_Parse: "Nack_Parse p \<noteq> Fault"
  by (auto simp: Nack_Parse_def Let_def rd8_def ReadUint16BE_eq ReadUint32BE_eq pairs_loop_eq)

text \<open>The bytes of a built packet, as a header followed by an array of pairs.\<close>

lemma Nack_Build_bytes:
  assumes "xs \<noteq> []"
  shows "Nack_Build sender media xs =
    [0x81, 0xCD] @ enc16 (of_nat (length (PackPairs xs) + 2)) @ enc32 sender @ enc32 media @
      concat (map enc_pair (PackPairs xs))"
  using assms PackPairs_Nil_iff [of xs]
  by (simp add: Nack_Build_def Let_def RTCP_VERSION_def RTCP_FMT_NACK_def RTCP_PT_RTPFB_def)

lemma pairs_loop_Build:
  assumes "xs \<noteq> []"
  shows "length (Nack_Build sender media xs) = 12 + 4 * length (PackPairs xs)"
    and "pairs_loop (Nack_Build sender media xs @ rest) (12 + 4 * length (PackPairs xs)) 12 = Ok (PackPairs xs)"
proof -
  let ?n = "length (PackPairs xs)"
  let ?p = "Nack_Build sender media xs @ rest"
  note b = Nack_Build_bytes [OF assms, of sender media]
  show len: "length (Nack_Build sender media xs) = 12 + 4 * length (PackPairs xs)"
    by (simp add: b nackc.length_array)
  have pair: "dec_pair (drop (12 + 4 * i) ?p) = PackPairs xs ! i" if "i < ?n" for i
  proof -
    let ?h = "[0x81, 0xCD] @ enc16 (of_nat (?n + 2)) @ enc32 sender @ enc32 media"
    have "drop (12 + 4 * i) ?p = drop (4 * i) (concat (map enc_pair (PackPairs xs)) @ rest)"
      by (rule drop_prefix_add [of _ ?h]) (simp_all add: b)
    then show ?thesis
      by (simp only:) (rule nackc.array_nth [OF that], simp)
  qed
  have "pairs_loop ?p (12 + 4 * ?n) 12 = Ok (map (\<lambda>i. dec_pair (drop (12 + 4 * i) ?p)) [0..<?n])"
    using pairs_loop_eq [of "12 + 4 * ?n" ?p 12] len by simp
  also have "map (\<lambda>i. dec_pair (drop (12 + 4 * i) ?p)) [0..<?n] = PackPairs xs"
    by (rule nth_equalityI) (simp_all add: pair del: drop_append)
  finally show "pairs_loop ?p (12 + 4 * ?n) 12 = Ok (PackPairs xs)" .
qed

lemma Nack_Parse_Build:
  assumes "xs \<noteq> []"
  shows "Nack_Parse (Nack_Build sender media xs @ rest) = Ok (sender, media, sorted_list_of_set (set xs))"
proof -
  let ?n = "length (PackPairs xs)"
  let ?p = "Nack_Build sender media xs @ rest"
  note b = Nack_Build_bytes [OF assms, of sender media]
  note l = pairs_loop_Build [OF assms, of sender media]
  have words: "unat (of_nat (?n + 2) :: u16) = ?n + 2"
    by (rule unat_of_nat16) (use PackPairs_count [of xs] in simp)
  have reads: "dec16 (drop 2 ?p) = of_nat (?n + 2)" "dec32 (drop 4 ?p) = sender" "dec32 (drop 8 ?p) = media"
    "?p ! 0 = 0x81" "?p ! 1 = 0xCD"
    by (simp_all add: b)
  have size: "(?n + 2 + 1) * 4 = 12 + 4 * ?n"
    by simp
  show ?thesis
    unfolding Nack_Parse_def rd8_def ReadUint16BE_eq ReadUint32BE_eq Let_def reads words size l(2)
    using l(1) by (simp add: RTCP_VERSION_def RTCP_FMT_NACK_def RTCP_PT_RTPFB_def ExpandPairs_PackPairs)
qed

section \<open>Properties\<close>

text \<open>
  Packing lost sequence numbers into PID/BLP pairs and expanding them again yields exactly the
  lost numbers, each once, in ascending order, for every list of numbers.
\<close>

theorem NackPairs_roundtrip: "ExpandPairs (PackPairs xs) = sorted_list_of_set (set xs)"
  by (rule ExpandPairs_PackPairs)

text \<open>
  C13: parsing a NACK packet that was built for a non-empty list of lost numbers, whatever bytes follow
  it, returns the sender and media sources and exactly the lost numbers in ascending order; the
  length field never overflows, since at most 3856 pairs are needed.
\<close>

theorem Nack_Build_Parse_roundtrip:
  assumes "xs \<noteq> []"
  shows "Nack_Parse (Nack_Build sender media xs @ rest) = Ok (sender, media, sorted_list_of_set (set xs))"
  by (rule Nack_Parse_Build [OF assms])

theorem Nack_Build_Parse_roundtrip_witness:
  "Nack_Parse (Nack_Build 1 2 [65535, 3, 65535, 0, 19] @ []) = Ok (1, 2, sorted_list_of_set (set [65535, 3, 65535, 0, 19]))"
  by (rule Nack_Build_Parse_roundtrip) simp

end
