(* ===== verification/Rtcp.thy ===== *)
theory Rtcp
  imports Rtcp_Nack
begin

text \<open>
  \<open>src/protocol/Rtcp/RtcpHealper.cpp\<close>, \<open>RtcpFeedback.cpp\<close>, \<open>RtcpContext.cpp\<close> and \<open>RtcpReciver.cpp\<close>: the
  common header, the packets the server builds (receiver report, PLI, NACK), the inspection of a
  compound packet for routing, and the receiver that validates a compound packet and notifies its
  observer.  Observer callbacks are the events of the model.
\<close>

section \<open>Common header\<close>

record RtcpHeader =
  h_version :: u8
  h_padding :: bool
  count_or_fmt :: u8
  packet_type :: u8
  words_minus_one :: u16
  packet_size :: nat
  content_size :: nat

definition RtcpHeader_Parse :: "bytes \<Rightarrow> RtcpHeader outcome" where
  "RtcpHeader_Parse p =
     (if length p < 4 then Reject
      else rd8 p 0 (\<lambda>b0. rd8 p 1 (\<lambda>b1. rd8 p 2 (\<lambda>b2. rd8 p 3 (\<lambda>b3.
        let h = \<lparr>h_version = drop_bit 6 b0, h_padding = (b0 AND 0x20 \<noteq> 0), count_or_fmt = b0 AND 0x1F,
                 packet_type = b1, words_minus_one = be16 b2 b3,
                 packet_size = (unat (be16 b2 b3) + 1) * 4, content_size = (unat (be16 b2 b3) + 1) * 4\<rparr>
        in if h_version h \<noteq> 2 then Reject
           else if packet_size h < 4 then Reject
           else if packet_size h > length p then Reject
           else if h_padding h
           then rd8 p (packet_size h - 1) (\<lambda>padding_size.
                  if padding_size = 0 then Reject
                  else if unat padding_size > packet_size h then Reject
                  else let h = h\<lparr>content_size := packet_size h - unat padding_size\<rparr>
                       in if content_size h < 4 then Reject else Ok h)
           else Ok h)))))"

lemma RtcpHeader_Parse_Ok:
  "RtcpHeader_Parse p = Ok h \<Longrightarrow> 4 \<le> packet_size h \<and> packet_size h \<le> length p \<and>
     4 \<le> content_size h \<and> content_size h \<le> packet_size h"
  by (auto simp: RtcpHeader_Parse_def rd8_def Let_def split: if_splits)

lemma RtcpHeader_Parse_safe [safe_intro]: "RtcpHeader_Parse p \<noteq> Fault"
  by (auto simp: RtcpHeader_Parse_def rd8_def Let_def)

section \<open>Packets the server builds\<close>

definition BuildPli :: "u32 \<Rightarrow> u32 \<Rightarrow> bytes" where
  "BuildPli sender media = [push_bit 6 2 OR 1, 206] @ enc16 2 @ enc32 sender @ enc32 media"

definition ParsePli :: "bytes \<Rightarrow> (u32 \<times> u32) outcome" where
  "ParsePli p =
     (if length p < 12 then Reject
      else rd8 p 0 (\<lambda>b0. if drop_bit 6 b0 \<noteq> 2 \<or> b0 AND 0x1F \<noteq> 1 then Reject
        else rd8 p 1 (\<lambda>b1. if b1 \<noteq> 206 then Reject
          else ReadUint16BE p 2 (\<lambda>words.
            let size = (unat words + 1) * 4 in
            if size \<noteq> 12 \<or> size > length p then Reject
            else ReadUint32BE p 4 (\<lambda>sender. ReadUint32BE p 8 (\<lambda>media. Ok (sender, media)))))))"

definition GenerateRtcp :: "u32 \<Rightarrow> bytes" where
  "GenerateRtcp media = [push_bit 6 2, 201] @ enc16 1 @ enc32 media"

text \<open>\<open>int32_t\<close> to 24-bit two's complement: clamp, reinterpret, keep the low three bytes.\<close>

definition loss24 :: "int \<Rightarrow> u32" where
  "loss24 lost = word_of_int (max (- 0x800000) (min lost 0x7FFFFF)) AND 0x00FFFFFF"

definition BuildReceiverReport :: "u32 \<Rightarrow> RrBlock \<Rightarrow> bytes" where
  "BuildReceiverReport sender b =
     (let l = loss24 (cumulative_lost b) in
      [push_bit 6 2 OR 1, 201] @ enc16 7 @ enc32 sender @ enc32 (rr_ssrc b) @ [fraction_lost b] @
      [ucast (drop_bit 16 l), ucast (drop_bit 8 l), ucast l] @
      enc32 (extended_highest_seq b) @ enc32 (rr_jitter b) @ enc32 (lsr b) @ enc32 (dlsr b))"

section \<open>Inspection for routing\<close>

text \<open>
  The SSRCs of one sub-packet.  As in the source, the sender field of RTCP packet types 200, 201, 205
  and 206 is read first, then the media SSRC is chosen by type; reads go to the packet bytes.
\<close>

definition inspect_sender :: "bytes \<Rightarrow> RtcpHeader \<Rightarrow> RtcpPacketInfo \<Rightarrow> RtcpPacketInfo outcome" where
  "inspect_sender packet h info =
     (let pt = packet_type h in
      if (pt = 200 \<or> pt = 201 \<or> pt = 205 \<or> pt = 206) \<and> content_size h \<ge> 8
      then ReadUint32BE packet 4 (\<lambda>s. Ok (info\<lparr>info_sender_ssrc := s, has_sender_ssrc := True\<rparr>))
      else Ok info)"

definition inspect_media :: "bytes \<Rightarrow> RtcpHeader \<Rightarrow> RtcpPacketInfo \<Rightarrow> RtcpPacketInfo outcome" where
  "inspect_media packet h info =
     (let pt = packet_type h; fmt = count_or_fmt h; n = content_size h in
      if (pt = 205 \<or> pt = 206) \<and> n \<ge> 12
      then ReadUint32BE packet 8 (\<lambda>m.
             let info = info\<lparr>info_media_ssrc := m, has_media_ssrc := True\<rparr> in
             if pt = 206 \<and> fmt = 4 \<and> m = 0 \<and> n \<ge> 20
             then ReadUint32BE packet 12 (\<lambda>m'. Ok (info\<lparr>info_media_ssrc := m'\<rparr>))
             else Ok info)
      else if pt = 201 \<and> fmt > 0 \<and> n \<ge> 8 + 24
      then ReadUint32BE packet 8 (\<lambda>m. Ok (info\<lparr>info_media_ssrc := m, has_media_ssrc := True\<rparr>))
      else if pt = 200 \<and> fmt > 0 \<and> n \<ge> 28 + 24
      then ReadUint32BE packet 28 (\<lambda>m. Ok (info\<lparr>info_media_ssrc := m, has_media_ssrc := True\<rparr>))
      else if pt = 200 \<and> n \<ge> 8
      then ReadUint32BE packet 4 (\<lambda>m. Ok (info\<lparr>info_media_ssrc := m, has_media_ssrc := True\<rparr>))
      else if pt = 203 \<and> fmt > 0 \<and> n \<ge> 8
      then ReadUint32BE packet 4 (\<lambda>s. Ok (info\<lparr>info_sender_ssrc := s, info_media_ssrc := s,
             has_sender_ssrc := True, has_media_ssrc := True\<rparr>))
      else Ok info)"

function inspect_loop :: "bytes \<Rightarrow> nat \<Rightarrow> RtcpPacketInfo \<Rightarrow> bool \<Rightarrow> (RtcpPacketInfo \<times> nat \<times> bool) outcome" where
  "inspect_loop p off info parsed_any =
     (if off < length p
      then bind_outcome (RtcpHeader_Parse (drop off p)) (\<lambda>h.
        let info = (if parsed_any then info
                    else info\<lparr>first_packet_type := packet_type h, first_count_or_fmt := count_or_fmt h\<rparr>)
        in bind_outcome (inspect_sender (drop off p) h info) (\<lambda>info.
           bind_outcome (inspect_media (drop off p) h info) (\<lambda>info.
             inspect_loop p (off + packet_size h) info True)))
      else Ok (info, off, parsed_any))"
  by pat_completeness auto

termination
  by (relation "measure (\<lambda>(p, off, _, _). length p - off)") (auto dest: RtcpHeader_Parse_Ok)

declare inspect_loop.simps [simp del]

definition InspectRtcpPacket :: "bytes \<Rightarrow> RtcpPacketInfo outcome" where
  "InspectRtcpPacket p =
     (if length p < 4 then Reject
      else bind_outcome (inspect_loop p 0 RtcpPacketInfo_init False) (\<lambda>(info, off, parsed_any).
        if \<not> parsed_any \<or> off \<noteq> length p then Reject else Ok (info\<lparr>info_valid := True\<rparr>)))"

section \<open>Transport-wide feedback\<close>

text \<open>Push symbols while fewer than \<open>count\<close> statuses are there: the three \<open>for\<close> loops over one chunk.\<close>

fun push_while :: "nat \<Rightarrow> u8 list \<Rightarrow> u8 list \<Rightarrow> u8 list" where
  "push_while count sts [] = sts"
| "push_while count sts (x # xs) = (if length sts < count then push_while count (sts @ [x]) xs else sts)"

definition chunk_symbols :: "u16 \<Rightarrow> u8 list" where
  "chunk_symbols chunk =
     (if chunk AND 0x8000 = 0
      then replicate (unat (chunk AND 0x1FFF)) (ucast (drop_bit 13 chunk AND 0x03))
      else if chunk AND 0x4000 \<noteq> 0
      then map (\<lambda>shift. ucast (drop_bit shift chunk AND 0x03)) [12, 10, 8, 6, 4, 2, 0]
      else map (\<lambda>shift. ucast (drop_bit shift chunk AND 0x01)) [13, 12, 11, 10, 9, 8, 7, 6, 5, 4, 3, 2, 1, 0])"

function chunk_loop :: "bytes \<Rightarrow> nat \<Rightarrow> nat \<Rightarrow> u8 list \<Rightarrow> (u8 list \<times> nat) outcome" where
  "chunk_loop p count off sts =
     (if length sts < count \<and> off + 2 \<le> length p
      then ReadUint16BE p off (\<lambda>chunk. chunk_loop p count (off + 2) (push_while count sts (chunk_symbols chunk)))
      else Ok (sts, off))"
  by pat_completeness auto

termination
  by (relation "measure (\<lambda>(p, _, off, _). length p - off)") auto

declare chunk_loop.simps [simp del]

text \<open>
  The loop over the statuses: \<open>i\<close> is the index, \<open>off\<close> the position of the next delta, \<open>acc\<close> the running
  \<open>receive_delta_us\<close>.
\<close>

definition received_packet :: "u16 \<Rightarrow> int \<Rightarrow> TransportFeedbackPacket" where
  "received_packet seq t = \<lparr>transport_sequence = seq, received = True, receive_time_us = t,
     receive_time_ms = (if t > 0 then nat t div 1000 else 0)\<rparr>"

fun delta_loop :: "bytes \<Rightarrow> u16 \<Rightarrow> nat \<Rightarrow> u8 list \<Rightarrow> nat \<Rightarrow> nat \<Rightarrow> int \<Rightarrow> TransportFeedbackPacket list outcome" where
  "delta_loop p base ref_ms [] i off acc = Ok []"
| "delta_loop p base ref_ms (status # sts) i off acc =
     (let seq = base + of_nat i in
      if status = 0
      then bind_outcome (delta_loop p base ref_ms sts (i + 1) off acc) (\<lambda>ps.
             Ok (\<lparr>transport_sequence = seq, received = False, receive_time_us = 0, receive_time_ms = 0\<rparr> # ps))
      else if status = 1
      then (if off + 1 > length p then Reject
            else rd8 p off (\<lambda>d.
              let acc = acc + int (unat d) * 250 in
              bind_outcome (delta_loop p base ref_ms sts (i + 1) (off + 1) acc) (\<lambda>ps.
                Ok (received_packet seq (int ref_ms * 1000 + acc) # ps))))
      else if status = 2
      then (if off + 2 > length p then Reject
            else ReadUint16BE p off (\<lambda>d.
              let acc = acc + sint d * 250 in
              bind_outcome (delta_loop p base ref_ms sts (i + 1) (off + 2) acc) (\<lambda>ps.
                Ok (received_packet seq (int ref_ms * 1000 + acc) # ps))))
      else Reject)"

definition ParseTransportFeedback :: "bytes \<Rightarrow> TransportFeedbackReport outcome" where
  "ParseTransportFeedback p =
     (if length p < 20 then Reject
      else ReadUint32BE p 4 (\<lambda>sender. ReadUint32BE p 8 (\<lambda>media.
        ReadUint16BE p 12 (\<lambda>base. ReadUint16BE p 14 (\<lambda>count. ReadUint24BE p 16 (\<lambda>ref. rd8 p 19 (\<lambda>fb.
          let ref_ms = unat ref * 64 in
          bind_outcome (chunk_loop p (unat count) 20 []) (\<lambda>(statuses, off).
            if length statuses < unat count then Reject
            else bind_outcome (delta_loop p base ref_ms statuses 0 off 0) (\<lambda>packets.
              Ok \<lparr>tf_sender_ssrc = sender, tf_media_ssrc = media, base_sequence = base,
                  packet_status_count = count, tf_packet_count = fb, reference_time_ms = ref_ms,
                  tf_packets = packets\<rparr>)))))))))"

section \<open>The receiver\<close>

datatype rtcp_event =
    OnReceiverReport u32 RrBlock
  | OnSenderReport u32 u64 u32 u32 u32
  | OnNack u32 u32 "u16 list"
  | OnPli u32 u32
  | OnFir u32 u32 u8
  | OnTransportFeedback TransportFeedbackReport
  | OnBye u32

text \<open>One 24-byte report block at \<open>off\<close>; the 24-bit loss is sign-extended by setting the top byte.\<close>

definition read_block :: "bytes \<Rightarrow> nat \<Rightarrow> RrBlock outcome" where
  "read_block p off =
     ReadUint32BE p off (\<lambda>ssrc. rd8 p (off + 4) (\<lambda>frac. ReadUint24BE p (off + 5) (\<lambda>l.
       ReadUint32BE p (off + 8) (\<lambda>hi. ReadUint32BE p (off + 12) (\<lambda>jit. ReadUint32BE p (off + 16) (\<lambda>sr.
         ReadUint32BE p (off + 20) (\<lambda>delay.
           Ok \<lparr>rr_ssrc = ssrc, fraction_lost = frac, cumulative_lost = int24_or l,
               extended_highest_seq = hi, rr_jitter = jit, lsr = sr, dlsr = delay\<rparr>)))))))"

text \<open>The loops over at most \<open>fmt\<close> report blocks, BYE sources, and over all FIR entries.\<close>

fun block_loop :: "bytes \<Rightarrow> u32 \<Rightarrow> nat \<Rightarrow> nat \<Rightarrow> rtcp_event list outcome" where
  "block_loop p sender 0 off = Ok []"
| "block_loop p sender (Suc n) off =
     (if off + 24 \<le> length p
      then bind_outcome (read_block p off) (\<lambda>b.
             bind_outcome (block_loop p sender n (off + 24)) (\<lambda>es. Ok (OnReceiverReport sender b # es)))
      else Ok [])"

fun bye_loop :: "bytes \<Rightarrow> nat \<Rightarrow> nat \<Rightarrow> rtcp_event list outcome" where
  "bye_loop p 0 off = Ok []"
| "bye_loop p (Suc n) off =
     (if off + 4 \<le> length p
      then ReadUint32BE p off (\<lambda>s. bind_outcome (bye_loop p n (off + 4)) (\<lambda>es. Ok (OnBye s # es)))
      else Ok [])"

function fir_loop :: "bytes \<Rightarrow> u32 \<Rightarrow> u32 \<Rightarrow> nat \<Rightarrow> rtcp_event list outcome" where
  "fir_loop p sender media off =
     (if off + 8 \<le> length p
      then ReadUint32BE p off (\<lambda>m. rd8 p (off + 4) (\<lambda>seq_nr.
             bind_outcome (fir_loop p sender media (off + 8)) (\<lambda>es.
               Ok (OnFir sender (if m \<noteq> 0 then m else media) seq_nr # es))))
      else Ok [])"
  by pat_completeness auto

termination
  by (relation "measure (\<lambda>(p, _, _, off). length p - off)") auto

declare fir_loop.simps [simp del]

text \<open>\<open>HandleSingleRtcpPacket\<close> on the content of one sub-packet; \<open>observer\<close> says whether one is bound.\<close>

definition handle_sr :: "bytes \<Rightarrow> u8 \<Rightarrow> rtcp_event list outcome" where
  "handle_sr p fmt =
     (if length p \<ge> 28
      then ReadUint32BE p 4 (\<lambda>sender. ReadUint64BE p 8 (\<lambda>ntp. ReadUint32BE p 16 (\<lambda>rtp_ts.
        ReadUint32BE p 20 (\<lambda>packets. ReadUint32BE p 24 (\<lambda>octets.
          bind_outcome (block_loop p sender (unat fmt) 28) (\<lambda>es.
            Ok (OnSenderReport sender ntp rtp_ts packets octets # es)))))))
      else Ok [])"

definition handle_rr :: "bytes \<Rightarrow> u8 \<Rightarrow> rtcp_event list outcome" where
  "handle_rr p fmt =
     (if length p \<ge> 8 then ReadUint32BE p 4 (\<lambda>sender. block_loop p sender (unat fmt) 8) else Ok [])"

definition handle_rtpfb :: "bytes \<Rightarrow> u8 \<Rightarrow> rtcp_event list outcome" where
  "handle_rtpfb p fmt =
     (if length p \<ge> 12 \<and> fmt = 1
      then ReadUint32BE p 4 (\<lambda>sender. ReadUint32BE p 8 (\<lambda>media.
        bind_outcome (pairs_loop p (length p) 12) (\<lambda>pairs.
          let seqs = concat (map ExpandNackPair pairs)
          in Ok (if seqs \<noteq> [] then [OnNack sender media seqs] else []))))
      else if length p \<ge> 20 \<and> fmt = 15
      then (case ParseTransportFeedback p of
              Ok report \<Rightarrow> Ok [OnTransportFeedback report]
            | Reject \<Rightarrow> Ok []
            | Fault \<Rightarrow> Fault)
      else Ok [])"

definition handle_psfb :: "bytes \<Rightarrow> u8 \<Rightarrow> rtcp_event list outcome" where
  "handle_psfb p fmt =
     (if length p \<ge> 12
      then ReadUint32BE p 4 (\<lambda>sender. ReadUint32BE p 8 (\<lambda>media.
        if fmt = 1 then Ok [OnPli sender media]
        else if fmt = 4 then fir_loop p sender media 12
        else Ok []))
      else Ok [])"

definition HandleSingleRtcpPacket :: "bool \<Rightarrow> bytes \<Rightarrow> u8 \<Rightarrow> u8 \<Rightarrow> rtcp_event list outcome" where
  "HandleSingleRtcpPacket observer p fmt pt =
     (if \<not> observer \<or> length p < 4 then Ok []
      else if pt = 200 then handle_sr p fmt
      else if pt = 201 then handle_rr p fmt
      else if pt = 202 then Ok []
      else if pt = 203 then (if length p \<ge> 4 then bye_loop p (unat fmt) 4 else Ok [])
      else if pt = 205 then handle_rtpfb p fmt
      else if pt = 206 then handle_psfb p fmt
      else Ok [])"

record PendingPacket =
  pk_header :: RtcpHeader
  pk_content :: bytes
  transport_feedback :: "TransportFeedbackReport option"

text \<open>The validation pass of \<open>OnRtcpPacket\<close>: parse every sub-packet before any event is published.\<close>

function pending_loop :: "bytes \<Rightarrow> nat \<Rightarrow> (PendingPacket list \<times> nat) outcome" where
  "pending_loop p off =
     (if off + 4 \<le> length p
      then bind_outcome (RtcpHeader_Parse (drop off p)) (\<lambda>h.
        let content = slice p off (content_size h) in
        bind_outcome (if packet_type h = 205 \<and> count_or_fmt h = 15
                      then bind_outcome (ParseTransportFeedback content) (\<lambda>r. Ok (Some r))
                      else Ok None) (\<lambda>tf.
          bind_outcome (pending_loop p (off + packet_size h)) (\<lambda>(rest, off').
            Ok (\<lparr>pk_header = h, pk_content = content, transport_feedback = tf\<rparr> # rest, off'))))
      else Ok ([], off))"
  by pat_completeness auto

termination
  by (relation "measure (\<lambda>(p, off). length p - off)") (auto dest: RtcpHeader_Parse_Ok)

declare pending_loop.simps [simp del]

definition publish :: "bool \<Rightarrow> PendingPacket \<Rightarrow> rtcp_event list outcome" where
  "publish observer pk =
     (case transport_feedback pk of
        Some r \<Rightarrow> Ok (if observer then [OnTransportFeedback r] else [])
      | None \<Rightarrow> HandleSingleRtcpPacket observer (pk_content pk) (count_or_fmt (pk_header pk))
                  (packet_type (pk_header pk)))"

fun publish_all :: "bool \<Rightarrow> PendingPacket list \<Rightarrow> rtcp_event list outcome" where
  "publish_all observer [] = Ok []"
| "publish_all observer (pk # pks) =
     bind_outcome (publish observer pk) (\<lambda>es. bind_outcome (publish_all observer pks) (\<lambda>es'. Ok (es @ es')))"

definition OnRtcpPacket :: "bool \<Rightarrow> bytes \<Rightarrow> rtcp_event list outcome" where
  "OnRtcpPacket observer p =
     (if length p < 4 then Reject
      else bind_outcome (pending_loop p 0) (\<lambda>(packets, off).
        if packets = [] \<or> off \<noteq> length p then Reject else publish_all observer packets))"

section \<open>Memory safety\<close>

lemma inspect_parts_safe:
  "content_size h \<le> length p \<Longrightarrow> inspect_sender p h info \<noteq> Fault"
  "content_size h \<le> length p \<Longrightarrow> inspect_media p h info \<noteq> Fault"
  by (auto simp: inspect_sender_def inspect_media_def Let_def ReadUint32BE_eq)

lemma inspect_loop_safe: "inspect_loop p off info any \<noteq> Fault"
proof (induction p off info any rule: inspect_loop.induct)
  case (1 p off info any)
  have c: "content_size h \<le> length (drop off p)" if "RtcpHeader_Parse (drop off p) = Ok h" for h
    using RtcpHeader_Parse_Ok [OF that] by simp
  show ?case
    using 1 RtcpHeader_Parse_safe [of "drop off p"] inspect_parts_safe [OF c]
    by (subst inspect_loop.simps) (auto simp: Let_def bind_Fault_iff)
qed

lemma chunk_loop_safe: "chunk_loop p count off sts \<noteq> Fault"
proof (induction p count off sts rule: chunk_loop.induct)
  case (1 p count off sts)
  then show ?case
    by (subst chunk_loop.simps) (simp add: ReadUint16BE_eq)
qed

lemma delta_loop_safe: "delta_loop p base ref sts i off acc \<noteq> Fault"
  by (induction p base ref sts i off acc rule: delta_loop.induct)
    (auto simp: Let_def rd8_def ReadUint16BE_eq bind_Fault_iff)

lemma ParseTransportFeedback_safe: "ParseTransportFeedback p \<noteq> Fault"
  by (auto simp: ParseTransportFeedback_def Let_def rd8_def rd_simps bind_Fault_iff chunk_loop_safe delta_loop_safe)

lemma read_block_safe: "off + 24 \<le> length p \<Longrightarrow> read_block p off \<noteq> Fault"
  by (simp add: read_block_def rd8_def rd_simps)

lemma block_loop_safe: "block_loop p sender n off \<noteq> Fault"
  by (induction p sender n off rule: block_loop.induct) (auto simp: bind_Fault_iff read_block_safe)

lemma bye_loop_safe: "bye_loop p n off \<noteq> Fault"
  by (induction p n off rule: bye_loop.induct) (auto simp: rd_simps bind_Fault_iff)

lemma fir_loop_safe: "fir_loop p sender media off \<noteq> Fault"
proof (induction p sender media off rule: fir_loop.induct)
  case (1 p sender media off)
  then show ?case
    by (subst fir_loop.simps) (auto simp: rd8_def ReadUint32BE_eq bind_Fault_iff)
qed

lemma HandleSingleRtcpPacket_safe: "HandleSingleRtcpPacket observer p fmt pt \<noteq> Fault"
  using ParseTransportFeedback_safe [of p]
  by (auto simp: HandleSingleRtcpPacket_def handle_sr_def handle_rr_def handle_rtpfb_def handle_psfb_def
      rd_simps Let_def pairs_loop_eq block_loop_safe bye_loop_safe fir_loop_safe bind_Fault_iff
      split: outcome.splits)

lemma pending_loop_safe: "pending_loop p off \<noteq> Fault"
proof (induction p off rule: pending_loop.induct)
  case (1 p off)
  then show ?case
    using RtcpHeader_Parse_safe [of "drop off p"]
    by (subst pending_loop.simps) (auto simp: Let_def bind_Fault_iff ParseTransportFeedback_safe)
qed

lemma publish_all_safe: "publish_all observer pks \<noteq> Fault"
  by (induction pks) (auto simp: bind_Fault_iff publish_def HandleSingleRtcpPacket_safe split: option.splits)

lemma OnRtcpPacket_safe: "OnRtcpPacket observer p \<noteq> Fault"
  by (auto simp: OnRtcpPacket_def bind_Fault_iff pending_loop_safe publish_all_safe)

lemma InspectRtcpPacket_safe: "InspectRtcpPacket p \<noteq> Fault"
  by (auto simp: InspectRtcpPacket_def bind_Fault_iff inspect_loop_safe)

lemma ParsePli_safe: "ParsePli p \<noteq> Fault"
  by (auto simp: ParsePli_def Let_def rd8_def rd_simps)

section \<open>Compound packets\<close>

definition header_of :: "bytes \<Rightarrow> nat \<Rightarrow> nat \<Rightarrow> RtcpHeader" where
  "header_of p n c = \<lparr>h_version = drop_bit 6 (p ! 0), h_padding = (p ! 0 AND 0x20 \<noteq> 0),
     count_or_fmt = p ! 0 AND 0x1F, packet_type = p ! 1, words_minus_one = be16 (p ! 2) (p ! 3),
     packet_size = n, content_size = c\<rparr>"

lemma RtcpHeader_Parse_eq:
  assumes "4 \<le> length p" and n: "n = (unat (be16 (p ! 2) (p ! 3)) + 1) * 4"
  shows "RtcpHeader_Parse p =
    (if drop_bit 6 (p ! 0) \<noteq> 2 \<or> n > length p then Reject
     else if p ! 0 AND 0x20 \<noteq> 0
     then if p ! (n - 1) = 0 \<or> n < unat (p ! (n - 1)) + 4 then Reject
          else Ok (header_of p n (n - unat (p ! (n - 1))))
     else Ok (header_of p n n))"
proof -
  have "0 < length p" "1 < length p" "2 < length p" "3 < length p" "\<not> n < 4"
    using assms(1) by (linarith, linarith, linarith, linarith, simp add: n)
  then show ?thesis
    using assms(1)
    unfolding RtcpHeader_Parse_def rd8_def Let_def header_of_def n [symmetric] RtcpHeader.simps by auto
qed

lemma RtcpHeader_Parse_append:
  assumes "RtcpHeader_Parse p = Ok h"
  shows "RtcpHeader_Parse (p @ q) = Ok h"
proof -
  define n where "n = (unat (be16 (p ! 2) (p ! 3)) + 1) * 4"
  have l: "4 \<le> length p"
    using assms by (auto simp: RtcpHeader_Parse_def split: if_splits)
  have p: "(p @ q) ! i = p ! i" if "i < length p" for i
    using that by (simp add: nth_append)
  have p4: "(p @ q) ! 0 = p ! 0" "(p @ q) ! 1 = p ! 1" "(p @ q) ! 2 = p ! 2" "(p @ q) ! 3 = p ! 3"
    using l by (intro p; linarith)+
  have e: "n = (unat (be16 ((p @ q) ! 2) ((p @ q) ! 3)) + 1) * 4"
    by (simp only: p4 n_def)
  note ep = RtcpHeader_Parse_eq [OF l n_def]
  have n: "n \<le> length p"
    using assms unfolding ep by (auto split: if_splits)
  then have "(p @ q) ! (n - 1) = p ! (n - 1)"
    using l by (intro p) linarith
  then have "RtcpHeader_Parse (p @ q) = RtcpHeader_Parse p"
    using RtcpHeader_Parse_eq [OF _ e] l n unfolding ep header_of_def p4 by simp
  then show ?thesis
    using assms by simp
qed

text \<open>One sub-packet of the validation pass, and the pass as its iteration.\<close>

definition pending_one :: "bytes \<Rightarrow> PendingPacket outcome" where
  "pending_one q = bind_outcome (RtcpHeader_Parse q) (\<lambda>h.
     bind_outcome (if packet_type h = 205 \<and> count_or_fmt h = 15
                   then bind_outcome (ParseTransportFeedback (take (content_size h) q)) (\<lambda>r. Ok (Some r))
                   else Ok None) (\<lambda>tf.
       Ok \<lparr>pk_header = h, pk_content = take (content_size h) q, transport_feedback = tf\<rparr>))"

lemma pending_loop_step:
  "off + 4 \<le> length p \<Longrightarrow> pending_loop p off =
     bind_outcome (pending_one (drop off p)) (\<lambda>pk.
       bind_outcome (pending_loop p (off + packet_size (pk_header pk))) (\<lambda>(rest, off'). Ok (pk # rest, off')))"
  by (subst pending_loop.simps) (simp add: pending_one_def Let_def slice_def bind_assoc)

lemma pending_loop_end: "\<not> off + 4 \<le> length p \<Longrightarrow> pending_loop p off = Ok ([], off)"
  by (subst pending_loop.simps) simp

lemma pending_one_Ok:
  "pending_one q = Ok pk \<Longrightarrow> RtcpHeader_Parse q = Ok (pk_header pk)"
  by (auto simp: pending_one_def bind_outcome_Ok_iff split: if_splits)

lemma pending_one_append:
  assumes "pending_one q = Ok pk"
  shows "pending_one (q @ r) = Ok pk"
proof -
  have h: "RtcpHeader_Parse q = Ok (pk_header pk)"
    by (rule pending_one_Ok [OF assms])
  have "content_size (pk_header pk) \<le> length q"
    using RtcpHeader_Parse_Ok [OF h] by simp
  then show ?thesis
    using assms h RtcpHeader_Parse_append [OF h, of r] by (auto simp: pending_one_def split: if_splits)
qed

lemma pending_loop_head:
  "pending_loop a off = Ok (pa, length a) \<Longrightarrow> off \<le> length a \<Longrightarrow>
     pending_loop (a @ b) off =
       bind_outcome (pending_loop (a @ b) (length a)) (\<lambda>(rest, off'). Ok (pa @ rest, off'))"
proof (induction "length a - off" arbitrary: off pa rule: less_induct)
  case less
  show ?case
  proof (cases "off + 4 \<le> length a")
    case False
    then have "pa = []" "off = length a"
      using less.prems(1) by (simp_all add: pending_loop_end)
    then show ?thesis
      by (cases "pending_loop (a @ b) (length a)") auto
  next
    case True
    from less.prems(1) obtain pk rest where pk: "pending_one (drop off a) = Ok pk"
      and rest: "pending_loop a (off + packet_size (pk_header pk)) = Ok (rest, length a)" and pa: "pa = pk # rest"
      unfolding pending_loop_step [OF True] by (auto simp: bind_outcome_Ok_iff)
    have sz: "4 \<le> packet_size (pk_header pk)" "packet_size (pk_header pk) \<le> length a - off"
      using RtcpHeader_Parse_Ok [OF pending_one_Ok [OF pk]] by auto
    have ih: "pending_loop (a @ b) (off + packet_size (pk_header pk)) =
        bind_outcome (pending_loop (a @ b) (length a)) (\<lambda>(r, off'). Ok (rest @ r, off'))"
      using sz True by (intro less.hyps rest) auto
    have "off + 4 \<le> length (a @ b)"
      using True by simp
    note st = pending_loop_step [OF this]
    have "pending_one (drop off (a @ b)) = Ok pk"
      using pending_one_append [OF pk, of b] True by simp
    then show ?thesis
      unfolding st pa using ih by (cases "pending_loop (a @ b) (length a)") auto
  qed
qed

lemma pending_loop_shift:
  "pending_loop (a @ b) (length a + off) =
     bind_outcome (pending_loop b off) (\<lambda>(r, off'). Ok (r, length a + off'))"
proof (induction "length b - off" arbitrary: off rule: less_induct)
  case less
  show ?case
  proof (cases "off + 4 \<le> length b")
    case True
    then have "length a + off + 4 \<le> length (a @ b)"
      by simp
    note st = pending_loop_step [OF this] pending_loop_step [OF True]
    show ?thesis
    proof (cases "pending_one (drop off b)")
      case (Ok pk)
      have "4 \<le> packet_size (pk_header pk)"
        using RtcpHeader_Parse_Ok [OF pending_one_Ok [OF Ok]] by auto
      then have "pending_loop (a @ b) (length a + (off + packet_size (pk_header pk))) =
          bind_outcome (pending_loop b (off + packet_size (pk_header pk))) (\<lambda>(r, off'). Ok (r, length a + off'))"
        using True by (intro less.hyps) auto
      then show ?thesis
        unfolding st using Ok
        by (cases "pending_loop b (off + packet_size (pk_header pk))") (auto simp: add.assoc)
    qed (simp_all add: st)
  qed (simp add: pending_loop_end)
qed

lemma publish_all_append:
  "publish_all obs xs = Ok ex \<Longrightarrow> publish_all obs ys = Ok ey \<Longrightarrow> publish_all obs (xs @ ys) = Ok (ex @ ey)"
  by (induction xs arbitrary: ex) (auto simp: bind_outcome_Ok_iff)

lemma OnRtcpPacket_Ok:
  assumes "OnRtcpPacket obs p = Ok es"
  obtains pks where "pending_loop p 0 = Ok (pks, length p)" "pks \<noteq> []" "publish_all obs pks = Ok es" "4 \<le> length p"
  using assms by (auto simp: OnRtcpPacket_def bind_outcome_Ok_iff split: if_splits)

lemma OnRtcpPacket_append:
  assumes "OnRtcpPacket obs a = Ok ea" "OnRtcpPacket obs b = Ok eb"
  shows "OnRtcpPacket obs (a @ b) = Ok (ea @ eb)"
proof -
  obtain pa where a: "pending_loop a 0 = Ok (pa, length a)" "pa \<noteq> []" "publish_all obs pa = Ok ea" "4 \<le> length a"
    by (rule OnRtcpPacket_Ok [OF assms(1)])
  obtain pb where b: "pending_loop b 0 = Ok (pb, length b)" "pb \<noteq> []" "publish_all obs pb = Ok eb" "4 \<le> length b"
    by (rule OnRtcpPacket_Ok [OF assms(2)])
  have "pending_loop (a @ b) 0 = Ok (pa @ pb, length (a @ b))"
    using pending_loop_head [OF a(1), of b] pending_loop_shift [of a b 0] b(1) by simp
  then show ?thesis
    using a b publish_all_append [OF a(3) b(3)] by (simp add: OnRtcpPacket_def)
qed

text \<open>Inspection accepts whatever the receiver accepts.\<close>

lemma inspect_parts_Ok:
  "content_size h \<le> length p \<Longrightarrow> \<exists>info'. inspect_sender p h info = Ok info'"
  "content_size h \<le> length p \<Longrightarrow> \<exists>info'. inspect_media p h info = Ok info'"
  by (auto simp: inspect_sender_def inspect_media_def Let_def ReadUint32BE_eq)

lemma inspect_loop_accepts:
  "pending_loop p off = Ok (pks, length p) \<Longrightarrow> off \<le> length p \<Longrightarrow>
     \<exists>info'. inspect_loop p off info any = Ok (info', length p, any \<or> pks \<noteq> [])"
proof (induction "length p - off" arbitrary: off pks info any rule: less_induct)
  case less
  show ?case
  proof (cases "off + 4 \<le> length p")
    case False
    then have "pks = []" "off = length p"
      using less.prems(1) by (simp_all add: pending_loop_end)
    then show ?thesis
      by (subst inspect_loop.simps) simp
  next
    case True
    from less.prems(1) obtain pk rest where pk: "pending_one (drop off p) = Ok pk"
      and rest: "pending_loop p (off + packet_size (pk_header pk)) = Ok (rest, length p)" and pks: "pks = pk # rest"
      unfolding pending_loop_step [OF True] by (auto simp: bind_outcome_Ok_iff)
    let ?h = "pk_header pk"
    note h = pending_one_Ok [OF pk]
    have sz: "4 \<le> packet_size ?h" "packet_size ?h \<le> length p - off" "content_size ?h \<le> length (drop off p)"
      using RtcpHeader_Parse_Ok [OF h] by auto
    define i0 where "i0 = (if any then info else info\<lparr>first_packet_type := packet_type ?h, first_count_or_fmt := count_or_fmt ?h\<rparr>)"
    obtain i1 where i1: "inspect_sender (drop off p) ?h i0 = Ok i1"
      using inspect_parts_Ok(1) [OF sz(3)] by blast
    obtain i2 where i2: "inspect_media (drop off p) ?h i1 = Ok i2"
      using inspect_parts_Ok(2) [OF sz(3)] by blast
    have "length p - (off + packet_size ?h) < length p - off" "off + packet_size ?h \<le> length p"
      using sz True by linarith+
    then obtain i3 where "inspect_loop p (off + packet_size ?h) i2 True = Ok (i3, length p, True)"
      using less.hyps [OF _ rest, of i2 True] by auto
    then show ?thesis
      using True h i1 i2 by (subst inspect_loop.simps) (simp add: Let_def pks i0_def)
  qed
qed

text \<open>A packet that is its own compound.\<close>

lemma OnRtcpPacket_single:
  assumes "4 \<le> length p" "drop_bit 6 (p ! 0) = 2" "p ! 0 AND 0x20 = 0"
    and "(unat (be16 (p ! 2) (p ! 3)) + 1) * 4 = length p" "\<not> (p ! 1 = 205 \<and> p ! 0 AND 0x1F = 15)"
  shows "OnRtcpPacket True p = HandleSingleRtcpPacket True p (p ! 0 AND 0x1F) (p ! 1)"
proof -
  let ?h = "header_of p (length p) (length p)"
  have h: "RtcpHeader_Parse p = Ok ?h"
    using RtcpHeader_Parse_eq [OF assms(1) assms(4) [symmetric]] assms(2,3) by simp
  have one: "pending_one (drop 0 p) = Ok \<lparr>pk_header = ?h, pk_content = p, transport_feedback = None\<rparr>"
    using h assms(5) by (auto simp: pending_one_def header_of_def)
  have "pending_loop p 0 = Ok ([\<lparr>pk_header = ?h, pk_content = p, transport_feedback = None\<rparr>], length p)"
    using assms(1) by (subst pending_loop_step) (simp_all only: one, simp_all add: header_of_def pending_loop_end)
  then show ?thesis
    using assms(1)
    by (simp add: OnRtcpPacket_def publish_def header_of_def)
      (cases "HandleSingleRtcpPacket True p (p ! 0 AND 31) (p ! Suc 0)"; simp)
qed

section \<open>What the server builds, the receiver reads back\<close>

lemma int24_loss24:
  "int24_or (be24 (ucast (drop_bit 16 (loss24 c))) (ucast (drop_bit 8 (loss24 c))) (ucast (loss24 c))) =
     max (- 0x800000) (min c 0x7FFFFF)"
proof -
  define d where "d = max (- 0x800000) (min c 0x7FFFFF)"
  have "loss24 c = take_bit 24 (word_of_int d)"
    by (simp add: loss24_def d_def and_24)
  then have "int24_or (be24 (ucast (drop_bit 16 (loss24 c))) (ucast (drop_bit 8 (loss24 c))) (ucast (loss24 c))) =
      int24_or (take_bit 24 (word_of_int d))"
    by (simp add: be24_parts)
  also have "\<dots> = signed_take_bit 23 d"
    by (simp add: int24_or_signed unsigned_of_int signed_take_bit_take_bit)
  also have "\<dots> = d"
    by (rule signed_take_bit_int_eq_self) (auto simp: d_def)
  finally show ?thesis
    by (simp add: d_def)
qed

lemma receiver_reads_report:
  "OnRtcpPacket True (BuildReceiverReport sender b) =
     Ok [OnReceiverReport sender (b\<lparr>cumulative_lost := max (- 0x800000) (min (cumulative_lost b) 0x7FFFFF)\<rparr>)]"
proof -
  let ?l = "loss24 (cumulative_lost b)"
  define p where "p = BuildReceiverReport sender b"
  have p: "p = [0x81, 201] @ enc16 7 @ enc32 sender @ enc32 (rr_ssrc b) @ [fraction_lost b] @
      [ucast (drop_bit 16 ?l), ucast (drop_bit 8 ?l), ucast ?l] @
      enc32 (extended_highest_seq b) @ enc32 (rr_jitter b) @ enc32 (lsr b) @ enc32 (dlsr b)"
    by (simp add: p_def BuildReceiverReport_def Let_def)
  have len: "length p = 32"
    by (simp add: p)
  have hd: "p ! 0 = 0x81" "p ! Suc 0 = 201" "be16 (p ! 2) (p ! 3) = 7"
    by (simp_all add: p enc16_def be16_def)
  have fields: "dec32 (drop 4 p) = sender" "dec32 (drop 8 p) = rr_ssrc b" "p ! 12 = fraction_lost b"
    "dec24 (drop 13 p) = be24 (ucast (drop_bit 16 ?l)) (ucast (drop_bit 8 ?l)) (ucast ?l)"
    "dec32 (drop 16 p) = extended_highest_seq b" "dec32 (drop 20 p) = rr_jitter b"
    "dec32 (drop 24 p) = lsr b" "dec32 (drop 28 p) = dlsr b"
    by (simp_all add: p nth_append)
  have "OnRtcpPacket True p = HandleSingleRtcpPacket True p (p ! 0 AND 0x1F) (p ! 1)"
    by (rule OnRtcpPacket_single) (simp_all add: len hd)
  also have "\<dots> = handle_rr p 1"
    by (simp add: HandleSingleRtcpPacket_def len hd)
  also have "\<dots> = Ok [OnReceiverReport sender (b\<lparr>cumulative_lost := max (- 0x800000) (min (cumulative_lost b) 0x7FFFFF)\<rparr>)]"
    by (simp add: handle_rr_def len rd_simps fields read_block_def int24_loss24)
  finally show ?thesis
    by (simp add: p_def)
qed

lemma receiver_reads_pli: "OnRtcpPacket True (BuildPli sender media) = Ok [OnPli sender media]"
proof -
  define p where "p = BuildPli sender media"
  have p: "p = [0x81, 206] @ enc16 2 @ enc32 sender @ enc32 media"
    by (simp add: p_def BuildPli_def)
  have len: "length p = 12"
    by (simp add: p)
  have hd: "p ! 0 = 0x81" "p ! Suc 0 = 206" "be16 (p ! 2) (p ! 3) = 2"
    by (simp_all add: p enc16_def be16_def)
  have fields: "dec32 (drop 4 p) = sender" "dec32 (drop 8 p) = media"
    by (simp_all add: p)
  have "OnRtcpPacket True p = HandleSingleRtcpPacket True p (p ! 0 AND 0x1F) (p ! 1)"
    by (rule OnRtcpPacket_single) (simp_all add: len hd)
  then show ?thesis
    by (simp add: HandleSingleRtcpPacket_def handle_psfb_def len hd rd_simps fields p_def [symmetric])
qed

lemma receiver_reads_nack:
  assumes "xs \<noteq> []"
  shows "OnRtcpPacket True (Nack_Build sender media xs) = Ok [OnNack sender media (sorted_list_of_set (set xs))]"
proof -
  define p where "p = Nack_Build sender media xs"
  let ?n = "length (PackPairs xs)"
  have p: "p = [0x81, 205] @ enc16 (of_nat (?n + 2)) @ enc32 sender @ enc32 media @ concat (map enc_pair (PackPairs xs))"
    unfolding p_def Nack_Build_bytes [OF assms] by simp
  have len: "length p = 12 + 4 * ?n"
    by (simp add: p nackc.length_array)
  define w where "w = (of_nat (?n + 2) :: u16)"
  have words: "unat w = ?n + 2"
    unfolding w_def by (rule unat_of_nat16) (use PackPairs_count [of xs] in simp)
  have hd: "p ! 0 = 0x81" "p ! Suc 0 = 205" "be16 (p ! 2) (p ! 3) = w"
    by (simp_all add: p enc16_def w_def)
  have "OnRtcpPacket True p = HandleSingleRtcpPacket True p (p ! 0 AND 0x1F) (p ! 1)"
    by (rule OnRtcpPacket_single) (simp_all add: len hd words)
  also have "\<dots> = handle_rtpfb p 1"
    by (simp add: HandleSingleRtcpPacket_def len hd)
  also have "\<dots> = Ok [OnNack sender media (sorted_list_of_set (set xs))]"
  proof -
    have "pairs_loop p (12 + 4 * ?n) 12 = Ok (PackPairs xs)"
      using pairs_loop_Build(2) [OF assms, of sender media "[]"] by (simp add: p_def)
    moreover note ExpandPairs_PackPairs [of xs]
    moreover have "dec32 (drop 4 p) = sender" "dec32 (drop 8 p) = media"
      by (simp_all add: p)
    moreover have "sorted_list_of_set (set xs) \<noteq> []"
      using assms by simp
    ultimately show ?thesis
      using len by (simp add: handle_rtpfb_def rd_simps Let_def ExpandPairs_def del: concat_eq_Nil_conv)
  qed
  finally show ?thesis
    by (simp add: p_def)
qed

section \<open>Transport-wide feedback reports\<close>

lemma push_while_length: "length sts \<le> n \<Longrightarrow> length (push_while n sts xs) \<le> n"
  by (induction n sts xs rule: push_while.induct) auto

lemma chunk_loop_length:
  "chunk_loop p n off sts = Ok (sts', off') \<Longrightarrow> length sts \<le> n \<Longrightarrow> length sts' \<le> n"
proof (induction p n off sts rule: chunk_loop.induct)
  case (1 p n off sts)
  show ?case
  proof (cases "length sts < n \<and> off + 2 \<le> length p")
    case True
    have "chunk_loop p n (off + 2) (push_while n sts (chunk_symbols (dec16 (drop off p)))) = Ok (sts', off')"
      using "1.prems"(1) True by (subst (asm) chunk_loop.simps) (simp add: ReadUint16BE_eq)
    then show ?thesis
      using "1.IH" [OF True] True push_while_length [of sts n] by simp
  next
    case False
    then have "chunk_loop p n off sts = Ok (sts, off)"
      by (subst chunk_loop.simps) auto
    then show ?thesis
      using "1.prems" by simp
  qed
qed

lemma delta_loop_packets:
  "delta_loop p base ref sts i off acc = Ok ps \<Longrightarrow>
     map transport_sequence ps = map (\<lambda>j. base + of_nat (i + j)) [0..<length sts] \<and>
     map received ps = map (\<lambda>s. s \<noteq> 0) sts"
proof (induction p base ref sts i off acc arbitrary: ps rule: delta_loop.induct)
  case (2 p base ref st sts i off acc)
  have u: "map (\<lambda>j. base + (of_nat i + of_nat j)) [0..<Suc n] =
      (base + of_nat i) # map (\<lambda>j. base + (1 + (of_nat i + of_nat j))) [0..<n]" for n
    by (simp add: map_upt_Suc add.left_commute del: upt_Suc)
  show ?case
    using 2 by (auto simp: u Let_def bind_outcome_Ok_iff rd8_Ok_iff ReadUint16BE_eq received_packet_def
        simp del: upt_Suc split: if_splits)
qed simp

lemma ParseTransportFeedback_shape:
  assumes "ParseTransportFeedback p = Ok r"
  shows "length (tf_packets r) = unat (packet_status_count r) \<and>
    map transport_sequence (tf_packets r) = map (\<lambda>i. base_sequence r + of_nat i) [0..<length (tf_packets r)]"
proof -
  obtain count base ref sts off where c: "chunk_loop p (unat count) 20 [] = Ok (sts, off)"
    and l: "\<not> length sts < unat count" and d: "delta_loop p base ref sts 0 off 0 = Ok (tf_packets r)"
    and r: "packet_status_count r = count" "base_sequence r = base"
    using assms
    by (auto simp: ParseTransportFeedback_def Let_def rd8_Ok_iff rd_simps bind_outcome_Ok_iff split: if_splits)
  have "length sts = unat count"
    using chunk_loop_length [OF c] l by simp
  moreover have "length (tf_packets r) = length sts"
    using delta_loop_packets [OF d] by (metis length_map)
  ultimately show ?thesis
    using delta_loop_packets [OF d] r by simp
qed

section \<open>Properties\<close>

text \<open>
  C15: memory safety of the RTCP entry points.  Whatever bytes arrive, the compound-packet receiver, the
  routing inspection, the PLI, NACK and transport-feedback parsers read only inside the buffer.
\<close>

theorem Rtcp_memory_safe:
  "OnRtcpPacket observer p \<noteq> Fault \<and> InspectRtcpPacket p \<noteq> Fault \<and> ParsePli p \<noteq> Fault \<and>
   ParseTransportFeedback p \<noteq> Fault \<and> Nack_Parse p \<noteq> Fault"
  by (simp add: safe_Nack_Parse OnRtcpPacket_safe InspectRtcpPacket_safe ParsePli_safe ParseTransportFeedback_safe)

text \<open>
  C14: the receiver treats a compound packet as the sequence of its parts.  If two buffers are accepted
  on their own, their concatenation is accepted and the observer is notified of the events of the
  first followed by those of the second.
\<close>

theorem Rtcp_compound_composes:
  assumes "OnRtcpPacket observer a = Ok ea" "OnRtcpPacket observer b = Ok eb"
  shows "OnRtcpPacket observer (a @ b) = Ok (ea @ eb)"
  by (rule OnRtcpPacket_append [OF assms])

theorem Rtcp_compound_composes_witness:
  "OnRtcpPacket True (BuildPli 1 2 @ BuildPli 3 4) = Ok ([OnPli 1 2] @ [OnPli 3 4])"
  by (rule Rtcp_compound_composes [OF receiver_reads_pli receiver_reads_pli])

text \<open>
  Every compound packet the receiver accepts also passes the routing inspection, so a packet is
  never dispatched that could not be routed for lack of valid framing.
\<close>

theorem Rtcp_inspect_accepts:
  assumes "OnRtcpPacket observer p = Ok es"
  shows "\<exists>info. InspectRtcpPacket p = Ok info \<and> info_valid info"
proof -
  obtain pks where p: "pending_loop p 0 = Ok (pks, length p)" "pks \<noteq> []" "4 \<le> length p"
    by (rule OnRtcpPacket_Ok [OF assms])
  obtain info where "inspect_loop p 0 RtcpPacketInfo_init False = Ok (info, length p, True)"
    using inspect_loop_accepts [OF p(1), of RtcpPacketInfo_init False] p(2) by auto
  then show ?thesis
    using p(3) by (simp add: InspectRtcpPacket_def)
qed

theorem Rtcp_inspect_accepts_witness: "\<exists>info. InspectRtcpPacket (BuildPli 1 2) = Ok info \<and> info_valid info"
  by (rule Rtcp_inspect_accepts [OF receiver_reads_pli])

text \<open>
  A receiver report the server builds is read back by the receiver as one report of the same
  reporter with every field preserved, the cumulative loss clamped to the signed 24-bit range.
\<close>

theorem Rtcp_receiver_report_roundtrip:
  "OnRtcpPacket True (BuildReceiverReport sender b) =
     Ok [OnReceiverReport sender (b\<lparr>cumulative_lost := max (- 0x800000) (min (cumulative_lost b) 0x7FFFFF)\<rparr>)]"
  by (rule receiver_reads_report)

text \<open>
  The feedback packets the server sends reach the peer's observer exactly as intended: a picture
  loss indication as one PLI event, and a retransmission request for a non-empty list of lost
  packets as one NACK event carrying exactly these numbers in ascending order.
\<close>

theorem Rtcp_feedback_roundtrip:
  assumes "xs \<noteq> []"
  shows "OnRtcpPacket True (BuildPli sender media) = Ok [OnPli sender media] \<and>
    OnRtcpPacket True (Nack_Build sender media xs) = Ok [OnNack sender media (sorted_list_of_set (set xs))]"
  by (simp add: receiver_reads_pli receiver_reads_nack [OF assms])

theorem Rtcp_feedback_roundtrip_witness:
  "OnRtcpPacket True (Nack_Build 7 8 [10, 9]) = Ok [OnNack 7 8 (sorted_list_of_set (set [10, 9]))]"
  using Rtcp_feedback_roundtrip [of "[10, 9]" 7 8] by simp

text \<open>
  C16: an accepted transport-feedback message lists exactly as many packets as its count field says,
  numbered consecutively (modulo \<open>2^16\<close>) from its base sequence number.
\<close>

theorem Rtcp_transport_feedback_consecutive:
  assumes "ParseTransportFeedback p = Ok r"
  shows "length (tf_packets r) = unat (packet_status_count r) \<and>
    map transport_sequence (tf_packets r) = map (\<lambda>i. base_sequence r + of_nat i) [0..<length (tf_packets r)]"
  by (rule ParseTransportFeedback_shape [OF assms])

theorem Rtcp_transport_feedback_consecutive_witness:
  "\<exists>r. ParseTransportFeedback [0x8F, 205, 0, 5, 0, 0, 0, 1, 0, 0, 0, 2, 0xFF, 0xFF, 0, 2, 0, 0, 1, 9, 0xB0, 0, 4, 8] = Ok r \<and>
     map transport_sequence (tf_packets r) = map (\<lambda>i. base_sequence r + of_nat i) [0..<length (tf_packets r)]"
proof -
  let ?p = "[0x8F, 205, 0, 5, 0, 0, 0, 1, 0, 0, 0, 2, 0xFF, 0xFF, 0, 2, 0, 0, 1, 9, 0xB0, 0, 4, 8] :: bytes"
  have "(case ParseTransportFeedback ?p of Ok r \<Rightarrow> True | _ \<Rightarrow> False)"
    by (simp add: ParseTransportFeedback_def Let_def rd8_def rd_simps chunk_loop.simps chunk_symbols_def be16_def)
  then obtain r where "ParseTransportFeedback ?p = Ok r"
    by (cases "ParseTransportFeedback ?p") auto
  with Rtcp_transport_feedback_consecutive [OF this] show ?thesis
    by blast
qed

end
