(* ===== verification/Rtp.thy ===== *)
theory Rtp
  imports Byte_Codec
begin

text \<open>
  RTP packets: the fixed header (\<open>src/Rtsp/Rtp.cpp\<close>), the header extensions
  (\<open>src/Rtsp/Rtp/RtpHeaderExtensions.h\<close>, \<open>src/Rtsp/RtpTransportCcExtension.cpp\<close>), the retransmission
  format (\<open>src/Rtsp/Rtp/RtpRtx.h\<close>) and the receive statistics behind receiver reports
  (\<open>RtpRecvStatsBase\<close> of \<open>src/Rtsp/Rtp.h\<close> and \<open>Rtp.cpp\<close>, without the floating-point rates and jitter).
\<close>

section \<open>The fixed header\<close>

record RtpHeader =
  rtp_version :: u8
  rtp_padding :: bool
  rtp_extension :: bool
  rtp_csrc :: u8
  rtp_marker :: bool
  rtp_payload_type :: u8
  rtp_seq :: u16
  rtp_timestamp :: u32
  rtp_ssrc :: u32

definition RtpHeader_InputFromBuffer :: "bytes \<Rightarrow> RtpHeader outcome" where
  "RtpHeader_InputFromBuffer p =
     (if length p < 12 then Reject
      else rd8 p 0 (\<lambda>vpxcc. rd8 p 1 (\<lambda>mpt. ReadUint16BE p 2 (\<lambda>seq. ReadUint32BE p 4 (\<lambda>ts. ReadUint32BE p 8 (\<lambda>ssrc.
        Ok \<lparr>rtp_version = drop_bit 6 vpxcc AND 0x03, rtp_padding = (drop_bit 5 vpxcc AND 0x01 \<noteq> 0),
            rtp_extension = (drop_bit 4 vpxcc AND 0x01 \<noteq> 0), rtp_csrc = vpxcc AND 0x0F,
            rtp_marker = (drop_bit 7 mpt AND 0x01 \<noteq> 0), rtp_payload_type = mpt AND 0x7F,
            rtp_seq = seq, rtp_timestamp = ts, rtp_ssrc = ssrc\<rparr>))))))"

definition getHeaderSize :: "RtpHeader \<Rightarrow> nat" where
  "getHeaderSize h = 12 + unat (rtp_csrc h) * 4"

section \<open>Payload bounds and retransmission packets\<close>

definition RtpPayloadBounds :: "bytes \<Rightarrow> (nat \<times> nat) outcome" where
  "RtpPayloadBounds p =
     (if length p < 12 then Reject
      else rd8 p 0 (\<lambda>b0.
        if drop_bit 6 b0 \<noteq> 2 then Reject
        else
          let begin0 = 12 + 4 * unat (b0 AND 15) in
          if begin0 > length p then Reject
          else bind_outcome
            (if b0 AND 0x10 \<noteq> 0
             then if length p - begin0 < 4 then Reject
                  else rd8 p (begin0 + 2) (\<lambda>hi. rd8 p (begin0 + 3) (\<lambda>lo.
                    let begin1 = begin0 + (4 + 4 * unat (be16 hi lo))
                    in if begin1 > length p then Reject else Ok begin1))
             else Ok begin0) (\<lambda>begin1.
            if b0 AND 0x20 \<noteq> 0
            then rd8 p (length p - 1) (\<lambda>padding.
                   if padding = 0 \<or> unat padding > length p - begin1 then Reject
                   else Ok (begin1, length p - unat padding))
            else Ok (begin1, length p))))"

text \<open>Both rewrites end by replacing the first byte's padding bit, type, number and source in place.\<close>

definition rewrite_header :: "bytes \<Rightarrow> u8 \<Rightarrow> u8 \<Rightarrow> u8 \<Rightarrow> u32 \<Rightarrow> bytes" where
  "rewrite_header q pt s1 s2 ssrc =
     q[0 := q ! 0 AND NOT 0x20, 1 := (q ! 1 AND 0x80) OR pt, 2 := s1, 3 := s2,
       8 := ucast (drop_bit 24 ssrc), 9 := ucast (drop_bit 16 ssrc), 10 := ucast (drop_bit 8 ssrc),
       11 := ucast ssrc]"

definition EncapsulateRtx :: "bytes \<Rightarrow> u8 \<Rightarrow> u32 \<Rightarrow> u16 \<Rightarrow> bytes outcome" where
  "EncapsulateRtx packet pt ssrc sequence =
     (if pt > 127 \<or> ssrc = 0 then Reject
      else bind_outcome (RtpPayloadBounds packet) (\<lambda>(begin, end).
        if begin = end then Reject
        else rd8 packet 2 (\<lambda>osn1. rd8 packet 3 (\<lambda>osn2.
          let q = take end packet;
              q = take begin q @ [osn1, osn2] @ drop begin q
          in Ok (rewrite_header q pt (ucast (drop_bit 8 sequence)) (ucast sequence) ssrc)))))"

definition DecapsulateRtx :: "bytes \<Rightarrow> u8 \<Rightarrow> u32 \<Rightarrow> bytes outcome" where
  "DecapsulateRtx packet primary_pt primary_ssrc =
     (if primary_pt > 127 \<or> primary_ssrc = 0 then Reject
      else bind_outcome (RtpPayloadBounds packet) (\<lambda>(begin, end).
        if end - begin \<le> 2 then Reject
        else rd8 packet begin (\<lambda>high. rd8 packet (begin + 1) (\<lambda>low.
          let q = take end packet;
              q = take begin q @ drop (begin + 2) q
          in Ok (rewrite_header q primary_pt high low primary_ssrc)))))"

section \<open>Header extensions\<close>

text \<open>The loop over the elements: \<open>two\<close> is the two-byte profile, \<open>values\<close> the elements found so far.\<close>

function ext_loop :: "bytes \<Rightarrow> bool \<Rightarrow> nat \<Rightarrow> nat \<Rightarrow> (u8 \<times> bytes) list \<Rightarrow> (u8 \<times> bytes) list outcome" where
  "ext_loop p two off fin values =
     (if off < fin
      then rd8 p off (\<lambda>b.
        if b = 0 then ext_loop p two (off + 1) fin values
        else if \<not> two
        then let len = unat (b AND 15) + 1; id = drop_bit 4 b in
             if id = 15 then Ok values
             else if off + 1 + len > fin \<or> map_of values id \<noteq> None then Reject
             else rd_slice p (off + 1) len (\<lambda>v. ext_loop p two (off + 1 + len) fin (values @ [(id, v)]))
        else if off + 1 = fin then Reject
        else rd8 p (off + 1) (\<lambda>n.
             let len = unat n; id = b in
             if off + 2 + len > fin \<or> map_of values id \<noteq> None then Reject
             else rd_slice p (off + 2) len (\<lambda>v. ext_loop p two (off + 2 + len) fin (values @ [(id, v)]))))
      else Ok values)"
  by pat_completeness auto

termination
  by (relation "measure (\<lambda>(_, _, off, fin, _). fin - off)") auto

declare ext_loop.simps [simp del]

definition ReadRtpHeaderExtensions :: "bytes \<Rightarrow> (u8 \<times> bytes) list outcome" where
  "ReadRtpHeaderExtensions p =
     (if length p < 12 then Reject
      else rd8 p 0 (\<lambda>b0.
        if drop_bit 6 b0 \<noteq> 2 then Reject
        else
          let off = 12 + 4 * unat (b0 AND 15) in
          if off > length p then Reject
          else bind_outcome
            (if b0 AND 0x10 \<noteq> 0
             then if off + 4 > length p then Reject
                  else ReadUint16BE p off (\<lambda>profile. ReadUint16BE p (off + 2) (\<lambda>words.
                    let fin = off + 4 + 4 * unat words in
                    if fin > length p then Reject
                    else bind_outcome
                      (if profile = 0xBEDE \<or> profile AND 0xFFF0 = 0x1000
                       then ext_loop p (profile \<noteq> 0xBEDE) (off + 4) fin []
                       else Ok []) (\<lambda>values. Ok (values, fin))))
             else Ok ([], off)) (\<lambda>(values, off).
            if b0 AND 0x20 \<noteq> 0
            then rd8 p (length p - 1) (\<lambda>padding.
                   if padding = 0 \<or> unat padding > length p - off then Reject else Ok values)
            else Ok values)))"

text \<open>\<open>RtpTransportCcExtension::Read\<close>: the transport sequence number of the negotiated element.\<close>

function cc_loop :: "bytes \<Rightarrow> u8 \<Rightarrow> nat \<Rightarrow> nat \<Rightarrow> u16 outcome" where
  "cc_loop p ext_id off fin =
     (if off < fin
      then rd8 p off (\<lambda>header.
        if header = 0 then cc_loop p ext_id (off + 1) fin
        else
          let id = drop_bit 4 header in
          if id = 15 then Reject
          else
            let value_size = unat (header AND 0x0F) + 1 in
            if off + 1 + value_size > fin then Reject
            else if id = ext_id
            then if value_size \<noteq> 2 then Reject else ReadUint16BE p (off + 1) Ok
            else cc_loop p ext_id (off + (1 + value_size)) fin)
      else Reject)"
  by pat_completeness auto

termination
  by (relation "measure (\<lambda>(_, _, off, fin). fin - off)") auto

declare cc_loop.simps [simp del]

definition TransportCc_Read :: "bytes \<Rightarrow> u8 \<Rightarrow> u16 outcome" where
  "TransportCc_Read p ext_id =
     (if length p < 12 \<or> ext_id = 0 \<or> ext_id > 14 then Reject
      else rd8 p 0 (\<lambda>b0.
        if drop_bit 6 b0 \<noteq> 2 \<or> b0 AND 0x10 = 0 then Reject
        else
          let base_header_size = 12 + unat (b0 AND 0x0F) * 4 in
          if length p < base_header_size + 4 then Reject
          else ReadUint16BE p base_header_size (\<lambda>profile.
            if profile \<noteq> 0xBEDE then Reject
            else ReadUint16BE p (base_header_size + 2) (\<lambda>words.
              let begin = base_header_size + 4; fin = begin + unat words * 4 in
              if length p < fin then Reject else cc_loop p ext_id begin fin))))"

section \<open>Memory safety\<close>

lemma RtpHeader_safe: "RtpHeader_InputFromBuffer p \<noteq> Fault"
  by (auto simp: RtpHeader_InputFromBuffer_def rd8_def rd_simps)

lemma RtpPayloadBounds_safe: "RtpPayloadBounds p \<noteq> Fault"
  by (auto simp: RtpPayloadBounds_def rd8_def Let_def bind_Fault_iff split: if_splits)

lemma RtpPayloadBounds_Ok:
  "RtpPayloadBounds p = Ok (b, e) \<Longrightarrow> 12 \<le> b \<and> b \<le> e \<and> e \<le> length p"
  by (auto simp: RtpPayloadBounds_def rd8_def Let_def bind_outcome_Ok_iff split: if_splits)

lemma EncapsulateRtx_safe: "EncapsulateRtx p pt ssrc s \<noteq> Fault"
  using RtpPayloadBounds_safe [of p]
  by (auto simp: EncapsulateRtx_def bind_Fault_iff rd8_def Let_def dest!: RtpPayloadBounds_Ok)

lemma DecapsulateRtx_safe: "DecapsulateRtx p pt ssrc \<noteq> Fault"
  using RtpPayloadBounds_safe [of p]
  by (auto simp: DecapsulateRtx_def bind_Fault_iff rd8_def Let_def dest!: RtpPayloadBounds_Ok)

lemma ext_loop_safe: "fin \<le> length p \<Longrightarrow> ext_loop p two off fin vs \<noteq> Fault"
proof (induction p two off fin vs rule: ext_loop.induct)
  case (1 p two off fin vs)
  then show ?case
    by (subst ext_loop.simps) (simp add: rd8_def rd_slice_def Let_def)
qed

lemma ReadRtpHeaderExtensions_safe: "ReadRtpHeaderExtensions p \<noteq> Fault"
  by (auto simp: ReadRtpHeaderExtensions_def rd8_def rd_simps Let_def bind_Fault_iff ext_loop_safe split: if_splits)

lemma cc_loop_safe: "fin \<le> length p \<Longrightarrow> cc_loop p i off fin \<noteq> Fault"
proof (induction p i off fin rule: cc_loop.induct)
  case (1 p i off fin)
  then show ?case
    by (subst cc_loop.simps) (simp add: rd8_def ReadUint16BE_eq Let_def)
qed

lemma TransportCc_Read_safe: "TransportCc_Read p i \<noteq> Fault"
  by (auto simp: TransportCc_Read_def rd8_def ReadUint16BE_eq Let_def cc_loop_safe)

section \<open>The two extension readers agree\<close>

text \<open>One element of a one-byte envelope, as both loops see it.\<close>

lemma ext_loop_one:
  assumes "off < fin" "fin \<le> length p"
  shows "ext_loop p False off fin vs =
    (let b = p ! off; len = unat (b AND 15) + 1; id = drop_bit 4 b in
     if b = 0 then ext_loop p False (off + 1) fin vs
     else if id = 15 then Ok vs
     else if off + 1 + len > fin \<or> map_of vs id \<noteq> None then Reject
     else ext_loop p False (off + 1 + len) fin (vs @ [(id, slice p (off + 1) len)]))"
proof -
  have "off < length p"
    using assms by linarith
  then show ?thesis
    using assms by (subst ext_loop.simps) (simp add: rd_slice_def Let_def not_less)
qed

lemma cc_loop_one:
  assumes "off < fin" "fin \<le> length p"
  shows "cc_loop p i off fin =
    (let b = p ! off; len = unat (b AND 15) + 1; id = drop_bit 4 b in
     if b = 0 then cc_loop p i (off + 1) fin
     else if id = 15 then Reject
     else if off + 1 + len > fin then Reject
     else if id = i then (if len = 2 then Ok (dec16 (slice p (off + 1) len)) else Reject)
     else cc_loop p i (off + 1 + len) fin)"
proof -
  have "off < length p"
    using assms by linarith
  then show ?thesis
    using assms dec16_take [of "drop (off + 1) p"]
    by (subst cc_loop.simps) (auto simp: ReadUint16BE_eq Let_def slice_def not_less numeral_2_eq_2)
qed

lemma ext_loop_done: "\<not> off < fin \<Longrightarrow> ext_loop p two off fin vs = Ok vs"
  by (subst ext_loop.simps) simp

lemma cc_loop_done: "\<not> off < fin \<Longrightarrow> cc_loop p i off fin = Reject"
  by (subst cc_loop.simps) simp

lemma ext_loop_extends:
  "ext_loop p False off fin vs = Ok vs' \<Longrightarrow> fin \<le> length p \<Longrightarrow> \<exists>ws. vs' = vs @ ws"
proof (induction "fin - off" arbitrary: off vs rule: less_induct)
  case less
  show ?case
  proof (cases "off < fin")
    case True
    have ih: "\<exists>ws. vs' = us @ ws" if "ext_loop p False (off + 1 + k) fin us = Ok vs'" for k us
      using less.hyps [OF _ that less.prems(2)] True by simp
    let ?len = "unat (p ! off AND 15) + 1"
    show ?thesis
      using less.prems(1) ih [of 0 vs] ih [of ?len "vs @ [(drop_bit 4 (p ! off), slice p (off + 1) ?len)]"]
      unfolding ext_loop_one [OF True less.prems(2)]
      by (auto simp: Let_def split: if_splits)
  qed (use less.prems(1) in \<open>simp add: ext_loop_done\<close>)
qed

lemma cc_loop_finds:
  "ext_loop p False off fin vs = Ok vs' \<Longrightarrow> fin \<le> length p \<Longrightarrow> map_of vs i = None \<Longrightarrow>
     cc_loop p i off fin =
       (case map_of vs' i of None \<Rightarrow> Reject | Some v \<Rightarrow> if length v = 2 then Ok (dec16 v) else Reject)"
proof (induction "fin - off" arbitrary: off vs rule: less_induct)
  case less
  show ?case
  proof (cases "off < fin")
    case True
    let ?b = "p ! off"
    let ?len = "unat (?b AND 15) + 1"
    let ?id = "drop_bit 4 ?b"
    let ?v = "slice p (off + 1) ?len"
    note e = ext_loop_one [OF True less.prems(2), of vs, unfolded Let_def]
    note c = cc_loop_one [OF True less.prems(2), of i, unfolded Let_def]
    have ih: "cc_loop p i (off + 1 + k) fin =
        (case map_of vs' i of None \<Rightarrow> Reject | Some v \<Rightarrow> if length v = 2 then Ok (dec16 v) else Reject)"
      if "ext_loop p False (off + 1 + k) fin us = Ok vs'" "map_of us i = None" for k us
      using less.hyps [OF _ that(1) less.prems(2) that(2)] True by simp
    consider (pad) "?b = 0" "ext_loop p False (off + 1) fin vs = Ok vs'"
      | (stop) "?b \<noteq> 0" "?id = 15" "vs' = vs"
      | (elem) "?b \<noteq> 0" "?id \<noteq> 15" "off + 1 + ?len \<le> fin" "map_of vs ?id = None"
          "ext_loop p False (off + 1 + ?len) fin (vs @ [(?id, ?v)]) = Ok vs'"
      using less.prems(1) unfolding e by (auto simp: not_less split: if_splits)
    then show ?thesis
    proof cases
      case pad
      then show ?thesis
        unfolding c using ih [of 0 vs] less.prems(3) by simp
    next
      case stop
      then show ?thesis
        unfolding c using less.prems(3) by simp
    next
      case elem
      show ?thesis
      proof (cases "?id = i")
        case True
        obtain ws where "vs' = (vs @ [(?id, ?v)]) @ ws"
          using ext_loop_extends [OF elem(5) less.prems(2)] by blast
        then have "map_of vs' i = Some ?v"
          using True less.prems(3) by (simp add: map_add_def)
        moreover have "length ?v = ?len"
          using elem(3) less.prems(2) by (intro length_slice) simp
        ultimately show ?thesis
          unfolding c using elem True by simp
      next
        case False
        then have "map_of (vs @ [(?id, ?v)]) i = None"
          using less.prems(3) by (simp add: map_add_def)
        then show ?thesis
          unfolding c using elem False ih [OF elem(5)] by simp
      qed
    qed
  qed (use less.prems in \<open>simp add: ext_loop_done cc_loop_done\<close>)
qed

text \<open>
  C36: the two extension readers agree: when the full reader accepts a packet with one-byte elements, the
  transport sequence number the direct reader finds under an identifier 1 to 14 is the big-endian value
  of that identifier's element, and it reports none exactly when there is no element or it is not two
  bytes long.
\<close>
theorem TransportCc_Read_lookup:
  assumes "ReadRtpHeaderExtensions p = Ok vals" "0 < i" "i \<le> 14" "p ! 0 AND 0x10 \<noteq> 0"
    and "dec16 (drop (12 + 4 * unat (p ! 0 AND 15)) p) = 0xBEDE"
  shows "TransportCc_Read p i =
    (case map_of vals i of None \<Rightarrow> Reject | Some v \<Rightarrow> if length v = 2 then Ok (dec16 v) else Reject)"
proof -
  let ?off = "12 + 4 * unat (p ! 0 AND 15)"
  let ?fin = "?off + 4 + 4 * unat (dec16 (drop (?off + 2) p))"
  have l: "\<not> length p < 12" "drop_bit 6 (p ! 0) = 2" "?off + 4 \<le> length p" "?fin \<le> length p"
    and e: "ext_loop p False (?off + 4) ?fin [] = Ok vals"
    using assms(1,4,5)
    by (auto simp: ReadRtpHeaderExtensions_def rd8_Ok_iff ReadUint16BE_eq Let_def bind_outcome_Ok_iff
        split: if_splits)
  have "0 < length p" "i \<noteq> 0" "\<not> 14 < i"
    using l(1) assms(2,3) by (linarith, auto)
  then have "TransportCc_Read p i = cc_loop p i (?off + 4) ?fin"
    using l assms(4,5)
    by (simp add: TransportCc_Read_def rd8_def ReadUint16BE_eq Let_def mult.commute [of _ 4] not_less [where 'a = nat])
  then show ?thesis
    using cc_loop_finds [OF e l(4), of i] by simp
qed

theorem TransportCc_Read_lookup_witness:
  "let p = [0x90, 96, 0, 1, 0, 0, 0, 2, 0, 0, 0, 3, 0xBE, 0xDE, 0, 2, 0x10, 7, 0x31, 0x12, 0x34, 0, 0, 0, 9] in
   TransportCc_Read p 3 = Ok 0x1234 \<and> TransportCc_Read p 1 = Reject"
proof -
  let ?p = "[0x90, 96, 0, 1, 0, 0, 0, 2, 0, 0, 0, 3, 0xBE, 0xDE, 0, 2, 0x10, 7, 0x31, 0x12, 0x34, 0, 0, 0, 9] :: bytes"
  have v: "ReadRtpHeaderExtensions ?p = Ok [(1, [7]), (3, [0x12, 0x34])]"
    by (simp add: ReadRtpHeaderExtensions_def rd8_def rd_simps ext_loop.simps be16_def slice_def)
  show ?thesis
    using TransportCc_Read_lookup [OF v, of 3] TransportCc_Read_lookup [OF v, of 1]
    by (simp add: be16_def)
qed

section \<open>Retransmission packets\<close>

text \<open>The variable part of the header: CSRCs and extension, by the first byte and the bytes after twelve.\<close>

definition var_header :: "u8 \<Rightarrow> bytes \<Rightarrow> nat option" where
  "var_header b0 r =
     (let cc = 4 * unat (b0 AND 15) in
      if drop_bit 6 b0 \<noteq> 2 \<or> cc > length r then None
      else if b0 AND 0x10 \<noteq> 0
      then if length r - cc < 4 then None
           else let n = cc + (4 + 4 * unat (be16 (r ! (cc + 2)) (r ! (cc + 3))))
                in if n > length r then None else Some n
      else Some cc)"

lemma var_header_prefix:
  assumes "var_header b0 r = Some n" "n \<le> length r'" "take n r' = take n r" "drop_bit 6 b0' = drop_bit 6 b0"
    "b0' AND 15 = b0 AND 15" "b0' AND 0x10 = b0 AND 0x10"
  shows "var_header b0' r' = Some n"
proof -
  have "r' ! i = r ! i" if "i < n" for i
    using assms(3) that by (metis nth_take)
  then show ?thesis
    using assms by (auto simp: var_header_def Let_def split: if_splits)
qed

lemma RtpPayloadBounds_var:
  assumes "length h = 12"
  shows "RtpPayloadBounds (h @ r) =
    (case var_header (h ! 0) r of
       None \<Rightarrow> Reject
     | Some n \<Rightarrow>
         if h ! 0 AND 0x20 \<noteq> 0
         then if (h @ r) ! (length r + 11) = 0 \<or> unat ((h @ r) ! (length r + 11)) > length r - n then Reject
              else Ok (12 + n, 12 + length r - unat ((h @ r) ! (length r + 11)))
         else Ok (12 + n, 12 + length r))"
proof -
  have z: "(h @ r) ! 0 = h ! 0"
    using assms by (cases h) auto
  have n: "(h @ r) ! (12 + m) = r ! m" for m
    using assms by (simp add: nth_append)
  have n2: "(h @ r) ! (14 + m) = r ! (m + 2)" "(h @ r) ! (15 + m) = r ! (m + 3)" for m
    using n [of "m + 2"] n [of "m + 3"] by (simp_all add: ac_simps)
  show ?thesis
    using assms
    by (auto simp: RtpPayloadBounds_def var_header_def rd8_def Let_def z n2 ac_simps split: if_splits)
qed

lemma list12_conv:
  "length h = 12 \<longleftrightarrow> (\<exists>a b c d e f g i j k l m. h = [a, b, c, d, e, f, g, i, j, k, l, m])"
  by (auto simp: numeral_eq_Suc length_Suc_conv)

lemma rewrite_header_append:
  "length h = 12 \<Longrightarrow> rewrite_header (h @ r) pt s1 s2 ssrc = rewrite_header h pt s1 s2 ssrc @ r"
  by (auto simp: list12_conv rewrite_header_def)

lemma length_rewrite_header [simp]: "length (rewrite_header h pt s1 s2 ssrc) = length h"
  by (simp add: rewrite_header_def)

lemma rewrite_header_first:
  "length h = 12 \<Longrightarrow> rewrite_header h pt s1 s2 ssrc ! 0 = h ! 0 AND NOT 0x20"
  by (auto simp: list12_conv rewrite_header_def)

lemma u8_high_bit_clear:
  assumes "pt \<le> (127 :: u8)"
  shows "pt AND 0x80 = 0"
proof -
  have "unat pt div 128 = 0"
    using assms by (simp add: word_le_nat_alt)
  then have "\<not> bit (unat pt) 7"
    by (simp add: bit_iff_odd)
  then have "\<not> bit pt 7"
    by (simp add: bit_simps)
  then show ?thesis
    using and_exp_eq_0_iff_not_bit [of pt 7] by simp
qed

lemma type_byte_restored:
  assumes "pt \<le> (127 :: u8)"
  shows "((((b :: u8) AND 0x80) OR pt) AND 0x80) OR (b AND 0x7F) = b"
proof -
  have "pt AND 0x80 = 0"
    using assms by (rule u8_high_bit_clear)
  then have "((b AND 0x80) OR pt) AND 0x80 = b AND 0x80"
    by (simp add: bit.conj_disj_distrib2 and.assoc)
  moreover have "(b AND 0x80) OR (b AND 0x7F) = b AND (0x80 OR 0x7F)"
    by (simp only: bit.conj_disj_distrib)
  moreover have "b AND (0x80 OR 0x7F) = b"
    by (simp add: and_255 take_bit_word_eq_self)
  ultimately show ?thesis
    by simp
qed

lemma rewrite_header_restored:
  assumes "length h = 12" "pt \<le> 127"
  shows "rewrite_header (rewrite_header h pt s1 s2 ssrc) (h ! 1 AND 0x7F) (h ! 2) (h ! 3) (dec32 (drop 8 h)) =
    h[0 := h ! 0 AND NOT 0x20]"
  using assms type_byte_restored [OF assms(2), of "h ! 1"]
  by (auto simp: list12_conv rewrite_header_def and.assoc)

lemma version_bits: "drop_bit 6 (b :: u8) AND 3 = drop_bit 6 b"
proof -
  have "drop_bit 6 b AND 3 = take_bit 2 (drop_bit 6 b)"
    unfolding take_bit_eq_mask by (simp add: mask_eq_exp_minus_1)
  also have "\<dots> = drop_bit 6 (take_bit 8 b)"
    by (simp add: take_bit_drop_bit)
  finally show ?thesis
    by (simp add: take_bit_word_eq_self)
qed

lemma RtpPayloadBounds_split:
  assumes "RtpPayloadBounds p = Ok (b, e)"
  obtains h r n m where "p = h @ r" "length h = 12" "var_header (h ! 0) r = Some n" "b = 12 + n" "e = 12 + m"
    "n \<le> m" "m \<le> length r"
proof -
  have p12: "12 \<le> length p"
    using assms by (auto simp: RtpPayloadBounds_def split: if_splits)
  then have l: "length (take 12 p) = 12"
    by simp
  have b: "RtpPayloadBounds (take 12 p @ drop 12 p) = Ok (b, e)"
    using assms by simp
  obtain n where v: "var_header (take 12 p ! 0) (drop 12 p) = Some n"
    using b [unfolded RtpPayloadBounds_var [OF l]] by (auto split: option.splits)
  have "n \<le> length (drop 12 p)"
    using v by (auto simp: var_header_def Let_def split: if_splits)
  then have "b = 12 + n \<and> b \<le> e \<and> e \<le> length p"
    using b [unfolded RtpPayloadBounds_var [OF l] v option.case] p12
    by (simp split: if_splits; linarith)
  then show ?thesis
    using that [of "take 12 p" "drop 12 p" n "e - 12"] l v by auto
qed

lemma RtpPayloadBounds_unpadded:
  assumes "length h = 12" "var_header (h ! 0) r = Some n" "h ! 0 AND 0x20 = 0"
  shows "RtpPayloadBounds (h @ r) = Ok (12 + n, 12 + length r)"
  by (simp add: RtpPayloadBounds_var assms)

lemma var_header_rewritten:
  assumes "length h = 12" "var_header (h ! 0) r = Some n" "take n r' = take n r" "n \<le> length r'"
  shows "RtpPayloadBounds (rewrite_header h pt s1 s2 ssrc @ r') = Ok (12 + n, 12 + length r')"
  using assms
  by (intro RtpPayloadBounds_unpadded var_header_prefix [OF assms(2)])
    (simp_all add: rewrite_header_first and.assoc drop_bit_and version_bits)

lemma DecapsulateRtx_at:
  assumes "length h = 12" "RtpPayloadBounds (h @ a @ [x, y] @ c) = Ok (12 + length a, 12 + (length a + 2 + length c))"
    and "c \<noteq> []" "\<not> 127 < pt" "ssrc \<noteq> 0"
  shows "DecapsulateRtx (h @ a @ [x, y] @ c) pt ssrc = Ok (rewrite_header h pt x y ssrc @ a @ c)"
proof -
  let ?q = "h @ a @ [x, y] @ c" and ?b = "12 + length a"
  have "?q ! ?b = x" "?q ! (?b + 1) = y" "?b + 1 < length ?q" "take ?b ?q = h @ a" "drop (?b + 2) ?q = c"
    and "\<not> 12 + (length a + 2 + length c) - ?b \<le> 2" "take (12 + (length a + 2 + length c)) ?q = ?q"
    using assms(1,3) by (auto simp: nth_append)
  then show ?thesis
    using assms(4,5) rewrite_header_append [OF assms(1), of "a @ c"]
    by (simp only: DecapsulateRtx_def assms(2) bind_outcome.simps prod.case rd8_def Let_def if_False if_True
        append_assoc simp_thms Suc_eq_plus1 [symmetric] Suc_lessD)
qed

text \<open>
  C35: wrapping a media packet into the retransmission stream and unwrapping it restores the packet: the
  header, the extensions and the payload are those of the original; only its padding is gone, and with
  it the padding bit.
\<close>
theorem Rtx_roundtrip:
  assumes "RtpPayloadBounds p = Ok (b, e)" "b < e" "pt \<le> 127" "ssrc \<noteq> 0" "dec32 (drop 8 p) \<noteq> 0"
  shows "bind_outcome (EncapsulateRtx p pt ssrc sequence) (\<lambda>q. DecapsulateRtx q (p ! 1 AND 0x7F) (dec32 (drop 8 p))) =
    Ok ((take e p)[0 := p ! 0 AND NOT 0x20])"
proof -
  obtain h r n m where p: "p = h @ r" and h: "length h = 12" and v: "var_header (h ! 0) r = Some n"
    and be: "b = 12 + n" "e = 12 + m" and nm: "n \<le> m" "m \<le> length r"
    using RtpPayloadBounds_split [OF assms(1)] .
  let ?x = "h ! 2" and ?y = "h ! 3" and ?s1 = "ucast (drop_bit 8 sequence)" and ?s2 = "ucast sequence"
  let ?r = "take n r @ [?x, ?y] @ drop n (take m r)" and ?h = "rewrite_header h pt ?s1 ?s2 ssrc"
  have hp: "p ! 0 = h ! 0" "p ! 1 = h ! 1" "p ! 2 = ?x" "p ! 3 = ?y" "dec32 (drop 8 p) = dec32 (drop 8 h)"
    using h by (auto simp: p list12_conv)
  have nlt: "n < m"
    using assms(2) be by simp
  have enc: "EncapsulateRtx p pt ssrc sequence = Ok (?h @ ?r)"
    using assms h nm nlt hp
    by (simp add: EncapsulateRtx_def be p rewrite_header_append [OF h, symmetric])
  have bounds: "RtpPayloadBounds (?h @ ?r) = Ok (12 + n, 12 + (m + 2))"
    using var_header_rewritten [OF h v, of ?r] nm by simp
  have "DecapsulateRtx (?h @ ?r) (h ! 1 AND 0x7F) (dec32 (drop 8 h)) =
      Ok (rewrite_header ?h (h ! 1 AND 0x7F) ?x ?y (dec32 (drop 8 h)) @ take n r @ drop n (take m r))"
    using assms(5) h nm nlt hp(5) bounds
    by (intro DecapsulateRtx_at) (simp_all add: not_less word_and_le1)
  moreover have "take n r @ drop n (take m r) = take m r"
    using nlt by (metis append_take_drop_id min.absorb1 less_imp_le take_take)
  ultimately have "DecapsulateRtx (?h @ ?r) (h ! 1 AND 0x7F) (dec32 (drop 8 h)) =
      Ok (h[0 := h ! 0 AND NOT 0x20] @ take m r)"
    by (simp only: rewrite_header_restored [OF h assms(3)])
  then show ?thesis
    using h by (simp add: enc hp be) (simp add: p list_update_append nth_append)
qed

theorem Rtx_roundtrip_witness:
  "let p = [0xA0, 0x80 OR 96, 0, 1, 0, 0, 0, 2, 0, 0, 0, 3, 7, 8, 0, 2] in
   bind_outcome (EncapsulateRtx p 97 5 9) (\<lambda>q. DecapsulateRtx q (p ! 1 AND 0x7F) (dec32 (drop 8 p))) =
   Ok [0x80, 0x80 OR 96, 0, 1, 0, 0, 0, 2, 0, 0, 0, 3, 7, 8]"
proof -
  let ?p = "[0xA0, 0x80 OR 96, 0, 1, 0, 0, 0, 2, 0, 0, 0, 3, 7, 8, 0, 2] :: bytes"
  have b: "RtpPayloadBounds ?p = Ok (12, 14)"
    by (simp add: RtpPayloadBounds_def rd8_def)
  show ?thesis
    using Rtx_roundtrip [OF b, of 97 5 9] by (simp add: be32_def)
qed

text \<open>
  No RTP packet, however malformed, makes the header parser, the extension readers or the
  retransmission rewrites read outside the buffer.
\<close>
theorem Rtp_memory_safe:
  "RtpHeader_InputFromBuffer p \<noteq> Fault \<and> RtpPayloadBounds p \<noteq> Fault \<and> ReadRtpHeaderExtensions p \<noteq> Fault \<and>
   TransportCc_Read p i \<noteq> Fault \<and> EncapsulateRtx p pt ssrc sequence \<noteq> Fault \<and> DecapsulateRtx p pt ssrc \<noteq> Fault"
  by (simp add: RtpHeader_safe RtpPayloadBounds_safe ReadRtpHeaderExtensions_safe TransportCc_Read_safe
      EncapsulateRtx_safe DecapsulateRtx_safe)

end
