(* ===== verification/H264_Payload.thy ===== *)
theory H264_Payload
  imports Byte_Codec
begin

text \<open>
  H.264 over RTP (RFC 6184): the payload types of \<open>src/Common/Depacketizer/H264Payload.h\<close>, the payload
  parser \<open>H264RtpPayloadParser\<close> (single NAL units, STAP-A aggregates, FU-A fragments) and the simple
  in-order assembler \<open>RtpFrameAssembler\<close>.  An \<open>RtpView\<close> is a pointer and a length in the source and a
  byte list here; a null pointer is the empty list.
\<close>

section \<open>Payload units\<close>

datatype H264PayloadUnitType = UnknownUnit | SingleNalu | StapANalu | FuAFragment

datatype H264NalType =
  Unspecified | NonIdr | Dpa | Dpb | Dpc | Idr | Sei | Sps | Pps | Aud | StapA | FuA

fun nal_code :: "H264NalType \<Rightarrow> u8" where
  "nal_code Unspecified = 0"
| "nal_code NonIdr = 1"
| "nal_code Dpa = 2"
| "nal_code Dpb = 3"
| "nal_code Dpc = 4"
| "nal_code Idr = 5"
| "nal_code Sei = 6"
| "nal_code Sps = 7"
| "nal_code Pps = 8"
| "nal_code Aud = 9"
| "nal_code StapA = 24"
| "nal_code FuA = 28"

definition H264GetNalType :: "u8 \<Rightarrow> u8" where
  "H264GetNalType nal_header = nal_header AND 0x1F"

definition H264IsKeyNaluType :: "u8 \<Rightarrow> bool" where
  "H264IsKeyNaluType t \<longleftrightarrow> t = nal_code Idr \<or> t = nal_code Sps \<or> t = nal_code Pps"

record H264PayloadUnit =
  unit_type :: H264PayloadUnitType
  nal_type :: u8
  unit_data :: bytes
  fu_start :: bool
  fu_end :: bool
  reconstructed_nal_header :: u8
  first_slice :: bool
  is_sps :: bool
  is_pps :: bool
  is_idr :: bool
  is_key :: bool

definition H264PayloadUnit_init :: H264PayloadUnit where
  "H264PayloadUnit_init =
     \<lparr>unit_type = UnknownUnit, nal_type = 0, unit_data = [], fu_start = False, fu_end = False,
      reconstructed_nal_header = 0, first_slice = False, is_sps = False, is_pps = False, is_idr = False,
      is_key = False\<rparr>"

record H264ParsedPacket =
  pk_valid :: bool
  pk_malformed :: bool
  pk_ssrc :: u32
  pk_seq :: u16
  pk_timestamp :: u32
  pk_receive_time_ms :: int
  pk_marker :: bool
  begins_frame :: bool
  ends_frame :: bool
  has_key_nalu :: bool
  pk_has_sps :: bool
  pk_has_pps :: bool
  pk_has_idr :: bool
  units :: "H264PayloadUnit list"

definition H264ParsedPacket_init :: H264ParsedPacket where
  "H264ParsedPacket_init =
     \<lparr>pk_valid = False, pk_malformed = False, pk_ssrc = 0, pk_seq = 0, pk_timestamp = 0, pk_receive_time_ms = 0,
      pk_marker = False, begins_frame = False, ends_frame = False, has_key_nalu = False, pk_has_sps = False,
      pk_has_pps = False, pk_has_idr = False, units = []\<rparr>"

definition ParsedPacket_Reset :: "H264ParsedPacket \<Rightarrow> H264ParsedPacket" where
  "ParsedPacket_Reset out = H264ParsedPacket_init"

record H264AccessUnit =
  au_ssrc :: u32
  au_timestamp :: u32
  au_receive_time_ms :: int
  first_seq :: u16
  last_seq :: u16
  complete :: bool
  broken :: bool
  au_marker :: bool
  keyframe :: bool
  au_has_sps :: bool
  au_has_pps :: bool
  au_has_idr :: bool
  nalus :: "bytes list"

definition H264AccessUnit_init :: H264AccessUnit where
  "H264AccessUnit_init =
     \<lparr>au_ssrc = 0, au_timestamp = 0, au_receive_time_ms = 0, first_seq = 0, last_seq = 0, complete = False,
      broken = False, au_marker = False, keyframe = False, au_has_sps = False, au_has_pps = False,
      au_has_idr = False, nalus = []\<rparr>"

definition SizeBytes :: "H264AccessUnit \<Rightarrow> nat" where
  "SizeBytes f = sum_list (map length (nalus f))"

definition ToAnnexB :: "H264AccessUnit \<Rightarrow> bytes" where
  "ToAnnexB f = concat (map (\<lambda>n. [0, 0, 0, 1] @ n) (nalus f))"

section \<open>The payload parser\<close>

record RtpView =
  v_seq :: u16
  v_ts :: u32
  v_marker :: bool
  v_payload :: bytes
  v_ssrc :: u32
  v_receive_time_ms :: int

definition view_valid :: "RtpView \<Rightarrow> bool" where
  "view_valid v \<longleftrightarrow> v_payload v \<noteq> []"

definition FillCommon :: "RtpView \<Rightarrow> H264ParsedPacket \<Rightarrow> H264ParsedPacket" where
  "FillCommon v out =
     out\<lparr>pk_ssrc := v_ssrc v, pk_seq := v_seq v, pk_timestamp := v_ts v, pk_marker := v_marker v,
         pk_receive_time_ms := v_receive_time_ms v\<rparr>"

text \<open>\<open>UpdateKeyInfo\<close> changes the unit and the packet.\<close>

definition UpdateKeyInfo :: "H264ParsedPacket \<Rightarrow> H264PayloadUnit \<Rightarrow> H264ParsedPacket \<times> H264PayloadUnit" where
  "UpdateKeyInfo out u =
     (let u = u\<lparr>is_sps := (nal_type u = nal_code Sps), is_pps := (nal_type u = nal_code Pps),
                is_idr := (nal_type u = nal_code Idr), is_key := H264IsKeyNaluType (nal_type u)\<rparr>
      in (out\<lparr>pk_has_sps := pk_has_sps out \<or> is_sps u, pk_has_pps := pk_has_pps out \<or> is_pps u,
              pk_has_idr := pk_has_idr out \<or> is_idr u, has_key_nalu := has_key_nalu out \<or> is_key u\<rparr>, u))"

text \<open>\<open>out.units.emplace_back(std::move(unit))\<close> after \<open>UpdateKeyInfo\<close>, as all three formats end.\<close>

definition push_unit :: "H264ParsedPacket \<Rightarrow> H264PayloadUnit \<Rightarrow> H264ParsedPacket" where
  "push_unit out u = (let (out, u) = UpdateKeyInfo out u in out\<lparr>units := units out @ [u]\<rparr>)"

definition malformed :: "H264ParsedPacket \<Rightarrow> (bool \<times> H264ParsedPacket) outcome" where
  "malformed out = Ok (False, out\<lparr>pk_malformed := True\<rparr>)"

definition is_slice :: "u8 \<Rightarrow> bool" where
  "is_slice t \<longleftrightarrow> t = 1 \<or> t = 5"

definition ParseSingleNalu :: "RtpView \<Rightarrow> H264ParsedPacket \<Rightarrow> (bool \<times> H264ParsedPacket) outcome" where
  "ParseSingleNalu v out =
     rd8 (v_payload v) 0 (\<lambda>h.
       let t = H264GetNalType h in
       if is_slice t \<and> length (v_payload v) < 2 then malformed out
       else bind_outcome (if is_slice t then rd8 (v_payload v) 1 (\<lambda>b. Ok (b AND 0x80 \<noteq> 0)) else Ok False) (\<lambda>first.
         Ok (True, (push_unit out (H264PayloadUnit_init\<lparr>unit_type := SingleNalu, nal_type := t, first_slice := first,
                      unit_data := v_payload v\<rparr>))
                   \<lparr>pk_valid := True, begins_frame := False, ends_frame := v_marker v\<rparr>)))"

text \<open>The loop over the aggregated units: success, the offset reached and the packet built so far.\<close>

function stap_loop :: "bytes \<Rightarrow> nat \<Rightarrow> H264ParsedPacket \<Rightarrow> (bool \<times> nat \<times> H264ParsedPacket) outcome" where
  "stap_loop p off out =
     (if off + 2 \<le> length p
      then rd8 p off (\<lambda>hi. rd8 p (off + 1) (\<lambda>lo.
        let nalu_size = unat (be16 hi lo); off2 = off + 2 in
        if nalu_size = 0 \<or> off2 + nalu_size > length p then Ok (False, off2, out\<lparr>pk_malformed := True\<rparr>)
        else rd8 p off2 (\<lambda>h.
          let t = H264GetNalType h in
          if h AND 0x80 \<noteq> 0 \<or> t = 0 \<or> t \<ge> 24 \<or> is_slice t \<and> nalu_size < 2
          then Ok (False, off2, out\<lparr>pk_malformed := True\<rparr>)
          else rd_slice p off2 nalu_size (\<lambda>d.
            bind_outcome (if is_slice t then rd8 p (off2 + 1) (\<lambda>b. Ok (b AND 0x80 \<noteq> 0)) else Ok False) (\<lambda>first.
              stap_loop p (off2 + nalu_size)
                (push_unit out (H264PayloadUnit_init\<lparr>unit_type := StapANalu, nal_type := t, unit_data := d,
                   first_slice := first\<rparr>)))))))
      else Ok (True, off, out))"
  by pat_completeness auto

termination
  by (relation "measure (\<lambda>(p, off, _). length p - off)") auto

declare stap_loop.simps [simp del]

definition ParseStapA :: "RtpView \<Rightarrow> H264ParsedPacket \<Rightarrow> (bool \<times> H264ParsedPacket) outcome" where
  "ParseStapA v out =
     bind_outcome (stap_loop (v_payload v) 1 out) (\<lambda>(ok, off, out).
       if \<not> ok then Ok (False, out)
       else if off \<noteq> length (v_payload v) \<or> units out = [] then malformed out
       else Ok (True, out\<lparr>pk_valid := True, ends_frame := v_marker v\<rparr>))"

definition ParseFuA :: "RtpView \<Rightarrow> H264ParsedPacket \<Rightarrow> (bool \<times> H264ParsedPacket) outcome" where
  "ParseFuA v out =
     (if length (v_payload v) < 3 then malformed out
      else rd8 (v_payload v) 0 (\<lambda>indicator. rd8 (v_payload v) 1 (\<lambda>header.
        let start = (header AND 0x80 \<noteq> 0); fin = (header AND 0x40 \<noteq> 0); t = header AND 0x1F in
        if header AND 0x20 \<noteq> 0 \<or> (start \<and> fin) \<or> t = 0 \<or> t \<ge> 24 then malformed out
        else bind_outcome
          (if start \<and> is_slice t then rd8 (v_payload v) 2 (\<lambda>b. Ok (b AND 0x80 \<noteq> 0)) else Ok False) (\<lambda>first.
          Ok (True, (push_unit out (H264PayloadUnit_init\<lparr>unit_type := FuAFragment, nal_type := t, fu_start := start,
                       fu_end := fin, reconstructed_nal_header := (indicator AND 0xE0) OR t, first_slice := first,
                       unit_data := drop 2 (v_payload v)\<rparr>))
                    \<lparr>pk_valid := True, begins_frame := start, ends_frame := (fin \<and> v_marker v)\<rparr>)))))"

definition H264_Parse :: "RtpView \<Rightarrow> H264ParsedPacket \<Rightarrow> (bool \<times> H264ParsedPacket) outcome" where
  "H264_Parse v out =
     (let out = FillCommon v (ParsedPacket_Reset out) in
      if \<not> view_valid v then malformed out
      else rd8 (v_payload v) 0 (\<lambda>nal_header.
        if nal_header AND 0x80 \<noteq> 0 then malformed out
        else let t = H264GetNalType nal_header in
          if 1 \<le> t \<and> t \<le> 23 then ParseSingleNalu v out
          else if t = nal_code StapA then ParseStapA v out
          else if t = nal_code FuA then ParseFuA v out
          else malformed out))"

section \<open>The in-order frame assembler\<close>

record frame_assembler =
  has_current :: bool
  asm_broken :: bool
  has_last_seq :: bool
  asm_last_seq :: u16
  current_frame :: H264AccessUnit
  ready_frames :: "H264AccessUnit list"

definition Assembler_init :: frame_assembler where
  "Assembler_init =
     \<lparr>has_current = False, asm_broken = False, has_last_seq = False, asm_last_seq = 0,
      current_frame = H264AccessUnit_init, ready_frames = []\<rparr>"

definition Assembler_Reset :: "frame_assembler \<Rightarrow> frame_assembler" where
  "Assembler_Reset a =
     a\<lparr>has_current := False, asm_broken := False, has_last_seq := False, asm_last_seq := 0,
       current_frame := H264AccessUnit_init, ready_frames := []\<rparr>"

definition Assembler_HasFrame :: "frame_assembler \<Rightarrow> bool" where
  "Assembler_HasFrame a \<longleftrightarrow> ready_frames a \<noteq> []"

definition Assembler_PopFrame :: "frame_assembler \<Rightarrow> H264AccessUnit option \<times> frame_assembler" where
  "Assembler_PopFrame a =
     (case ready_frames a of [] \<Rightarrow> (None, a) | f # fs \<Rightarrow> (Some f, a\<lparr>ready_frames := fs\<rparr>))"

definition IsSeqContinuous :: "u16 \<Rightarrow> u16 \<Rightarrow> bool" where
  "IsSeqContinuous prev cur \<longleftrightarrow> prev + 1 = cur"

definition FinishCurrentFrame :: "frame_assembler \<Rightarrow> bool \<times> frame_assembler" where
  "FinishCurrentFrame a =
     (let f = (current_frame a)\<lparr>au_marker := True, broken := asm_broken a,
                complete := (\<not> asm_broken a \<and> nalus (current_frame a) \<noteq> [])\<rparr>
      in (True, a\<lparr>ready_frames := ready_frames a @ (if complete f then [f] else []),
                  current_frame := H264AccessUnit_init, has_current := False, asm_broken := False,
                  has_last_seq := False, asm_last_seq := 0\<rparr>))"

definition AppendPacket :: "H264ParsedPacket \<Rightarrow> frame_assembler \<Rightarrow> bool \<times> frame_assembler" where
  "AppendPacket pk a =
     (let f = current_frame a;
          a = a\<lparr>asm_broken := asm_broken a \<or> (has_last_seq a \<and> \<not> IsSeqContinuous (asm_last_seq a) (pk_seq pk)),
                asm_last_seq := pk_seq pk, has_last_seq := True,
                current_frame := f\<lparr>last_seq := pk_seq pk, keyframe := keyframe f \<or> has_key_nalu pk,
                  au_has_sps := au_has_sps f \<or> pk_has_sps pk, au_has_pps := au_has_pps f \<or> pk_has_pps pk,
                  au_has_idr := au_has_idr f \<or> pk_has_idr pk,
                  nalus := nalus f @ map unit_data
                    (filter (\<lambda>u. unit_type u = SingleNalu \<or> unit_type u = StapANalu) (units pk))\<rparr>\<rparr>
      in if pk_marker pk then FinishCurrentFrame a else (True, a))"

definition StartNewFrame :: "H264ParsedPacket \<Rightarrow> frame_assembler \<Rightarrow> bool \<times> frame_assembler" where
  "StartNewFrame pk a =
     AppendPacket pk
       (a\<lparr>current_frame := H264AccessUnit_init\<lparr>au_ssrc := pk_ssrc pk, au_timestamp := pk_timestamp pk,
            first_seq := pk_seq pk, last_seq := pk_seq pk, au_marker := pk_marker pk, keyframe := has_key_nalu pk,
            au_has_sps := pk_has_sps pk, au_has_pps := pk_has_pps pk, au_has_idr := pk_has_idr pk\<rparr>,
          has_current := True, asm_broken := False, has_last_seq := False, asm_last_seq := 0\<rparr>)"

definition Assembler_Input :: "H264ParsedPacket \<Rightarrow> frame_assembler \<Rightarrow> bool \<times> frame_assembler" where
  "Assembler_Input pk a =
     (if \<not> pk_valid pk \<or> pk_malformed pk then (False, a)
      else if \<not> has_current a then StartNewFrame pk a
      else if pk_timestamp pk \<noteq> au_timestamp (current_frame a) \<or> pk_ssrc pk \<noteq> au_ssrc (current_frame a)
      then StartNewFrame pk
             (a\<lparr>has_current := False, asm_broken := False, has_last_seq := False,
                current_frame := H264AccessUnit_init\<rparr>)
      else AppendPacket pk a)"

section \<open>What the parser guarantees\<close>

declare add_2_eq_Suc [simp del] add_2_eq_Suc' [simp del]

text \<open>A unit of a valid packet, and a valid packet with its summary flags.\<close>

definition unit_ok :: "H264PayloadUnit \<Rightarrow> bool" where
  "unit_ok u \<longleftrightarrow>
     unit_data u \<noteq> [] \<and> 1 \<le> nal_type u \<and> nal_type u \<le> 23 \<and> unit_type u \<noteq> UnknownUnit \<and>
     (is_sps u \<longleftrightarrow> nal_type u = 7) \<and> (is_pps u \<longleftrightarrow> nal_type u = 8) \<and> (is_idr u \<longleftrightarrow> nal_type u = 5) \<and>
     (is_key u \<longleftrightarrow> nal_type u \<in> {5, 7, 8}) \<and>
     (unit_type u = FuAFragment \<longrightarrow> \<not> (fu_start u \<and> fu_end u)) \<and>
     (unit_type u \<noteq> FuAFragment \<longrightarrow> H264GetNalType (hd (unit_data u)) = nal_type u) \<and>
     (first_slice u \<longrightarrow> is_slice (nal_type u))"

definition flags_ok :: "H264ParsedPacket \<Rightarrow> bool" where
  "flags_ok pk \<longleftrightarrow>
     (\<forall>u \<in> set (units pk). unit_ok u) \<and>
     (pk_has_sps pk \<longleftrightarrow> (\<exists>u \<in> set (units pk). is_sps u)) \<and>
     (pk_has_pps pk \<longleftrightarrow> (\<exists>u \<in> set (units pk). is_pps u)) \<and>
     (pk_has_idr pk \<longleftrightarrow> (\<exists>u \<in> set (units pk). is_idr u)) \<and>
     (has_key_nalu pk \<longleftrightarrow> (\<exists>u \<in> set (units pk). is_key u))"

definition with_flags :: "H264PayloadUnit \<Rightarrow> H264PayloadUnit" where
  "with_flags u = snd (UpdateKeyInfo H264ParsedPacket_init u)"

lemma units_push_unit [simp]: "units (push_unit out u) = units out @ [with_flags u]"
  by (simp add: push_unit_def with_flags_def UpdateKeyInfo_def Let_def)

lemma with_flags_simps [simp]:
  "unit_type (with_flags u) = unit_type u" "nal_type (with_flags u) = nal_type u"
  "unit_data (with_flags u) = unit_data u" "fu_start (with_flags u) = fu_start u"
  "fu_end (with_flags u) = fu_end u" "reconstructed_nal_header (with_flags u) = reconstructed_nal_header u"
  "first_slice (with_flags u) = first_slice u"
  by (simp_all add: with_flags_def UpdateKeyInfo_def Let_def)

lemma push_unit_frame [simp]:
  "pk_valid (push_unit out u) = pk_valid out" "pk_malformed (push_unit out u) = pk_malformed out"
  "pk_ssrc (push_unit out u) = pk_ssrc out" "pk_seq (push_unit out u) = pk_seq out"
  "pk_timestamp (push_unit out u) = pk_timestamp out" "pk_marker (push_unit out u) = pk_marker out"
  "pk_receive_time_ms (push_unit out u) = pk_receive_time_ms out"
  by (simp_all add: push_unit_def UpdateKeyInfo_def Let_def)

lemma flags_ok_push:
  assumes "flags_ok out" "unit_ok (with_flags u)"
  shows "flags_ok (push_unit out u)"
  using assms by (auto simp: flags_ok_def push_unit_def with_flags_def UpdateKeyInfo_def Let_def)

lemma flags_ok_update [simp]:
  "flags_ok (out\<lparr>pk_valid := a\<rparr>) = flags_ok out" "flags_ok (out\<lparr>begins_frame := a\<rparr>) = flags_ok out"
  "flags_ok (out\<lparr>ends_frame := a\<rparr>) = flags_ok out" "flags_ok (out\<lparr>pk_malformed := a\<rparr>) = flags_ok out"
  by (simp_all add: flags_ok_def)

lemma unit_ok_with_flags:
  "unit_ok (with_flags u) \<longleftrightarrow>
     unit_data u \<noteq> [] \<and> 1 \<le> nal_type u \<and> nal_type u \<le> 23 \<and> unit_type u \<noteq> UnknownUnit \<and>
     (unit_type u = FuAFragment \<longrightarrow> \<not> (fu_start u \<and> fu_end u)) \<and>
     (unit_type u \<noteq> FuAFragment \<longrightarrow> H264GetNalType (hd (unit_data u)) = nal_type u) \<and>
     (first_slice u \<longrightarrow> is_slice (nal_type u))"
  by (auto simp: unit_ok_def with_flags_def UpdateKeyInfo_def Let_def H264IsKeyNaluType_def)

lemma nal_type_range:
  assumes "t \<noteq> (0 :: u8)" "\<not> 24 \<le> t"
  shows "1 \<le> t \<and> t \<le> 23"
proof -
  have "0 < unat t"
    using assms(1) by (simp add: unat_gt_0)
  then show ?thesis
    using assms(2) by (simp add: word_le_nat_alt)
qed

lemma hd_slice: "off < length p \<Longrightarrow> 0 < n \<Longrightarrow> hd (slice p off n) = p ! off"
  by (cases n) (auto simp: slice_def hd_drop_conv_nth)

text \<open>
  Every call of the parser returns a verdict and a packet: \<open>verdict v r\<close> says what both guarantee.
\<close>

definition same_origin :: "H264ParsedPacket \<Rightarrow> H264ParsedPacket \<Rightarrow> bool" where
  "same_origin a b \<longleftrightarrow>
     pk_ssrc a = pk_ssrc b \<and> pk_seq a = pk_seq b \<and> pk_timestamp a = pk_timestamp b \<and>
     pk_marker a = pk_marker b \<and> pk_receive_time_ms a = pk_receive_time_ms b"

definition verdict :: "H264ParsedPacket \<Rightarrow> (bool \<times> H264ParsedPacket) outcome \<Rightarrow> bool" where
  "verdict out0 r \<longleftrightarrow>
     (case r of
        Ok (ok, pk) \<Rightarrow> (ok \<longleftrightarrow> pk_valid pk) \<and> (ok \<longleftrightarrow> \<not> pk_malformed pk) \<and> same_origin pk out0 \<and>
          (ok \<longrightarrow> units pk \<noteq> [] \<and> flags_ok pk)
      | _ \<Rightarrow> False)"

definition fresh :: "H264ParsedPacket \<Rightarrow> bool" where
  "fresh out \<longleftrightarrow> \<not> pk_valid out \<and> \<not> pk_malformed out \<and> flags_ok out"

lemma verdict_malformed: "fresh out \<Longrightarrow> same_origin out out0 \<Longrightarrow> verdict out0 (malformed out)"
  by (simp add: verdict_def malformed_def fresh_def same_origin_def)

lemma verdict_pushed:
  assumes "fresh out" "same_origin out out0" "unit_ok (with_flags u)"
  shows "verdict out0 (Ok (True, (push_unit out u)\<lparr>pk_valid := True, begins_frame := b, ends_frame := e\<rparr>))"
  using assms flags_ok_push [of out u] by (simp add: verdict_def fresh_def same_origin_def)

lemma ParseSingleNalu_verdict:
  assumes "fresh out" "view_valid v" "1 \<le> H264GetNalType (v_payload v ! 0)" "H264GetNalType (v_payload v ! 0) \<le> 23"
  shows "verdict out (ParseSingleNalu v out)"
proof -
  have o: "same_origin out out"
    by (simp add: same_origin_def)
  have "unit_ok (with_flags (H264PayloadUnit_init\<lparr>unit_type := SingleNalu,
      nal_type := H264GetNalType (v_payload v ! 0), first_slice := f, unit_data := v_payload v\<rparr>))"
    if "f \<longrightarrow> is_slice (H264GetNalType (v_payload v ! 0))" for f
    using assms(2-4) that by (simp add: unit_ok_with_flags view_valid_def hd_conv_nth)
  note u = verdict_pushed [OF assms(1) o this]
  show ?thesis
    using assms(2) verdict_malformed [OF assms(1) o]
    by (auto simp: ParseSingleNalu_def view_valid_def Let_def intro: u)
qed

text \<open>One aggregated unit, and the ways it is refused.\<close>

definition stap_unit :: "bytes \<Rightarrow> H264PayloadUnit" where
  "stap_unit d =
     H264PayloadUnit_init\<lparr>unit_type := StapANalu, nal_type := H264GetNalType (hd d), unit_data := d,
       first_slice := (is_slice (H264GetNalType (hd d)) \<and> d ! 1 AND 0x80 \<noteq> 0)\<rparr>"

definition nalu_ok :: "bytes \<Rightarrow> bool" where
  "nalu_ok d \<longleftrightarrow>
     d \<noteq> [] \<and> hd d AND 0x80 = 0 \<and> H264GetNalType (hd d) \<noteq> 0 \<and> \<not> 24 \<le> H264GetNalType (hd d) \<and>
     (is_slice (H264GetNalType (hd d)) \<longrightarrow> 2 \<le> length d)"

lemma unit_ok_stap: "nalu_ok d \<Longrightarrow> unit_ok (with_flags (stap_unit d))"
  using nal_type_range [of "H264GetNalType (hd d)"]
  by (simp add: unit_ok_with_flags stap_unit_def nalu_ok_def)

lemma stap_loop_step:
  assumes "off + 2 \<le> length p" "n = unat (be16 (p ! off) (p ! (off + 1)))" "off + 2 + n \<le> length p"
    and "nalu_ok (slice p (off + 2) n)"
  shows "stap_loop p off out = stap_loop p (off + 2 + n) (push_unit out (stap_unit (slice p (off + 2) n)))"
proof -
  let ?d = "slice p (off + 2) n"
  have n: "0 < n"
    using assms(4) by (cases n) (auto simp: nalu_ok_def slice_def)
  have h: "p ! (off + 2) = hd ?d"
    using n assms(3) by (simp add: hd_slice)
  have "1 < n \<Longrightarrow> ?d ! 1 = p ! (3 + off)"
    using assms(3) by (simp add: slice_def numeral_3_eq_3 add_2_eq_Suc')
  then show ?thesis
    using assms n
    by (subst stap_loop.simps) (auto simp: Let_def h nalu_ok_def stap_unit_def)
qed

lemma stap_loop_cases:
  obtains (finished) "\<not> off + 2 \<le> length p" "stap_loop p off out = Ok (True, off, out)"
  | (bad) off2 where "stap_loop p off out = Ok (False, off2, out\<lparr>pk_malformed := True\<rparr>)"
  | (step) n where "off + 2 \<le> length p" "off + 2 + n \<le> length p" "nalu_ok (slice p (off + 2) n)"
      "stap_loop p off out = stap_loop p (off + 2 + n) (push_unit out (stap_unit (slice p (off + 2) n)))"
proof (cases "off + 2 \<le> length p")
  case False
  then show ?thesis
    by (intro finished) (simp_all add: stap_loop.simps [of p off])
next
  case l: True
  define n where "n = unat (be16 (p ! off) (p ! (off + 1)))"
  show ?thesis
  proof (cases "off + 2 + n \<le> length p \<and> nalu_ok (slice p (off + 2) n)")
    case True
    then show ?thesis
      using stap_loop_step [OF l n_def] l by (intro step [of n]) simp_all
  next
    case False
    let ?t = "H264GetNalType (p ! (off + 2))"
    have "n = 0 \<or> off + 2 + n > length p \<or>
        (p ! (off + 2) AND 0x80 \<noteq> 0 \<or> ?t = 0 \<or> ?t \<ge> 24 \<or> is_slice ?t \<and> n < 2)"
      using False hd_slice [of "off + 2" p n] by (auto simp: nalu_ok_def slice_def not_less)
    then show ?thesis
      using l by (intro bad [of "off + 2"], subst stap_loop.simps) (auto simp: Let_def n_def)
  qed
qed

lemma stap_loop_verdict:
  assumes "fresh out"
  shows "case stap_loop p off out of
      Ok (ok, off', out') \<Rightarrow> same_origin out' out \<and> \<not> pk_valid out' \<and> (ok \<longleftrightarrow> \<not> pk_malformed out') \<and>
        (ok \<longrightarrow> flags_ok out')
    | _ \<Rightarrow> False"
  using assms
proof (induction "length p - off" arbitrary: off out rule: less_induct)
  case less
  show ?case
  proof (cases rule: stap_loop_cases [of off p out])
    case finished
    then show ?thesis
      using less.prems by (simp add: fresh_def same_origin_def)
  next
    case (bad off2)
    then show ?thesis
      using less.prems by (simp add: fresh_def same_origin_def)
  next
    case (step n)
    let ?out = "push_unit out (stap_unit (slice p (off + 2) n))"
    have "fresh ?out"
      using less.prems flags_ok_push [OF _ unit_ok_stap [OF step(3)]] by (simp add: fresh_def)
    moreover have "length p - (off + 2 + n) < length p - off"
      using step(2) by linarith
    ultimately show ?thesis
      using less.hyps [of "off + 2 + n" ?out]
      by (auto simp: step(4) same_origin_def split: outcome.splits)
  qed
qed

lemma ParseStapA_verdict:
  assumes "fresh out"
  shows "verdict out (ParseStapA v out)"
proof -
  obtain ok off out' where s: "stap_loop (v_payload v) 1 out = Ok (ok, off, out')" and "same_origin out' out"
    "\<not> pk_valid out'" "ok \<longleftrightarrow> \<not> pk_malformed out'" "ok \<longrightarrow> flags_ok out'"
    using stap_loop_verdict [OF assms, of "v_payload v" 1] by (auto split: outcome.splits)
  then show ?thesis
    unfolding ParseStapA_def s by (simp add: verdict_def malformed_def same_origin_def)
qed

lemma ParseFuA_verdict:
  assumes "fresh out"
  shows "verdict out (ParseFuA v out)"
proof -
  have o: "same_origin out out"
    by (simp add: same_origin_def)
  show ?thesis
  proof (cases "length (v_payload v) < 3")
    case True
    then show ?thesis
      using verdict_malformed [OF assms o] by (simp add: ParseFuA_def)
  next
    case l: False
    then have "v_payload v \<noteq> []" "2 < length (v_payload v)" "1 < length (v_payload v)"
      by auto
    then show ?thesis
      using verdict_malformed [OF assms o] l nal_type_range [of "v_payload v ! 1 AND 0x1F"]
      by (auto simp: ParseFuA_def Let_def unit_ok_with_flags intro!: verdict_pushed [OF assms o])
  qed
qed

lemma H264_Parse_verdict: "verdict (FillCommon v H264ParsedPacket_init) (H264_Parse v out)"
proof -
  let ?out = "FillCommon v H264ParsedPacket_init"
  have f: "fresh ?out" and o: "same_origin ?out ?out"
    by (simp_all add: fresh_def FillCommon_def H264ParsedPacket_init_def flags_ok_def same_origin_def)
  show ?thesis
    using ParseSingleNalu_verdict [OF f, of v] ParseStapA_verdict [OF f, of v] ParseFuA_verdict [OF f, of v]
      verdict_malformed [OF f o]
    by (auto simp: H264_Parse_def ParsedPacket_Reset_def view_valid_def Let_def)
qed

section \<open>Aggregates and fragments read back\<close>

text \<open>The wire formats of RFC 6184, sections 5.7.1 and 5.8, as a sender writes them.\<close>

definition stap_payload :: "u8 \<Rightarrow> bytes list \<Rightarrow> bytes" where
  "stap_payload h ns = h # concat (map (\<lambda>n. enc16 (of_nat (length n)) @ n) ns)"

definition fu_payload :: "u8 \<Rightarrow> bool \<Rightarrow> bool \<Rightarrow> bytes \<Rightarrow> bytes" where
  "fu_payload h start fin c =
     ((h AND 0xE0) OR 28) # ((if start then 0x80 else 0) OR (if fin then 0x40 else 0) OR (h AND 0x1F)) # c"

lemma stap_loop_all:
  assumes "\<forall>n \<in> set ns. nalu_ok n \<and> length n < 65536"
    and "p = pre @ concat (map (\<lambda>n. enc16 (of_nat (length n)) @ n) ns)"
  shows "stap_loop p (length pre) out = Ok (True, length p, foldl (\<lambda>k n. push_unit k (stap_unit n)) out ns)"
  using assms
proof (induction ns arbitrary: pre out)
  case Nil
  then show ?case
    by (simp add: stap_loop.simps [of pre])
next
  case (Cons n ns)
  let ?pre = "pre @ enc16 (of_nat (length n)) @ n"
  have len: "unat (of_nat (length n) :: u16) = length n"
    using Cons.prems(1) by (simp add: unat_of_nat16)
  have p: "p = ?pre @ concat (map (\<lambda>n. enc16 (of_nat (length n)) @ n) ns)"
    using Cons.prems(2) by simp
  have hd: "p ! length pre = ucast (drop_bit 8 (of_nat (length n) :: u16))"
    and lo: "p ! (length pre + 1) = ucast (of_nat (length n) :: u16)"
    and sl: "slice p (length pre + 2) (length n) = n"
    and l: "length pre + 2 + length n \<le> length p"
    by (simp_all add: p enc16_def nth_append slice_def)
  have "stap_loop p (length pre) out = stap_loop p (length pre + 2 + length n) (push_unit out (stap_unit n))"
    using Cons.prems(1) l stap_loop_step [of "length pre" p "length n" out, unfolded sl hd lo be16_parts len]
    by simp
  also have "length pre + 2 + length n = length ?pre"
    by simp
  finally show ?case
    using Cons.IH [OF _ p] Cons.prems(1) by simp
qed

lemma units_fold_push:
  "units (foldl (\<lambda>k n. push_unit k (stap_unit n)) out ns) = units out @ map (with_flags \<circ> stap_unit) ns"
  by (induction ns arbitrary: out) auto

text \<open>
  C27: an aggregation packet is read back exactly: for every non-empty list of NAL units of admissible
  types the parser accepts the STAP-A packet carrying them and returns these units, unchanged and in
  order; the marker bit alone decides whether the packet ends its frame.
\<close>
theorem H264_stap_roundtrip:
  assumes "ns \<noteq> []" "\<forall>n \<in> set ns. nalu_ok n \<and> length n < 65536"
    and "v_payload v = stap_payload h ns" "H264GetNalType h = 24" "h AND 0x80 = 0"
  shows "\<exists>pk. H264_Parse v out = Ok (True, pk) \<and> map unit_data (units pk) = ns \<and> pk_seq pk = v_seq v \<and>
    ends_frame pk = v_marker v"
proof -
  let ?o = "FillCommon v H264ParsedPacket_init"
  have o: "units ?o = []" "pk_seq ?o = v_seq v" and d: "unit_data (stap_unit n) = n" for n
    by (simp_all add: FillCommon_def H264ParsedPacket_init_def stap_unit_def)
  have "stap_loop (v_payload v) (length [h]) ?o =
      Ok (True, length (v_payload v), foldl (\<lambda>k n. push_unit k (stap_unit n)) ?o ns)"
    by (rule stap_loop_all [OF assms(2)]) (simp add: assms(3) stap_payload_def)
  moreover have "pk_seq (foldl (\<lambda>k n. push_unit k (stap_unit n)) out' ns) = pk_seq out'" for out'
    by (induction ns arbitrary: out') auto
  ultimately show ?thesis
    using assms(1,3,4,5)
    by (simp add: H264_Parse_def ParsedPacket_Reset_def view_valid_def stap_payload_def ParseStapA_def
        units_fold_push o d comp_def)
qed

theorem H264_stap_roundtrip_witness:
  "\<exists>pk. H264_Parse \<lparr>v_seq = 7, v_ts = 0, v_marker = True, v_payload = [0x78, 0, 2, 0x67, 0x42, 0, 1, 0x68], v_ssrc = 1,
      v_receive_time_ms = 0\<rparr> H264ParsedPacket_init = Ok (True, pk) \<and> map unit_data (units pk) = [[0x67, 0x42], [0x68]]"
proof -
  let ?v = "\<lparr>v_seq = 7, v_ts = 0, v_marker = True, v_payload = [0x78, 0, 2, 0x67, 0x42, 0, 1, 0x68], v_ssrc = 1,
      v_receive_time_ms = 0\<rparr>"
  have "\<exists>pk. H264_Parse ?v H264ParsedPacket_init = Ok (True, pk) \<and> map unit_data (units pk) = [[0x67, 0x42], [0x68]] \<and>
      pk_seq pk = v_seq ?v \<and> ends_frame pk = v_marker ?v"
    by (rule H264_stap_roundtrip [where h = "0x78"])
      (simp_all add: nalu_ok_def H264GetNalType_def is_slice_def stap_payload_def enc16_def)
  then show ?thesis
    by (elim exE conjE, intro exI conjI)
qed

text \<open>The unit a fragment carries.\<close>

definition fu_unit :: "u8 \<Rightarrow> bool \<Rightarrow> bool \<Rightarrow> bytes \<Rightarrow> H264PayloadUnit" where
  "fu_unit h start fin c =
     with_flags (H264PayloadUnit_init\<lparr>unit_type := FuAFragment, nal_type := h AND 0x1F, fu_start := start, fu_end := fin,
       reconstructed_nal_header := h, first_slice := (start \<and> is_slice (h AND 0x1F) \<and> hd c AND 0x80 \<noteq> 0),
       unit_data := c\<rparr>)"

lemma fu_bits:
  fixes h :: u8
  shows "((h AND 0xE0) OR 28) AND 0x80 = h AND 0x80" "((h AND 0xE0) OR 28) AND 0x1F = 28"
    "(((h AND 0xE0) OR 28) AND 0xE0) OR (h AND 0x1F) = h"
    "((if start then 0x80 else 0) OR (if fin then 0x40 else 0) OR (h AND 0x1F)) AND 0x80 = (if start then 0x80 else 0)"
    "((if start then 0x80 else 0) OR (if fin then 0x40 else 0) OR (h AND 0x1F)) AND 0x40 = (if fin then 0x40 else 0)"
    "((if start then 0x80 else 0) OR (if fin then 0x40 else 0) OR (h AND 0x1F)) AND 0x20 = 0"
    "((if start then 0x80 else 0) OR (if fin then 0x40 else 0) OR (h AND 0x1F)) AND 0x1F = h AND 0x1F"
proof -
  have "(h AND 0xE0) OR (h AND 0x1F) = h AND (0xE0 OR 0x1F)"
    by (simp only: bit.conj_disj_distrib)
  also have "\<dots> = h"
    by (simp add: and_255 take_bit_word_eq_self)
  finally show "(((h AND 0xE0) OR 28) AND 0xE0) OR (h AND 0x1F) = h"
    by (simp add: bit.conj_disj_distrib2 and.assoc)
qed (simp_all add: bit.conj_disj_distrib2 and.assoc)

lemma H264_Parse_fragment:
  assumes "v_payload v = fu_payload h start fin c" "c \<noteq> []" "\<not> (start \<and> fin)" "h AND 0x80 = 0"
    and "h AND 0x1F \<noteq> 0" "\<not> 24 \<le> h AND 0x1F"
  shows "\<exists>pk. H264_Parse v out = Ok (True, pk) \<and> units pk = [fu_unit h start fin c]"
  using assms
  by (cases c)
    (auto simp: H264_Parse_def ParsedPacket_Reset_def view_valid_def fu_payload_def ParseFuA_def Let_def
      H264GetNalType_def fu_bits fu_unit_def FillCommon_def H264ParsedPacket_init_def)

text \<open>
  C28: the payload parser is total and never reads outside the payload.  Its return value says exactly
  whether the packet is marked valid and whether it is marked malformed; the packet always carries
  the source's header fields; and an accepted packet has at least one unit, every unit is non-empty
  and of type 1 to 23, and the packet's summary flags are those of its units.
\<close>
theorem H264_Parse_total:
  "case H264_Parse v out of
     Ok (ok, pk) \<Rightarrow> (ok \<longleftrightarrow> pk_valid pk) \<and> (ok \<longleftrightarrow> \<not> pk_malformed pk) \<and>
       same_origin pk (FillCommon v H264ParsedPacket_init) \<and> (ok \<longrightarrow> units pk \<noteq> [] \<and> flags_ok pk)
   | _ \<Rightarrow> False"
  using H264_Parse_verdict [of v out] by (simp add: verdict_def)

theorem H264_Parse_total_witness:
  "\<exists>pk. H264_Parse \<lparr>v_seq = 7, v_ts = 0, v_marker = True, v_payload = [0x65, 0x88], v_ssrc = 1,
      v_receive_time_ms = 0\<rparr> H264ParsedPacket_init = Ok (True, pk) \<and> pk_has_idr pk \<and> units pk \<noteq> [] \<and> flags_ok pk"
proof -
  let ?v = "\<lparr>v_seq = 7, v_ts = 0, v_marker = True, v_payload = [0x65, 0x88], v_ssrc = 1, v_receive_time_ms = 0\<rparr>"
  have "(case H264_Parse ?v H264ParsedPacket_init of Ok (ok, pk) \<Rightarrow> ok \<and> pk_has_idr pk | _ \<Rightarrow> False)"
    by code_simp
  then show ?thesis
    using H264_Parse_total [of ?v H264ParsedPacket_init] by (auto split: outcome.splits)
qed

text \<open>
  \<open>RtpFrameAssembler\<close> keeps only whole NAL units: a frame whose slice arrives in FU-A fragments is handed
  out as complete without the slice.
\<close>
lemma Assembler_loses_fragments:
  "let pk = (\<lambda>s m u. H264ParsedPacket_init\<lparr>pk_valid := True, pk_seq := s, pk_marker := m, units := [u]\<rparr>);
       sps = H264PayloadUnit_init\<lparr>unit_type := SingleNalu, unit_data := [0x67]\<rparr>;
       a1 = snd (Assembler_Input (pk 1 False sps) Assembler_init);
       a2 = snd (Assembler_Input (pk 2 False (fu_unit 0x65 True False [0x88])) a1);
       a3 = snd (Assembler_Input (pk 3 True (fu_unit 0x65 False True [0x11])) a2)
   in map (\<lambda>f. (complete f, nalus f)) (ready_frames a3) = [(True, [[0x67]])]"
  by code_simp

end
