(* ===== verification/H264_Packet_Buffer.thy ===== *)
theory H264_Packet_Buffer
  imports H264_Payload Sequence_Unwrap "HOL-Library.Multiset"
begin

text \<open>
  The jitter buffer for H.264 (\<open>H264PacketBuffer\<close> of \<open>src/Common/Depacketizer/H26xPacketBuffer.cpp\<close>): a ring
  of 2048 slots indexed by extended sequence number, from which complete access units are assembled.
  The array of owning pointers is an ordered map from the index of an occupied slot to its packet, so
  a sweep over the array visits the occupied slots in index order.  A packet's iterator into the
  arrivals multimap is the time it was entered under; together with its sequence number it identifies
  the entry.  Dereferencing a null packet pointer is \<open>Fault\<close>.  \<open>AppendPacketUnits\<close> moves the payloads out
  of packets that are removed before the insertion returns, so the moved-from state is not kept.
\<close>

section \<open>State\<close>

record h264_config =
  max_frame_packets :: nat
  idr_only_keyframes_allowed :: bool
  max_wait_ms :: nat

definition h264_config_default :: h264_config where
  "h264_config_default = \<lparr>max_frame_packets = 512, idr_only_keyframes_allowed = True, max_wait_ms = 100\<rparr>"

record InsertResult =
  inserted :: bool
  ir_duplicate :: bool
  ir_late :: bool
  buffer_collision :: bool
  expired_packets :: nat
  ir_frames :: "H264AccessUnit list"

definition InsertResult_init :: InsertResult where
  "InsertResult_init =
     \<lparr>inserted = False, ir_duplicate = False, ir_late = False, buffer_collision = False, expired_packets = 0,
      ir_frames = []\<rparr>"

record BufferedPacket =
  bp_seq :: int
  bp_packet :: H264ParsedPacket
  bp_arrival :: int

record h264_buffer =
  hb_config :: h264_config
  slots :: "(nat, BufferedPacket) omap"
  arrivals :: "(int \<times> int) list"
  hb_unwrapper :: seq_unwrapper
  last_continuous_seq :: "int option"
  last_continuous_timestamp :: "u32 option"
  current_frame_start :: "int option"
  current_frame_timestamp :: u32
  discarding_frame :: bool
  waiting_for_recovery :: bool
  buffered_packet_count :: nat

definition kBufferSize :: nat where
  "kBufferSize = 2048"

definition H264Buffer_new :: "h264_config \<Rightarrow> h264_buffer" where
  "H264Buffer_new c =
     \<lparr>hb_config =
        (if max_frame_packets c = 0 \<or> max_frame_packets c > kBufferSize then c\<lparr>max_frame_packets := kBufferSize\<rparr> else c),
      slots = [], arrivals = [], hb_unwrapper = Unwrapper_init, last_continuous_seq = None,
      last_continuous_timestamp = None, current_frame_start = None, current_frame_timestamp = 0,
      discarding_frame = False, waiting_for_recovery = False, buffered_packet_count = 0\<rparr>"

section \<open>The ring\<close>

definition BufferIndex :: "int \<Rightarrow> nat" where
  "BufferIndex s = nat (s mod int kBufferSize)"

definition GetPacket :: "int \<Rightarrow> h264_buffer \<Rightarrow> BufferedPacket option" where
  "GetPacket s b =
     (case map_of (slots b) (BufferIndex s) of
        None \<Rightarrow> None
      | Some p \<Rightarrow> if bp_seq p = s then Some p else None)"

text \<open>\<open>std::multimap::emplace\<close> enters after the entries with an equal key.\<close>

fun mm_emplace :: "int \<Rightarrow> 'v \<Rightarrow> (int \<times> 'v) list \<Rightarrow> (int \<times> 'v) list" where
  "mm_emplace k v [] = [(k, v)]"
| "mm_emplace k v ((k', v') # m) = (if k < k' then (k, v) # (k', v') # m else (k', v') # mm_emplace k v m)"

text \<open>\<open>ErasePacket\<close> on the occupied slot \<open>i\<close>.\<close>

definition ErasePacket :: "nat \<Rightarrow> h264_buffer \<Rightarrow> h264_buffer" where
  "ErasePacket i b =
     (case map_of (slots b) i of
        None \<Rightarrow> b
      | Some p \<Rightarrow> b\<lparr>arrivals := remove1 (bp_arrival p, bp_seq p) (arrivals b), slots := omap_erase i (slots b),
                    buffered_packet_count := buffered_packet_count b - 1\<rparr>)"

text \<open>A sweep over the whole array erasing the packets that satisfy a condition.\<close>

definition sweep :: "(BufferedPacket \<Rightarrow> bool) \<Rightarrow> h264_buffer \<Rightarrow> h264_buffer" where
  "sweep P b = fold (\<lambda>(i, p) b. if P p then ErasePacket i b else b) (slots b) b"

definition RemovePackets :: "int \<Rightarrow> int \<Rightarrow> h264_buffer \<Rightarrow> h264_buffer" where
  "RemovePackets s e b =
     (if e - s \<ge> int kBufferSize then sweep (\<lambda>p. s \<le> bp_seq p \<and> bp_seq p \<le> e) b
      else fold (\<lambda>x b. if GetPacket x b \<noteq> None then ErasePacket (BufferIndex x) b else b) [s..e] b)"

definition RemovePacketsBefore :: "int \<Rightarrow> h264_buffer \<Rightarrow> h264_buffer" where
  "RemovePacketsBefore s b = sweep (\<lambda>p. bp_seq p < s) b"

definition DropCurrentFrame :: "int \<Rightarrow> h264_buffer \<Rightarrow> h264_buffer" where
  "DropCurrentFrame e b =
     (let b = (case current_frame_start b of None \<Rightarrow> b | Some s \<Rightarrow> RemovePackets s e b)
      in b\<lparr>current_frame_start := None, discarding_frame := False\<rparr>)"

definition ClearInternal :: "h264_buffer \<Rightarrow> h264_buffer" where
  "ClearInternal b =
     b\<lparr>slots := [], arrivals := [], last_continuous_seq := None, last_continuous_timestamp := None,
       current_frame_start := None, current_frame_timestamp := 0, discarding_frame := False,
       waiting_for_recovery := False, buffered_packet_count := 0\<rparr>"

definition H264Buffer_Reset :: "h264_buffer \<Rightarrow> h264_buffer" where
  "H264Buffer_Reset b = (ClearInternal b)\<lparr>hb_unwrapper := Unwrapper_Reset (hb_unwrapper b)\<rparr>"

section \<open>Expiry\<close>

text \<open>The highest sequence number seen, with its timestamp, over the arrivals.\<close>

fun floor_loop :: "h264_buffer \<Rightarrow> (int \<times> int) list \<Rightarrow> int option \<times> u32 option \<Rightarrow> (int option \<times> u32 option) outcome" where
  "floor_loop b [] acc = Ok acc"
| "floor_loop b ((t, s) # es) (floor, ts) =
     (if (case floor of None \<Rightarrow> True | Some f \<Rightarrow> s \<ge> f)
      then (case GetPacket s b of
              None \<Rightarrow> Fault
            | Some p \<Rightarrow> floor_loop b es (Some s, Some (pk_timestamp (bp_packet p))))
      else floor_loop b es (floor, ts))"

definition H264_FlushExpired :: "int \<Rightarrow> h264_buffer \<Rightarrow> (nat \<times> h264_buffer) outcome" where
  "H264_FlushExpired now b =
     (case arrivals b of
        [] \<Rightarrow> Ok (0, b)
      | (oldest, _) # _ \<Rightarrow>
          if now < oldest \<or> now - oldest < ms (max_wait_ms (hb_config b)) then Ok (0, b)
          else bind_outcome
            (floor_loop b (arrivals b) (last_continuous_seq b, last_continuous_timestamp b)) (\<lambda>(floor, ts).
            Ok (buffered_packet_count b,
                (ClearInternal b)\<lparr>last_continuous_seq := floor, last_continuous_timestamp := ts,
                  waiting_for_recovery := True\<rparr>)))"

section \<open>Assembly\<close>

definition BeginningOfStream :: "h264_buffer \<Rightarrow> H264ParsedPacket \<Rightarrow> bool" where
  "BeginningOfStream b pk =
     list_ex (\<lambda>u. \<not> (unit_type u = FuAFragment \<and> \<not> fu_start u) \<and>
                  (is_sps u \<or> (idr_only_keyframes_allowed (hb_config b) \<and> is_idr u \<and> first_slice u))) (units pk)"

definition CanAdvanceFrom :: "int \<Rightarrow> H264ParsedPacket \<Rightarrow> h264_buffer \<Rightarrow> bool \<times> h264_buffer" where
  "CanAdvanceFrom s pk b =
     (let recover =
            (if \<not> BeginningOfStream b pk then (False, b)
             else (True, (RemovePacketsBefore s b)\<lparr>current_frame_start := None, discarding_frame := False,
                            last_continuous_seq := Some (s - 1), waiting_for_recovery := False\<rparr>))
      in case last_continuous_seq b of
           None \<Rightarrow> recover
         | Some l \<Rightarrow>
             if s \<le> l then (False, b)
             else if \<not> waiting_for_recovery b \<and> s = l + 1 then (True, b)
             else if last_continuous_timestamp b = Some (pk_timestamp pk) then (False, b)
             else recover)"

text \<open>\<open>ValidatePacketUnits\<close>: the header of the open fragmented unit is threaded through; \<open>None\<close> is failure.\<close>

fun ValidateUnits :: "H264PayloadUnit list \<Rightarrow> u8 option \<Rightarrow> u8 option option" where
  "ValidateUnits [] fu = Some fu"
| "ValidateUnits (u # us) fu =
     (if unit_type u = SingleNalu \<or> unit_type u = StapANalu
      then if fu \<noteq> None \<or> unit_data u = [] then None else ValidateUnits us fu
      else if unit_type u \<noteq> FuAFragment \<or> unit_data u = [] then None
      else if fu_start u \<and> fu \<noteq> None then None
      else if \<not> fu_start u \<and> fu = None then None
      else let h = (if fu_start u then Some (reconstructed_nal_header u) else fu) in
           if h \<noteq> Some (reconstructed_nal_header u) then None
           else ValidateUnits us (if fu_end u then None else h))"

text \<open>\<open>AppendPacketUnits\<close>: the open flag, the unit under construction and the finished ones.\<close>

fun AppendUnits :: "H264PayloadUnit list \<Rightarrow> bool \<times> bytes \<times> bytes list \<Rightarrow> (bool \<times> bytes \<times> bytes list) option" where
  "AppendUnits [] acc = Some acc"
| "AppendUnits (u # us) (active, fu, ns) =
     (if unit_type u = SingleNalu \<or> unit_type u = StapANalu
      then if active \<or> unit_data u = [] then None else AppendUnits us (active, fu, ns @ [unit_data u])
      else if unit_type u \<noteq> FuAFragment \<or> unit_data u = [] then None
      else if fu_start u \<and> active then None
      else if \<not> fu_start u \<and> \<not> active then None
      else let fu = (if fu_start u then [reconstructed_nal_header u] else fu) in
           if hd fu \<noteq> reconstructed_nal_header u then None
           else let fu = fu @ unit_data u in
                if fu_end u then AppendUnits us (False, [], ns @ [fu])
                else AppendUnits us (True, fu, ns))"

text \<open>The first slice of a picture must be its first slice: \<open>saw_vcl\<close> threaded over the units.\<close>

fun first_slice_seen :: "H264PayloadUnit list \<Rightarrow> bool \<Rightarrow> bool option" where
  "first_slice_seen [] saw = Some saw"
| "first_slice_seen (u # us) saw =
     (if \<not> saw \<and> (nal_type u = 1 \<or> nal_type u = 5)
      then if first_slice u then first_slice_seen us True else None
      else first_slice_seen us saw)"

text \<open>The validating pass over the packets: the frame with its summary, the open fragment, \<open>saw_vcl\<close>.\<close>

fun scan_packets :: "h264_buffer \<Rightarrow> int list \<Rightarrow> H264AccessUnit \<Rightarrow> u8 option \<Rightarrow> bool \<Rightarrow> (H264AccessUnit \<times> u8 option) option" where
  "scan_packets b [] frame fu saw = Some (frame, fu)"
| "scan_packets b (s # ss) frame fu saw =
     (case GetPacket s b of
        None \<Rightarrow> None
      | Some bp \<Rightarrow>
          let pk = bp_packet bp in
          if pk_ssrc pk \<noteq> au_ssrc frame \<or> pk_timestamp pk \<noteq> au_timestamp frame then None
          else
            let frame = frame\<lparr>au_receive_time_ms := max (au_receive_time_ms frame) (pk_receive_time_ms pk),
                  keyframe := keyframe frame \<or> has_key_nalu pk, au_has_sps := au_has_sps frame \<or> pk_has_sps pk,
                  au_has_pps := au_has_pps frame \<or> pk_has_pps pk, au_has_idr := au_has_idr frame \<or> pk_has_idr pk\<rparr>
            in case first_slice_seen (units pk) saw of
                 None \<Rightarrow> None
               | Some saw \<Rightarrow>
                   (case ValidateUnits (units pk) fu of
                      None \<Rightarrow> None
                    | Some fu \<Rightarrow> scan_packets b ss frame fu saw))"

text \<open>The appending pass; it dereferences each packet without a check.\<close>

fun append_packets :: "h264_buffer \<Rightarrow> int list \<Rightarrow> bool \<times> bytes \<times> bytes list \<Rightarrow> (bool \<times> bytes \<times> bytes list) option outcome" where
  "append_packets b [] acc = Ok (Some acc)"
| "append_packets b (s # ss) acc =
     (case GetPacket s b of
        None \<Rightarrow> Fault
      | Some bp \<Rightarrow>
          (case AppendUnits (units (bp_packet bp)) acc of
             None \<Rightarrow> Ok None
           | Some acc \<Rightarrow> append_packets b ss acc))"

definition MaybeAssembleFrame :: "int \<Rightarrow> int \<Rightarrow> h264_buffer \<Rightarrow> (H264AccessUnit option \<times> h264_buffer) outcome" where
  "MaybeAssembleFrame s e b =
     (if e < s \<or> e - s + 1 > int (max_frame_packets (hb_config b)) then Ok (None, b)
      else case GetPacket s b of
        None \<Rightarrow> Ok (None, b)
      | Some first \<Rightarrow>
          (case scan_packets b [s..e]
                  (H264AccessUnit_init\<lparr>au_ssrc := pk_ssrc (bp_packet first), au_timestamp := pk_timestamp (bp_packet first),
                     first_seq := word_of_int s, last_seq := word_of_int e, au_marker := True\<rparr>) None False of
             None \<Rightarrow> Ok (None, b)
           | Some (frame, fu) \<Rightarrow>
               if fu \<noteq> None then Ok (None, b)
               else if au_has_idr frame \<and> \<not> idr_only_keyframes_allowed (hb_config b) \<and>
                       (\<not> au_has_sps frame \<or> \<not> au_has_pps frame) then Ok (None, b)
               else bind_outcome (append_packets b [s..e] (False, [], [])) (\<lambda>r.
                 case r of
                   None \<Rightarrow> Ok (None, b)
                 | Some (active, fu, ns) \<Rightarrow>
                     if active \<or> ns = [] then Ok (None, b)
                     else Ok (Some (frame\<lparr>nalus := ns, complete := True\<rparr>), RemovePackets s e b))))"

text \<open>
  One iteration of \<open>FindFrames\<close> on the packet \<open>pk\<close> with number \<open>s\<close>: the packet joins the current frame or
  opens one (a new timestamp abandons the old frame), an oversized frame is discarded, and a marker
  ends the frame.
\<close>

definition join_frame :: "int \<Rightarrow> H264ParsedPacket \<Rightarrow> h264_buffer \<Rightarrow> h264_buffer" where
  "join_frame s pk b =
     (let b = b\<lparr>last_continuous_seq := Some s, last_continuous_timestamp := Some (pk_timestamp pk)\<rparr>;
          b = (if current_frame_start b \<noteq> None \<and> current_frame_timestamp b \<noteq> pk_timestamp pk
               then DropCurrentFrame (s - 1) b else b)
      in if current_frame_start b = None
         then b\<lparr>current_frame_start := Some s, current_frame_timestamp := pk_timestamp pk\<rparr> else b)"

definition limit_frame :: "int \<Rightarrow> int \<Rightarrow> h264_buffer \<Rightarrow> h264_buffer" where
  "limit_frame start s b =
     (if s - start + 1 > int (max_frame_packets (hb_config b))
      then (RemovePackets (if discarding_frame b then s else start) s b)\<lparr>discarding_frame := True\<rparr>
      else b)"

definition end_frame :: "int \<Rightarrow> int \<Rightarrow> h264_buffer \<Rightarrow> (H264AccessUnit list \<times> h264_buffer) outcome" where
  "end_frame start s b =
     bind_outcome (if discarding_frame b then Ok (None, b) else MaybeAssembleFrame start s b) (\<lambda>(f, b).
       Ok (case f of None \<Rightarrow> [] | Some f \<Rightarrow> [f], DropCurrentFrame s b))"

definition advance_one :: "int \<Rightarrow> H264ParsedPacket \<Rightarrow> h264_buffer \<Rightarrow> (H264AccessUnit list \<times> h264_buffer) outcome" where
  "advance_one s pk b =
     (let b = join_frame s pk b
      in case current_frame_start b of
           None \<Rightarrow> Fault
         | Some start \<Rightarrow>
             let b = limit_frame start s b
             in if \<not> pk_marker pk then Ok ([], b) else end_frame start s b)"

text \<open>The loop of \<open>FindFrames\<close>, with the iterations left.\<close>

fun find_loop :: "nat \<Rightarrow> int \<Rightarrow> h264_buffer \<Rightarrow> H264AccessUnit list \<Rightarrow> (h264_buffer \<times> H264AccessUnit list) outcome" where
  "find_loop 0 s b frames = Ok (b, frames)"
| "find_loop (Suc n) s b frames =
     (case GetPacket s b of
        None \<Rightarrow> Ok (b, frames)
      | Some bp \<Rightarrow> bind_outcome (advance_one s (bp_packet bp) b) (\<lambda>(fs, b). find_loop n (s + 1) b (frames @ fs)))"

definition FindFrames :: "int \<Rightarrow> h264_buffer \<Rightarrow> (h264_buffer \<times> H264AccessUnit list) outcome" where
  "FindFrames s b =
     (case GetPacket s b of
        None \<Rightarrow> Ok (b, [])
      | Some bp \<Rightarrow>
          let (ok, b) = CanAdvanceFrom s (bp_packet bp) b
          in if \<not> ok then Ok (b, []) else find_loop kBufferSize s b [])"

text \<open>Storing a packet in an empty slot.\<close>

definition store_packet :: "int \<Rightarrow> H264ParsedPacket \<Rightarrow> int \<Rightarrow> h264_buffer \<Rightarrow> h264_buffer" where
  "store_packet s pk now b =
     b\<lparr>arrivals := mm_emplace now s (arrivals b),
       slots := omap_emplace (BufferIndex s) \<lparr>bp_seq = s, bp_packet = pk, bp_arrival = now\<rparr> (slots b),
       buffered_packet_count := buffered_packet_count b + 1\<rparr>"

definition H264_InsertPacket :: "H264ParsedPacket \<Rightarrow> int \<Rightarrow> h264_buffer \<Rightarrow> (InsertResult \<times> h264_buffer) outcome" where
  "H264_InsertPacket pk now b =
     (if \<not> pk_valid pk \<or> pk_malformed pk then Ok (InsertResult_init, b)
      else bind_outcome (H264_FlushExpired now b) (\<lambda>(expired, b).
        let res = InsertResult_init\<lparr>expired_packets := expired\<rparr>;
            (s, u) = Unwrapper_Unwrap (pk_seq pk) (hb_unwrapper b);
            b = b\<lparr>hb_unwrapper := u\<rparr>
        in if (case last_continuous_seq b of None \<Rightarrow> False | Some l \<Rightarrow> s \<le> l) then Ok (res\<lparr>ir_late := True\<rparr>, b)
           else
             let go = (\<lambda>res b. bind_outcome (FindFrames s (store_packet s pk now b)) (\<lambda>(b, fs).
                         Ok (res\<lparr>inserted := True, ir_frames := fs\<rparr>, b)))
             in case map_of (slots b) (BufferIndex s) of
                  None \<Rightarrow> go res b
                | Some p \<Rightarrow>
                    if bp_seq p = s then Ok (res\<lparr>ir_duplicate := True\<rparr>, b)
                    else if bp_seq p > s then Ok (res\<lparr>ir_late := True\<rparr>, b)
                    else go (res\<lparr>buffer_collision := True\<rparr>) (ErasePacket (BufferIndex s) b)))"

section \<open>The ring invariant\<close>

abbreviation entry_of :: "nat \<times> BufferedPacket \<Rightarrow> int \<times> int" where
  "entry_of e \<equiv> (bp_arrival (snd e), bp_seq (snd e))"

text \<open>The slots, the arrivals and the count describe the same set of packets.\<close>

definition ring_ok :: "h264_buffer \<Rightarrow> bool" where
  "ring_ok b \<longleftrightarrow>
     omap_ok (slots b) \<and> (\<forall>(i, p) \<in> set (slots b). i = BufferIndex (bp_seq p)) \<and>
     mset (arrivals b) = image_mset entry_of (mset (slots b)) \<and> sorted (map fst (arrivals b)) \<and>
     buffered_packet_count b = length (slots b)"

lemma BufferIndex_less: "BufferIndex s < kBufferSize"
  by (simp add: BufferIndex_def kBufferSize_def nat_less_iff)

lemma slots_bounded:
  assumes "ring_ok b"
  shows "length (slots b) \<le> kBufferSize"
proof -
  have "set (map fst (slots b)) \<subseteq> {..<kBufferSize}"
    using assms BufferIndex_less by (fastforce simp: ring_ok_def)
  moreover have "distinct (map fst (slots b))"
    using assms by (simp add: ring_ok_def omap_ok_distinct)
  ultimately show ?thesis
    by (metis card_lessThan card_mono distinct_card finite_lessThan length_map)
qed

lemma map_of_slots_iff: "ring_ok b \<Longrightarrow> map_of (slots b) i = Some p \<longleftrightarrow> (i, p) \<in> set (slots b)"
  by (simp add: ring_ok_def omap_ok_distinct)

lemma GetPacket_iff: "ring_ok b \<Longrightarrow> GetPacket s b = Some p \<longleftrightarrow> (BufferIndex s, p) \<in> set (slots b) \<and> bp_seq p = s"
  by (auto simp: GetPacket_def simp flip: map_of_slots_iff split: option.splits)

lemma GetPacket_frame [simp]:
  "GetPacket s (b\<lparr>last_continuous_seq := l\<rparr>) = GetPacket s b"
  "GetPacket s (b\<lparr>last_continuous_timestamp := t\<rparr>) = GetPacket s b"
  "GetPacket s (b\<lparr>current_frame_start := f\<rparr>) = GetPacket s b"
  "GetPacket s (b\<lparr>current_frame_timestamp := ft\<rparr>) = GetPacket s b"
  "GetPacket s (b\<lparr>discarding_frame := d\<rparr>) = GetPacket s b"
  "GetPacket s (b\<lparr>waiting_for_recovery := w\<rparr>) = GetPacket s b"
  "GetPacket s (b\<lparr>hb_unwrapper := u\<rparr>) = GetPacket s b"
  by (simp_all add: GetPacket_def)

lemma ring_ok_frame [simp]:
  "ring_ok (b\<lparr>last_continuous_seq := l\<rparr>) = ring_ok b"
  "ring_ok (b\<lparr>last_continuous_timestamp := t\<rparr>) = ring_ok b"
  "ring_ok (b\<lparr>current_frame_start := f\<rparr>) = ring_ok b"
  "ring_ok (b\<lparr>current_frame_timestamp := ft\<rparr>) = ring_ok b"
  "ring_ok (b\<lparr>discarding_frame := d\<rparr>) = ring_ok b"
  "ring_ok (b\<lparr>waiting_for_recovery := w\<rparr>) = ring_ok b"
  "ring_ok (b\<lparr>hb_unwrapper := u\<rparr>) = ring_ok b"
  by (simp_all add: ring_ok_def)

text \<open>Erasing touches the ring only.\<close>

definition same_control :: "h264_buffer \<Rightarrow> h264_buffer \<Rightarrow> bool" where
  "same_control b b' \<longleftrightarrow>
     hb_config b' = hb_config b \<and> hb_unwrapper b' = hb_unwrapper b \<and>
     last_continuous_seq b' = last_continuous_seq b \<and>
     last_continuous_timestamp b' = last_continuous_timestamp b \<and> current_frame_start b' = current_frame_start b \<and>
     current_frame_timestamp b' = current_frame_timestamp b \<and> discarding_frame b' = discarding_frame b \<and>
     waiting_for_recovery b' = waiting_for_recovery b"

lemma same_control_refl [simp]: "same_control b b"
  by (simp add: same_control_def)

lemma same_control_trans: "same_control a b \<Longrightarrow> same_control b c \<Longrightarrow> same_control a c"
  by (simp add: same_control_def)

lemma omap_erase_mset:
  assumes "omap_ok m" "map_of m i = Some p"
  shows "mset m = add_mset (i, p) (mset (omap_erase i m))"
  using assms
proof (induction m)
  case (Cons e m)
  obtain k v where e: "e = (k, v)"
    by fastforce
  have m: "\<forall>k' \<in> fst ` set m. k < k'" "omap_ok m"
    using Cons.prems(1) by (auto simp: e omap_ok_Cons)
  show ?case
  proof (cases "k = i")
    case True
    then have "filter (\<lambda>e. fst e \<noteq> i) m = m"
      using m(1) by (auto simp: filter_id_conv)
    then show ?thesis
      using True Cons.prems(2) by (simp add: e omap_erase_def)
  next
    case False
    then show ?thesis
      using Cons.IH [OF m(2)] Cons.prems(2) by (simp add: e omap_erase_def)
  qed
qed simp

lemma ErasePacket_ring:
  assumes "ring_ok b"
  shows "ring_ok (ErasePacket i b)" "same_control b (ErasePacket i b)" "slots (ErasePacket i b) = omap_erase i (slots b)"
proof -
  have "ring_ok (ErasePacket i b) \<and> same_control b (ErasePacket i b) \<and> slots (ErasePacket i b) = omap_erase i (slots b)"
  proof (cases "map_of (slots b) i")
    case None
    then have "omap_erase i (slots b) = slots b"
      by (force simp: omap_erase_def filter_id_conv map_of_eq_None_iff)
    then show ?thesis
      using assms None by (simp add: ErasePacket_def)
  next
    case (Some p)
    have m: "mset (slots b) = add_mset (i, p) (mset (omap_erase i (slots b)))"
      using assms Some by (intro omap_erase_mset) (simp_all add: ring_ok_def)
    have "buffered_packet_count b - 1 = length (omap_erase i (slots b))"
      using arg_cong [OF m, of size] assms by (simp add: ring_ok_def)
    moreover have "sorted (map fst (remove1 (bp_arrival p, bp_seq p) (arrivals b)))"
      using assms by (simp add: ring_ok_def sorted_map_remove1)
    moreover have "omap_ok (omap_erase i (slots b))"
      using assms by (simp add: ring_ok_def omap_ok_erase)
    moreover have "\<forall>(j, q) \<in> set (omap_erase i (slots b)). j = BufferIndex (bp_seq q)"
      using assms by (auto simp: ring_ok_def omap_erase_def)
    moreover have "mset (remove1 (bp_arrival p, bp_seq p) (arrivals b)) = image_mset entry_of (mset (omap_erase i (slots b)))"
      using assms m by (simp add: ring_ok_def)
    ultimately have "ring_ok (ErasePacket i b)"
      using Some by (simp add: ErasePacket_def ring_ok_def)
    then show ?thesis
      using Some by (auto simp: ErasePacket_def same_control_def)
  qed
  then show "ring_ok (ErasePacket i b)" "same_control b (ErasePacket i b)"
    "slots (ErasePacket i b) = omap_erase i (slots b)"
    by auto
qed

text \<open>\<open>keeps P b b'\<close>: \<open>b'\<close> is \<open>b\<close> with exactly the packets satisfying \<open>P\<close>.\<close>

definition keeps :: "(BufferedPacket \<Rightarrow> bool) \<Rightarrow> h264_buffer \<Rightarrow> h264_buffer \<Rightarrow> bool" where
  "keeps P b b' \<longleftrightarrow> ring_ok b' \<and> same_control b b' \<and> slots b' = filter (\<lambda>e. P (snd e)) (slots b)"

lemma keeps_trans: "keeps P a b \<Longrightarrow> keeps Q b c \<Longrightarrow> keeps (\<lambda>p. P p \<and> Q p) a c"
  by (auto simp: keeps_def intro: same_control_trans filter_cong)

lemma keeps_GetPacket:
  "ring_ok b \<Longrightarrow> keeps P b b' \<Longrightarrow> GetPacket s b' = Some p \<longleftrightarrow> GetPacket s b = Some p \<and> P p"
  by (auto simp: GetPacket_iff keeps_def)

lemma sweep_keeps:
  assumes "ring_ok b"
  shows "keeps (\<lambda>p. \<not> P p) b (sweep P b)"
proof -
  have *: "ring_ok b' \<and> same_control c b' \<and> slots b' = filter (\<lambda>e. \<not> (\<exists>p. (fst e, p) \<in> set es \<and> P p)) (slots c)"
    if "ring_ok c" "b' = fold (\<lambda>(i, p) b. if P p then ErasePacket i b else b) es c" for es c b'
    using that
  proof (induction es arbitrary: c)
    case Nil
    then show ?case
      by simp
  next
    case (Cons e es)
    obtain i p where e: "e = (i, p)"
      by fastforce
    let ?c = "if P p then ErasePacket i c else c"
    have c: "ring_ok ?c" "same_control c ?c" "slots ?c = filter (\<lambda>e. \<not> (fst e = i \<and> P p)) (slots c)"
      using ErasePacket_ring [OF Cons.prems(1), of i] Cons.prems(1) by (auto simp: omap_erase_def)
    have "ring_ok b' \<and> same_control ?c b' \<and> slots b' = filter (\<lambda>e. \<not> (\<exists>p. (fst e, p) \<in> set es \<and> P p)) (slots ?c)"
      using Cons.IH [OF c(1)] Cons.prems(2) by (simp add: e)
    moreover have "filter (\<lambda>e. \<not> (\<exists>p. (fst e, p) \<in> set es \<and> P p)) (slots ?c) =
        filter (\<lambda>e. \<not> (\<exists>q. (fst e, q) \<in> set ((i, p) # es) \<and> P q)) (slots c)"
      unfolding c(3) filter_filter by (rule filter_cong) auto
    ultimately show ?case
      unfolding e using same_control_trans [OF c(2)] by simp
  qed
  have "(\<exists>q. (fst e, q) \<in> set (slots b) \<and> P q) \<longleftrightarrow> P (snd e)" if "e \<in> set (slots b)" for e
    using assms that map_of_slots_iff [OF assms] by (metis option.inject prod.collapse)
  then show ?thesis
    using * [OF assms refl, of "slots b"] by (auto simp: keeps_def sweep_def intro!: filter_cong)
qed

lemma erase_seq_keeps:
  assumes "ring_ok b"
  shows "keeps (\<lambda>p. bp_seq p \<noteq> x) b (if GetPacket x b \<noteq> None then ErasePacket (BufferIndex x) b else b)"
proof (cases "GetPacket x b")
  case None
  then have "filter (\<lambda>e. bp_seq (snd e) \<noteq> x) (slots b) = slots b"
    using assms GetPacket_iff [OF assms, of x] by (fastforce simp: ring_ok_def filter_id_conv)
  then show ?thesis
    using None assms by (simp add: keeps_def)
next
  case (Some p)
  have "fst e = BufferIndex x \<longleftrightarrow> bp_seq (snd e) = x" if "e \<in> set (slots b)" for e
  proof
    assume "fst e = BufferIndex x"
    then have "snd e = p"
      using that Some map_of_slots_iff [OF assms] GetPacket_iff [OF assms] by (metis option.inject prod.collapse)
    then show "bp_seq (snd e) = x"
      using Some GetPacket_iff [OF assms] by blast
  next
    assume "bp_seq (snd e) = x"
    then show "fst e = BufferIndex x"
      using that assms by (auto simp: ring_ok_def)
  qed
  then have "omap_erase (BufferIndex x) (slots b) = filter (\<lambda>e. bp_seq (snd e) \<noteq> x) (slots b)"
    unfolding omap_erase_def by (intro filter_cong) auto
  then show ?thesis
    using Some ErasePacket_ring [OF assms, of "BufferIndex x"] by (simp add: keeps_def)
qed

lemma erase_fold_keeps:
  assumes "ring_ok b"
  shows "keeps (\<lambda>p. bp_seq p \<notin> set xs) b
    (fold (\<lambda>x b. if GetPacket x b \<noteq> None then ErasePacket (BufferIndex x) b else b) xs b)"
  using assms
proof (induction xs arbitrary: b)
  case Nil
  then show ?case
    by (simp add: keeps_def)
next
  case (Cons x xs)
  note k = erase_seq_keeps [OF Cons.prems, of x]
  have "ring_ok (if GetPacket x b \<noteq> None then ErasePacket (BufferIndex x) b else b)"
    using k by (simp add: keeps_def)
  from keeps_trans [OF k Cons.IH [OF this]] show ?case
    by (simp add: conj_commute)
qed

lemma RemovePackets_keeps:
  "ring_ok b \<Longrightarrow> keeps (\<lambda>p. \<not> (s \<le> bp_seq p \<and> bp_seq p \<le> e)) b (RemovePackets s e b)"
  using sweep_keeps [of b "\<lambda>p. s \<le> bp_seq p \<and> bp_seq p \<le> e"] erase_fold_keeps [of b "[s..e]"]
  by (simp add: RemovePackets_def)

lemma RemovePacketsBefore_keeps: "ring_ok b \<Longrightarrow> keeps (\<lambda>p. \<not> bp_seq p < s) b (RemovePacketsBefore s b)"
  unfolding RemovePacketsBefore_def by (rule sweep_keeps)

section \<open>What a sequence of units carries\<close>

text \<open>
  The specification of reassembly: a unit sequence carries a list of NAL units when it is a sequence of
  whole units and of fragment runs.  A run starts with a start fragment, ends with its first end
  fragment, and all its fragments rebuild the same NAL header.
\<close>

definition whole :: "H264PayloadUnit \<Rightarrow> bool" where
  "whole u \<longleftrightarrow> (unit_type u = SingleNalu \<or> unit_type u = StapANalu) \<and> unit_data u \<noteq> []"

definition fragment :: "u8 \<Rightarrow> H264PayloadUnit \<Rightarrow> bool" where
  "fragment h u \<longleftrightarrow> unit_type u = FuAFragment \<and> unit_data u \<noteq> [] \<and> reconstructed_nal_header u = h"

fun run_tail :: "u8 \<Rightarrow> H264PayloadUnit list \<Rightarrow> bool" where
  "run_tail h [] \<longleftrightarrow> False"
| "run_tail h (u # us) \<longleftrightarrow> fragment h u \<and> \<not> fu_start u \<and> (if fu_end u then us = [] else run_tail h us)"

fun fragment_run :: "u8 \<Rightarrow> H264PayloadUnit list \<Rightarrow> bool" where
  "fragment_run h [] \<longleftrightarrow> False"
| "fragment_run h (u # us) \<longleftrightarrow> fragment h u \<and> fu_start u \<and> (if fu_end u then us = [] else run_tail h us)"

inductive carries :: "H264PayloadUnit list \<Rightarrow> bytes list \<Rightarrow> bool" where
  carries_Nil: "carries [] []"
| carries_whole: "whole u \<Longrightarrow> carries us ns \<Longrightarrow> carries (u # us) (unit_data u # ns)"
| carries_run: "fragment_run h fs \<Longrightarrow> carries us ns \<Longrightarrow> carries (fs @ us) ((h # concat (map unit_data fs)) # ns)"

lemma AppendUnits_append:
  "AppendUnits (us @ vs) acc = Option.bind (AppendUnits us acc) (AppendUnits vs)"
  by (induction us acc rule: AppendUnits.induct) (auto simp: Let_def)

lemma AppendUnits_tail:
  "run_tail h fs \<Longrightarrow> AppendUnits (fs @ us) (True, h # d, ns) = AppendUnits us (False, [], ns @ [h # d @ concat (map unit_data fs)])"
  by (induction fs arbitrary: d) (auto simp: fragment_def Let_def split: if_splits)

lemma AppendUnits_run:
  "fragment_run h fs \<Longrightarrow> AppendUnits (fs @ us) (False, fu, ns) = AppendUnits us (False, [], ns @ [h # concat (map unit_data fs)])"
  by (cases fs) (auto simp: fragment_def Let_def AppendUnits_tail split: if_splits)

lemma carries_AppendUnits: "carries us ns \<Longrightarrow> AppendUnits us (False, [], pre) = Some (False, [], pre @ ns)"
proof (induction us ns arbitrary: pre rule: carries.induct)
  case (carries_whole u us ns)
  then show ?case
    by (auto simp: whole_def)
next
  case (carries_run h fs us ns)
  then show ?case
    by (simp add: AppendUnits_run)
qed simp

lemma AppendUnits_carries:
  "AppendUnits us (False, fu, pre) = Some (False, fu', ns) \<Longrightarrow> \<exists>ks. ns = pre @ ks \<and> carries us ks"
  "AppendUnits us (True, h # d, pre) = Some (False, fu', ns) \<Longrightarrow>
     \<exists>gs vs ks. us = gs @ vs \<and> run_tail h gs \<and> carries vs ks \<and> ns = pre @ (h # d @ concat (map unit_data gs)) # ks"
proof (induction us arbitrary: fu pre h d)
  case Nil
  {
    case 1
    then show ?case
      by (auto intro: carries_Nil)
  next
    case 2
    then show ?case
      by simp
  }
next
  case (Cons u us)
  {
    case 1
    show ?case
    proof (cases "whole u")
      case True
      then obtain ks where "ns = (pre @ [unit_data u]) @ ks" "carries us ks"
        using 1 Cons.IH(1) [of fu "pre @ [unit_data u]"] by (auto simp: whole_def)
      then show ?thesis
        using True by (auto intro: carries_whole)
    next
      case False
      let ?h = "reconstructed_nal_header u"
      have u: "fragment ?h u" "fu_start u"
        using 1 False by (auto simp: whole_def fragment_def split: if_splits)
      show ?thesis
      proof (cases "fu_end u")
        case True
        then obtain ks where "ns = (pre @ [?h # unit_data u]) @ ks" "carries us ks"
          using 1 u Cons.IH(1) [of "[]" "pre @ [?h # unit_data u]"] by (auto simp: fragment_def)
        then show ?thesis
          using carries_run [of ?h "[u]" us ks] u True by auto
      next
        case e: False
        then obtain gs vs ks where g: "us = gs @ vs" "run_tail ?h gs" "carries vs ks"
            "ns = pre @ (?h # unit_data u @ concat (map unit_data gs)) # ks"
          using 1 u Cons.IH(2) [of ?h "unit_data u" pre] by (auto simp: fragment_def)
        then show ?thesis
          using carries_run [of ?h "u # gs" vs ks] u e by auto
      qed
    qed
  next
    case 2
    have u: "fragment h u" "\<not> fu_start u"
      using 2 by (auto simp: fragment_def split: if_splits)
    show ?case
    proof (cases "fu_end u")
      case True
      then obtain ks where "ns = (pre @ [h # d @ unit_data u]) @ ks" "carries us ks"
        using 2 u Cons.IH(1) [of "[]" "pre @ [h # d @ unit_data u]"] by (auto simp: fragment_def)
      then show ?thesis
        using u True by (intro exI [of _ "[u]"] exI [of _ us] exI [of _ ks]) auto
    next
      case e: False
      then obtain gs vs ks where g: "us = gs @ vs" "run_tail h gs" "carries vs ks"
          "ns = pre @ (h # (d @ unit_data u) @ concat (map unit_data gs)) # ks"
        using 2 u Cons.IH(2) [of h "d @ unit_data u" pre] by (auto simp: fragment_def)
      then show ?thesis
        using u e by (intro exI [of _ "u # gs"] exI [of _ vs] exI [of _ ks]) auto
    qed
  }
qed

lemma AppendUnits_iff: "(\<exists>fu'. AppendUnits us (False, [], []) = Some (False, fu', ns)) \<longleftrightarrow> carries us ns"
  using AppendUnits_carries(1) [of us "[]" "[]"] carries_AppendUnits [of us ns "[]"] by fastforce

text \<open>What the validating pass accepts, the appending pass completes.\<close>

fun fu_state :: "u8 option \<Rightarrow> bytes \<Rightarrow> bytes list \<Rightarrow> bool \<times> bytes \<times> bytes list" where
  "fu_state None d ns = (False, [], ns)"
| "fu_state (Some h) d ns = (True, h # d, ns)"

lemma ValidateUnits_Append:
  "ValidateUnits us fu = Some fu' \<Longrightarrow> \<exists>d' ns'. AppendUnits us (fu_state fu d ns) = Some (fu_state fu' d' ns')"
proof (induction us arbitrary: fu d ns)
  case Nil
  then show ?case
    by auto
next
  case (Cons u us)
  show ?case
  proof (cases fu)
    case None
    then show ?thesis
      using Cons.prems Cons.IH [of None d "ns @ [unit_data u]"]
        Cons.IH [of None "[]" "ns @ [reconstructed_nal_header u # unit_data u]"]
        Cons.IH [of "Some (reconstructed_nal_header u)" "unit_data u" ns]
      by (auto simp: Let_def split: if_splits)
  next
    case (Some h)
    then show ?thesis
      using Cons.prems Cons.IH [of None "[]" "ns @ [h # d @ unit_data u]"] Cons.IH [of "Some h" "d @ unit_data u" ns]
      by (auto simp: Let_def split: if_splits)
  qed
qed

lemma ValidateUnits_append: "ValidateUnits (us @ vs) fu = Option.bind (ValidateUnits us fu) (ValidateUnits vs)"
  by (induction us fu rule: ValidateUnits.induct) (auto simp: Let_def)

lemma first_slice_seen_append:
  "first_slice_seen (us @ vs) saw = Option.bind (first_slice_seen us saw) (first_slice_seen vs)"
  by (induction us saw rule: first_slice_seen.induct) auto

lemma carries_Validate: "carries us ns \<Longrightarrow> ValidateUnits us None = Some None"
proof (induction rule: carries.induct)
  case (carries_whole u us ns)
  then show ?case
    by (auto simp: whole_def)
next
  case (carries_run h fs us ns)
  have "run_tail h gs \<Longrightarrow> ValidateUnits (gs @ us) (Some h) = ValidateUnits us None" for gs
    by (induction gs) (auto simp: fragment_def Let_def split: if_splits)
  then show ?case
    using carries_run by (cases fs) (auto simp: fragment_def Let_def split: if_splits)
qed simp

section \<open>Assembly of a frame\<close>

definition units_at :: "h264_buffer \<Rightarrow> int \<Rightarrow> H264PayloadUnit list" where
  "units_at b x = (case GetPacket x b of None \<Rightarrow> [] | Some p \<Rightarrow> units (bp_packet p))"

text \<open>All packets of a range are present and belong to the frame.\<close>

definition belong :: "h264_buffer \<Rightarrow> H264AccessUnit \<Rightarrow> int list \<Rightarrow> bool" where
  "belong b f xs \<longleftrightarrow>
     (\<forall>x \<in> set xs. \<exists>p. GetPacket x b = Some p \<and> pk_ssrc (bp_packet p) = au_ssrc f \<and>
                       pk_timestamp (bp_packet p) = au_timestamp f)"

lemma belong_simps [simp]:
  "belong b f []"
  "belong b f (x # xs) \<longleftrightarrow>
     (\<exists>p. GetPacket x b = Some p \<and> pk_ssrc (bp_packet p) = au_ssrc f \<and> pk_timestamp (bp_packet p) = au_timestamp f) \<and>
     belong b f xs"
  by (simp_all add: belong_def)

lemma append_packets_eq:
  "belong b f xs \<Longrightarrow> append_packets b xs acc = Ok (AppendUnits (concat (map (units_at b) xs)) acc)"
proof (induction xs arbitrary: acc)
  case (Cons x xs)
  then show ?case
    by (auto simp: units_at_def AppendUnits_append split: option.splits)
qed simp

text \<open>The validating pass changes the summary flags of the frame only.\<close>

definition same_frame :: "H264AccessUnit \<Rightarrow> H264AccessUnit \<Rightarrow> bool" where
  "same_frame f g \<longleftrightarrow>
     au_ssrc g = au_ssrc f \<and> au_timestamp g = au_timestamp f \<and> first_seq g = first_seq f \<and> last_seq g = last_seq f \<and>
     complete g = complete f \<and> broken g = broken f \<and> au_marker g = au_marker f \<and> nalus g = nalus f"

lemma scan_packets_Some:
  "scan_packets b xs f fu saw = Some (g, fu') \<Longrightarrow>
     belong b f xs \<and> same_frame f g \<and> ValidateUnits (concat (map (units_at b) xs)) fu = Some fu' \<and>
     first_slice_seen (concat (map (units_at b) xs)) saw \<noteq> None"
proof (induction xs arbitrary: f fu saw)
  case Nil
  then show ?case
    by (simp add: same_frame_def)
next
  case (Cons x xs)
  obtain bp saw' fu2 where x: "GetPacket x b = Some bp" "pk_ssrc (bp_packet bp) = au_ssrc f"
      "pk_timestamp (bp_packet bp) = au_timestamp f" "first_slice_seen (units (bp_packet bp)) saw = Some saw'"
      "ValidateUnits (units (bp_packet bp)) fu = Some fu2"
    using Cons.prems by (auto simp: Let_def split: option.splits if_splits)
  let ?pk = "bp_packet bp"
  let ?f = "f\<lparr>au_receive_time_ms := max (au_receive_time_ms f) (pk_receive_time_ms ?pk),
      keyframe := keyframe f \<or> has_key_nalu ?pk, au_has_sps := au_has_sps f \<or> pk_has_sps ?pk,
      au_has_pps := au_has_pps f \<or> pk_has_pps ?pk, au_has_idr := au_has_idr f \<or> pk_has_idr ?pk\<rparr>"
  have "scan_packets b xs ?f fu2 saw' = Some (g, fu')"
    using Cons.prems x by (simp add: Let_def)
  then have "belong b ?f xs \<and> same_frame ?f g \<and> ValidateUnits (concat (map (units_at b) xs)) fu2 = Some fu' \<and>
      first_slice_seen (concat (map (units_at b) xs)) saw' \<noteq> None"
    by (rule Cons.IH)
  moreover have "units_at b x = units ?pk"
    by (simp add: units_at_def x(1))
  ultimately show ?case
    using x by (simp add: belong_def same_frame_def ValidateUnits_append first_slice_seen_append)
qed

lemma scan_packets_complete:
  assumes "belong b f xs" "ValidateUnits (concat (map (units_at b) xs)) fu = Some fu'"
    and "first_slice_seen (concat (map (units_at b) xs)) saw \<noteq> None"
  shows "\<exists>g. scan_packets b xs f fu saw = Some (g, fu')"
  using assms
proof (induction xs arbitrary: f fu saw)
  case Nil
  then show ?case
    by simp
next
  case (Cons x xs)
  then obtain bp where x: "GetPacket x b = Some bp" "pk_ssrc (bp_packet bp) = au_ssrc f"
      "pk_timestamp (bp_packet bp) = au_timestamp f" and xs: "belong b f xs"
    by auto
  have u: "units_at b x = units (bp_packet bp)"
    by (simp add: units_at_def x(1))
  obtain saw' fu2 where y: "first_slice_seen (units (bp_packet bp)) saw = Some saw'"
      "ValidateUnits (units (bp_packet bp)) fu = Some fu2"
      "ValidateUnits (concat (map (units_at b) xs)) fu2 = Some fu'"
      "first_slice_seen (concat (map (units_at b) xs)) saw' \<noteq> None"
    using Cons.prems(2,3) by (auto simp: u ValidateUnits_append first_slice_seen_append bind_eq_Some_conv)
  have "belong b (f\<lparr>au_receive_time_ms := r, keyframe := k, au_has_sps := s, au_has_pps := p, au_has_idr := i\<rparr>) xs"
    for r k s p i
    using xs by (simp add: belong_def)
  then show ?case
    using x y Cons.IH [OF _ y(3,4)] by (simp add: Let_def)
qed

text \<open>What an emitted frame is, over the packets of the buffer it was assembled from.\<close>

definition good_frame :: "h264_buffer \<Rightarrow> int \<Rightarrow> int \<Rightarrow> H264AccessUnit \<Rightarrow> bool" where
  "good_frame b s e f \<longleftrightarrow>
     s \<le> e \<and> e - s + 1 \<le> int (max_frame_packets (hb_config b)) \<and> belong b f [s..e] \<and>
     carries (concat (map (units_at b) [s..e])) (nalus f) \<and> nalus f \<noteq> [] \<and> complete f \<and> \<not> broken f \<and> au_marker f \<and>
     first_seq f = word_of_int s \<and> last_seq f = word_of_int e"

definition frame0 :: "int \<Rightarrow> int \<Rightarrow> H264ParsedPacket \<Rightarrow> H264AccessUnit" where
  "frame0 s e pk =
     H264AccessUnit_init\<lparr>au_ssrc := pk_ssrc pk, au_timestamp := pk_timestamp pk, first_seq := word_of_int s,
       last_seq := word_of_int e, au_marker := True\<rparr>"

lemma MaybeAssembleFrame_scanned:
  assumes "s \<le> e" "e - s + 1 \<le> int (max_frame_packets (hb_config b))" "GetPacket s b = Some first"
    and "scan_packets b [s..e] (frame0 s e (bp_packet first)) None False = Some (g, None)"
    and "\<not> (au_has_idr g \<and> \<not> idr_only_keyframes_allowed (hb_config b) \<and> (\<not> au_has_sps g \<or> \<not> au_has_pps g))"
  obtains ns where "carries (concat (map (units_at b) [s..e])) ns"
    "MaybeAssembleFrame s e b =
       (if ns = [] then Ok (None, b) else Ok (Some (g\<lparr>nalus := ns, complete := True\<rparr>), RemovePackets s e b))"
proof -
  let ?us = "concat (map (units_at b) [s..e])"
  have sc: "belong b (frame0 s e (bp_packet first)) [s..e]" "ValidateUnits ?us None = Some None"
    using scan_packets_Some [OF assms(4)] by simp_all
  obtain ns where a: "AppendUnits ?us (False, [], []) = Some (False, [], ns)"
    using ValidateUnits_Append [OF sc(2), of "[]" "[]"] by auto
  have ap: "append_packets b [s..e] (False, [], []) = Ok (Some (False, [], ns))"
    using append_packets_eq [OF sc(1)] a by simp
  have "carries ?us ns"
    using a AppendUnits_iff by blast
  moreover have "MaybeAssembleFrame s e b =
      (if ns = [] then Ok (None, b) else Ok (Some (g\<lparr>nalus := ns, complete := True\<rparr>), RemovePackets s e b))"
    using assms by (auto simp: MaybeAssembleFrame_def frame0_def [symmetric] ap)
  ultimately show ?thesis
    by (rule that)
qed

lemma MaybeAssembleFrame_cases:
  obtains (none) "MaybeAssembleFrame s e b = Ok (None, b)"
  | (frame) f where "MaybeAssembleFrame s e b = Ok (Some f, RemovePackets s e b)" "good_frame b s e f"
proof (cases "\<exists>first g. s \<le> e \<and> e - s + 1 \<le> int (max_frame_packets (hb_config b)) \<and> GetPacket s b = Some first \<and>
    scan_packets b [s..e] (frame0 s e (bp_packet first)) None False = Some (g, None) \<and>
    \<not> (au_has_idr g \<and> \<not> idr_only_keyframes_allowed (hb_config b) \<and> (\<not> au_has_sps g \<or> \<not> au_has_pps g))")
  case True
  then obtain first g where g: "s \<le> e" "e - s + 1 \<le> int (max_frame_packets (hb_config b))" "GetPacket s b = Some first"
      "scan_packets b [s..e] (frame0 s e (bp_packet first)) None False = Some (g, None)"
      "\<not> (au_has_idr g \<and> \<not> idr_only_keyframes_allowed (hb_config b) \<and> (\<not> au_has_sps g \<or> \<not> au_has_pps g))"
    by blast
  obtain ns where ns: "carries (concat (map (units_at b) [s..e])) ns"
    "MaybeAssembleFrame s e b =
       (if ns = [] then Ok (None, b) else Ok (Some (g\<lparr>nalus := ns, complete := True\<rparr>), RemovePackets s e b))"
    by (rule MaybeAssembleFrame_scanned [OF g])
  have "belong b (frame0 s e (bp_packet first)) [s..e]" "same_frame (frame0 s e (bp_packet first)) g"
    using scan_packets_Some [OF g(4)] by simp_all
  then have "good_frame b s e (g\<lparr>nalus := ns, complete := True\<rparr>)" if "ns \<noteq> []"
    using that g(1,2) ns(1)
    by (simp add: good_frame_def same_frame_def belong_def frame0_def H264AccessUnit_init_def)
  then show ?thesis
    using ns(2) none frame by (cases "ns = []") auto
next
  case False
  have "MaybeAssembleFrame s e b = Ok (None, b)"
  proof (cases "e < s \<or> e - s + 1 > int (max_frame_packets (hb_config b)) \<or> GetPacket s b = None")
    case True
    then show ?thesis
      by (auto simp: MaybeAssembleFrame_def)
  next
    case c: False
    then obtain first where f: "GetPacket s b = Some first"
      by blast
    show ?thesis
      using False c f by (auto simp: MaybeAssembleFrame_def frame0_def [symmetric] split: option.splits)
  qed
  then show ?thesis
    by (rule none)
qed

lemma MaybeAssembleFrame_complete:
  assumes "s \<le> e" "e - s + 1 \<le> int (max_frame_packets (hb_config b))" "GetPacket s b = Some first"
    and "belong b (frame0 s e (bp_packet first)) [s..e]" "carries (concat (map (units_at b) [s..e])) ns" "ns \<noteq> []"
    and "first_slice_seen (concat (map (units_at b) [s..e])) False \<noteq> None" "idr_only_keyframes_allowed (hb_config b)"
  shows "\<exists>f. MaybeAssembleFrame s e b = Ok (Some f, RemovePackets s e b) \<and> nalus f = ns"
proof -
  obtain g where g: "scan_packets b [s..e] (frame0 s e (bp_packet first)) None False = Some (g, None)"
    using scan_packets_complete [OF assms(4) carries_Validate [OF assms(5)] assms(7)] by blast
  obtain ns' where "carries (concat (map (units_at b) [s..e])) ns'"
    and m: "MaybeAssembleFrame s e b =
       (if ns' = [] then Ok (None, b) else Ok (Some (g\<lparr>nalus := ns', complete := True\<rparr>), RemovePackets s e b))"
    using MaybeAssembleFrame_scanned [OF assms(1-3) g] assms(8) by blast
  then have "ns' = ns"
    using carries_AppendUnits [OF assms(5), of "[]"] carries_AppendUnits [of _ ns' "[]"] by fastforce
  then show ?thesis
    using m assms(6) by simp
qed

section \<open>The buffer invariant\<close>

text \<open>
  Beside the ring: the frame in progress starts at or before the last continuous number, and no packet
  at or before that number is kept unless it belongs to the frame in progress.
\<close>

definition frame_ok :: "h264_buffer \<Rightarrow> bool" where
  "frame_ok b \<longleftrightarrow>
     (case current_frame_start b of
        None \<Rightarrow> \<not> discarding_frame b
      | Some st \<Rightarrow> (case last_continuous_seq b of None \<Rightarrow> False | Some l \<Rightarrow> st \<le> l))"

definition fresh_above :: "h264_buffer \<Rightarrow> bool" where
  "fresh_above b \<longleftrightarrow>
     (\<forall>e \<in> set (slots b).
        case last_continuous_seq b of
          None \<Rightarrow> True
        | Some l \<Rightarrow> bp_seq (snd e) \<le> l \<longrightarrow>
            (case current_frame_start b of None \<Rightarrow> False | Some st \<Rightarrow> st \<le> bp_seq (snd e)))"

definition hb_ok :: "h264_buffer \<Rightarrow> bool" where
  "hb_ok b \<longleftrightarrow>
     ring_ok b \<and> 0 < max_frame_packets (hb_config b) \<and> max_frame_packets (hb_config b) \<le> kBufferSize \<and>
     frame_ok b \<and> fresh_above b"

definition shrinks :: "h264_buffer \<Rightarrow> h264_buffer \<Rightarrow> bool" where
  "shrinks b b' \<longleftrightarrow>
     ring_ok b' \<and> hb_config b' = hb_config b \<and> hb_unwrapper b' = hb_unwrapper b \<and> set (slots b') \<subseteq> set (slots b)"

lemma shrinks_refl: "ring_ok b \<Longrightarrow> shrinks b b"
  by (simp add: shrinks_def)

lemma shrinks_trans: "shrinks a b \<Longrightarrow> shrinks b c \<Longrightarrow> shrinks a c"
  by (auto simp: shrinks_def)

lemma shrinks_update [simp]:
  "shrinks b (b'\<lparr>last_continuous_seq := l\<rparr>) = shrinks b b'"
  "shrinks b (b'\<lparr>last_continuous_timestamp := t\<rparr>) = shrinks b b'"
  "shrinks b (b'\<lparr>current_frame_start := f\<rparr>) = shrinks b b'"
  "shrinks b (b'\<lparr>current_frame_timestamp := ft\<rparr>) = shrinks b b'"
  "shrinks b (b'\<lparr>discarding_frame := d\<rparr>) = shrinks b b'"
  "shrinks b (b'\<lparr>waiting_for_recovery := w\<rparr>) = shrinks b b'"
  by (simp_all add: shrinks_def)

lemma keeps_shrinks: "keeps P b b' \<Longrightarrow> shrinks b b'"
  by (auto simp: keeps_def shrinks_def same_control_def)

lemma shrinks_GetPacket: "ring_ok b \<Longrightarrow> shrinks b b' \<Longrightarrow> GetPacket x b' = Some p \<Longrightarrow> GetPacket x b = Some p"
  by (auto simp: GetPacket_iff shrinks_def)

lemma shrinks_belong:
  "ring_ok b \<Longrightarrow> shrinks b b' \<Longrightarrow> belong b' f xs \<Longrightarrow> belong b f xs \<and> map (units_at b) xs = map (units_at b') xs"
proof (induction xs)
  case (Cons x xs)
  obtain p where p: "GetPacket x b' = Some p" "pk_ssrc (bp_packet p) = au_ssrc f"
      "pk_timestamp (bp_packet p) = au_timestamp f"
    using Cons.prems(3) by auto
  have "GetPacket x b = Some p"
    by (rule shrinks_GetPacket [OF Cons.prems(1,2) p(1)])
  then show ?case
    using p Cons by (simp add: units_at_def)
qed simp

lemma shrinks_good_frame: "ring_ok b \<Longrightarrow> shrinks b b' \<Longrightarrow> good_frame b' s e f \<Longrightarrow> good_frame b s e f"
  using shrinks_belong [of b b' f "[s..e]"] by (simp add: good_frame_def shrinks_def del: set_upto map_eq_conv)

text \<open>\<open>DropCurrentFrame\<close> removes exactly the packets of the frame in progress, up to the given number.\<close>

lemma DropCurrentFrame_eq:
  assumes "ring_ok b"
  shows "ring_ok (DropCurrentFrame e b)" "hb_config (DropCurrentFrame e b) = hb_config b"
    "hb_unwrapper (DropCurrentFrame e b) = hb_unwrapper b"
    "last_continuous_seq (DropCurrentFrame e b) = last_continuous_seq b"
    "last_continuous_timestamp (DropCurrentFrame e b) = last_continuous_timestamp b"
    "waiting_for_recovery (DropCurrentFrame e b) = waiting_for_recovery b"
    "current_frame_start (DropCurrentFrame e b) = None" "\<not> discarding_frame (DropCurrentFrame e b)"
    "slots (DropCurrentFrame e b) = filter (\<lambda>x. case current_frame_start b of
       None \<Rightarrow> True | Some st \<Rightarrow> \<not> (st \<le> bp_seq (snd x) \<and> bp_seq (snd x) \<le> e)) (slots b)"
  using assms RemovePackets_keeps [OF assms, of _ e]
  by (auto simp: DropCurrentFrame_def Let_def keeps_def same_control_def split: option.splits)

lemma DropCurrentFrame_shrinks: "ring_ok b \<Longrightarrow> shrinks b (DropCurrentFrame e b)"
  by (simp add: shrinks_def DropCurrentFrame_eq)

lemma DropCurrentFrame_ok:
  assumes "hb_ok b" "last_continuous_seq b = Some s"
  shows "hb_ok (DropCurrentFrame s b)"
  using assms
  by (auto simp: hb_ok_def frame_ok_def fresh_above_def DropCurrentFrame_eq split: option.splits)

lemma join_frame_ok:
  assumes "hb_ok b" "last_continuous_seq b = Some (s - 1)" "GetPacket s b = Some bp"
  obtains st where "hb_ok (join_frame s pk b)" "last_continuous_seq (join_frame s pk b) = Some s"
    "shrinks b (join_frame s pk b)" "current_frame_start (join_frame s pk b) = Some st" "st \<le> s"
    "GetPacket s (join_frame s pk b) = Some bp"
proof -
  let ?b0 = "b\<lparr>last_continuous_seq := Some s, last_continuous_timestamp := Some (pk_timestamp pk)\<rparr>"
  have r: "ring_ok b" "ring_ok ?b0"
    using assms(1) by (simp_all add: hb_ok_def)
  note d = DropCurrentFrame_eq [OF r(2), of "s - 1"]
  have g: "(BufferIndex s, bp) \<in> set (slots b)" "bp_seq bp = s"
    using assms(3) GetPacket_iff [OF r(1)] by simp_all
  show ?thesis
  proof (cases "current_frame_start b")
    case None
    then show ?thesis
      using assms r
      by (intro that [of s]; force simp: join_frame_def Let_def hb_ok_def frame_ok_def fresh_above_def shrinks_refl)
  next
    case (Some st)
    show ?thesis
    proof (cases "current_frame_timestamp b = pk_timestamp pk")
      case True
      then have j: "join_frame s pk b = ?b0"
        using Some by (simp add: join_frame_def Let_def)
      have "st \<le> s - 1"
        using assms(1,2) Some by (simp add: hb_ok_def frame_ok_def)
      then show ?thesis
        using assms r Some
        by (intro that [of st]; force simp: j hb_ok_def frame_ok_def fresh_above_def shrinks_refl)
    next
      case False
      then have j: "join_frame s pk b = (DropCurrentFrame (s - 1) ?b0)\<lparr>current_frame_start := Some s,
          current_frame_timestamp := pk_timestamp pk\<rparr>"
        using Some d(7) by (simp add: join_frame_def Let_def)
      have "shrinks b (DropCurrentFrame (s - 1) ?b0)"
        using DropCurrentFrame_shrinks [OF r(2), of "s - 1"] by (simp add: shrinks_def)
      moreover have "GetPacket s (DropCurrentFrame (s - 1) ?b0) = Some bp"
        using g d(1,9) Some by (simp add: GetPacket_iff)
      moreover have "hb_ok (join_frame s pk b)"
        using assms(1,2) Some d by (force simp: j hb_ok_def frame_ok_def fresh_above_def)
      ultimately show ?thesis
        by (intro that [of s]) (simp_all add: j d)
    qed
  qed
qed

lemma hb_ok_keeps:
  assumes "hb_ok b" "keeps P b b'"
  shows "hb_ok b'"
proof -
  have "ring_ok b'" "same_control b b'" "set (slots b') \<subseteq> set (slots b)"
    using assms(2) by (auto simp: keeps_def)
  moreover have "frame_ok b'"
    using assms(1) calculation(2) by (auto simp: hb_ok_def frame_ok_def same_control_def split: option.splits)
  moreover have "fresh_above b'"
    using assms(1) calculation(2,3) by (auto simp: hb_ok_def fresh_above_def same_control_def split: option.splits)
  ultimately show ?thesis
    using assms(1) by (simp add: hb_ok_def same_control_def)
qed

lemma RemovePackets_ok:
  assumes "hb_ok b"
  shows "hb_ok (RemovePackets x e b)" "shrinks b (RemovePackets x e b)" "same_control b (RemovePackets x e b)"
proof -
  have k: "keeps (\<lambda>p. \<not> (x \<le> bp_seq p \<and> bp_seq p \<le> e)) b (RemovePackets x e b)"
    by (rule RemovePackets_keeps) (use assms in \<open>simp add: hb_ok_def\<close>)
  show "hb_ok (RemovePackets x e b)" "shrinks b (RemovePackets x e b)" "same_control b (RemovePackets x e b)"
    using hb_ok_keeps [OF assms k] keeps_shrinks [OF k] k by (simp_all add: keeps_def)
qed

lemma limit_frame_ok:
  assumes "hb_ok b" "current_frame_start b = Some st"
  shows "hb_ok (limit_frame st s b)" "shrinks b (limit_frame st s b)"
    "last_continuous_seq (limit_frame st s b) = last_continuous_seq b"
    "current_frame_start (limit_frame st s b) = Some st"
proof -
  have "hb_ok (c\<lparr>discarding_frame := True\<rparr>) = hb_ok c" if "current_frame_start c = Some st" for c
    using that by (simp add: hb_ok_def frame_ok_def fresh_above_def cong: option.case_cong)
  moreover have "shrinks b b"
    using assms(1) by (simp add: hb_ok_def shrinks_refl)
  ultimately show "hb_ok (limit_frame st s b)" "shrinks b (limit_frame st s b)"
    "last_continuous_seq (limit_frame st s b) = last_continuous_seq b"
    "current_frame_start (limit_frame st s b) = Some st"
    using assms RemovePackets_ok [OF assms(1)] by (simp_all add: limit_frame_def same_control_def)
qed

lemma end_frame_ok:
  assumes "hb_ok b" "last_continuous_seq b = Some s" "current_frame_start b = Some st"
  obtains fs b' where "end_frame st s b = Ok (fs, b')" "hb_ok b'" "last_continuous_seq b' = Some s" "shrinks b b'"
    "fs = [] \<or> (\<exists>f. fs = [f] \<and> good_frame b st s f)"
proof -
  have r: "ring_ok b"
    using assms(1) by (simp add: hb_ok_def)
  have drop: "hb_ok (DropCurrentFrame s c) \<and> last_continuous_seq (DropCurrentFrame s c) = Some s \<and>
      shrinks b (DropCurrentFrame s c)" if "hb_ok c" "shrinks b c" "same_control b c" for c
    using that assms DropCurrentFrame_ok [of c s] DropCurrentFrame_eq(4) [of c s]
      shrinks_trans [OF that(2) DropCurrentFrame_shrinks [of c s]]
    by (simp add: same_control_def hb_ok_def)
  show ?thesis
  proof (cases "discarding_frame b")
    case True
    then show ?thesis
      using drop [OF assms(1) shrinks_refl [OF r] same_control_refl] by (intro that) (auto simp: end_frame_def)
  next
    case False
    show ?thesis
    proof (cases rule: MaybeAssembleFrame_cases [of st s b])
      case none
      then show ?thesis
        using False drop [OF assms(1) shrinks_refl [OF r] same_control_refl] by (intro that) (auto simp: end_frame_def)
    next
      case (frame f)
      then show ?thesis
        using False drop [OF RemovePackets_ok [OF assms(1)]] by (intro that) (auto simp: end_frame_def)
    qed
  qed
qed

lemma advance_one_ok:
  assumes "hb_ok b" "last_continuous_seq b = Some (s - 1)" "GetPacket s b = Some bp"
  obtains fs b' where "advance_one s (bp_packet bp) b = Ok (fs, b')" "hb_ok b'" "last_continuous_seq b' = Some s"
    "shrinks b b'" "fs = [] \<or> (\<exists>f st. fs = [f] \<and> good_frame b st s f \<and> pk_marker (bp_packet bp))"
proof -
  let ?pk = "bp_packet bp"
  let ?j = "join_frame s ?pk b"
  have r: "ring_ok b"
    using assms(1) by (simp add: hb_ok_def)
  obtain st where j: "hb_ok ?j" "last_continuous_seq ?j = Some s" "shrinks b ?j" "current_frame_start ?j = Some st"
    by (rule join_frame_ok [OF assms])
  let ?l = "limit_frame st s ?j"
  note l = limit_frame_ok [OF j(1,4), of s]
  have sl: "shrinks b ?l"
    by (rule shrinks_trans [OF j(3) l(2)])
  show ?thesis
  proof (cases "pk_marker ?pk")
    case False
    then show ?thesis
      using j l sl by (intro that [of "[]" ?l]) (simp_all add: advance_one_def Let_def)
  next
    case True
    obtain fs b' where e: "end_frame st s ?l = Ok (fs, b')" "hb_ok b'" "last_continuous_seq b' = Some s"
        "shrinks ?l b'" "fs = [] \<or> (\<exists>f. fs = [f] \<and> good_frame ?l st s f)"
      by (rule end_frame_ok [OF l(1) _ l(4), of s]) (simp_all add: l(3) j(2))
    have "fs = [] \<or> (\<exists>f st. fs = [f] \<and> good_frame b st s f \<and> pk_marker ?pk)"
      using e(5) True shrinks_good_frame [OF r sl] by blast
    then show ?thesis
      using True j e shrinks_trans [OF sl e(4)] by (intro that [of fs b']) (simp_all add: advance_one_def Let_def)
  qed
qed

text \<open>The frames of a run of the loop, with the extended numbers of their last packets.\<close>

definition emitted_from :: "h264_buffer \<Rightarrow> int list \<Rightarrow> H264AccessUnit list \<Rightarrow> bool" where
  "emitted_from b es fs \<longleftrightarrow>
     list_all2 (\<lambda>e f. \<exists>st p. good_frame b st e f \<and> GetPacket e b = Some p \<and> pk_marker (bp_packet p)) es fs"

lemma emitted_from_shrinks:
  "ring_ok b \<Longrightarrow> shrinks b b' \<Longrightarrow> emitted_from b' es fs \<Longrightarrow> emitted_from b es fs"
  unfolding emitted_from_def
  by (erule list_all2_mono) (use shrinks_good_frame shrinks_GetPacket in blast)

lemma find_loop_ok:
  assumes "hb_ok b" "last_continuous_seq b = Some (s - 1)"
  shows "\<exists>b' fs es l. find_loop n s b frames = Ok (b', frames @ fs) \<and> hb_ok b' \<and> shrinks b b' \<and>
    last_continuous_seq b' = Some l \<and> s - 1 \<le> l \<and> emitted_from b es fs \<and> sorted_wrt (<) es \<and> set es \<subseteq> {s..l}"
  using assms
proof (induction n arbitrary: s b frames)
  case 0
  then show ?case
    by (intro exI [of _ b] exI [of _ "[]"]) (simp add: emitted_from_def shrinks_refl hb_ok_def)
next
  case (Suc n)
  have r: "ring_ok b"
    using Suc.prems(1) by (simp add: hb_ok_def)
  show ?case
  proof (cases "GetPacket s b")
    case None
    then show ?thesis
      using Suc.prems r
      by (intro exI [of _ b] exI [of _ "[]"]) (simp add: emitted_from_def shrinks_refl)
  next
    case (Some bp)
    obtain gs c where c: "advance_one s (bp_packet bp) b = Ok (gs, c)" "hb_ok c" "last_continuous_seq c = Some s"
        "shrinks b c" "gs = [] \<or> (\<exists>f st. gs = [f] \<and> good_frame b st s f \<and> pk_marker (bp_packet bp))"
      by (rule advance_one_ok [OF Suc.prems Some])
    obtain b' fs es l where i: "find_loop n (s + 1) c (frames @ gs) = Ok (b', (frames @ gs) @ fs)" "hb_ok b'"
        "shrinks c b'" "last_continuous_seq b' = Some l" "s \<le> l" "emitted_from c es fs" "sorted_wrt (<) es"
        "set es \<subseteq> {s + 1..l}"
      using Suc.IH [OF c(2), of "s + 1" "frames @ gs"] c(3) by auto
    have e: "emitted_from b es fs"
      by (rule emitted_from_shrinks [OF r c(4) i(6)])
    have f: "find_loop (Suc n) s b frames = Ok (b', frames @ gs @ fs)"
      using Some c(1) i(1) by simp
    show ?thesis
    proof (cases gs)
      case Nil
      have "set es \<subseteq> {s..l}"
        using i(8) by auto
      then show ?thesis
        using f i e shrinks_trans [OF c(4) i(3)] Nil by auto
    next
      case (Cons g gs')
      then have "emitted_from b (s # es) (gs @ fs)"
        using c(5) e Some by (auto simp: emitted_from_def)
      moreover have "sorted_wrt (<) (s # es)" "set (s # es) \<subseteq> {s..l}"
        using i(5,7,8) by auto
      ultimately show ?thesis
        using f i(2,4,5) shrinks_trans [OF c(4) i(3)] by (intro exI [of _ b'] exI [of _ "gs @ fs"] exI [of _ "s # es"]) auto
    qed
  qed
qed

section \<open>Insertion and expiry\<close>

text \<open>The last continuous number never moves back.\<close>

fun le_opt :: "int option \<Rightarrow> int option \<Rightarrow> bool" where
  "le_opt None y = True"
| "le_opt (Some x) None = False"
| "le_opt (Some x) (Some y) = (x \<le> y)"

lemma le_opt_refl [simp]: "le_opt x x"
  by (cases x) auto

lemma le_opt_trans: "le_opt x y \<Longrightarrow> le_opt y z \<Longrightarrow> le_opt x z"
  by (cases x; cases y; cases z) auto

lemma hb_ok_unwrapper [simp]: "hb_ok (b\<lparr>hb_unwrapper := u\<rparr>) = hb_ok b"
  by (simp add: hb_ok_def frame_ok_def fresh_above_def cong: option.case_cong)

lemma CanAdvanceFrom_ok:
  assumes "hb_ok b" "CanAdvanceFrom s pk b = (ok, b')"
  shows "hb_ok b'" "shrinks b b'" "ok \<Longrightarrow> last_continuous_seq b' = Some (s - 1)"
    "ok \<Longrightarrow> le_opt (last_continuous_seq b) (Some (s - 1))" "\<not> ok \<Longrightarrow> b' = b"
proof -
  let ?c = "(RemovePacketsBefore s b)\<lparr>current_frame_start := None, discarding_frame := False,
      last_continuous_seq := Some (s - 1), waiting_for_recovery := False\<rparr>"
  have r: "ring_ok b" "shrinks b b"
    using assms(1) by (simp_all add: hb_ok_def shrinks_refl)
  note k = RemovePacketsBefore_keeps [OF r(1), of s]
  have c: "hb_ok ?c" "shrinks b ?c"
    using assms(1) k keeps_shrinks [OF k]
    by (auto simp: hb_ok_def keeps_def same_control_def frame_ok_def fresh_above_def)
  show "hb_ok b'" "shrinks b b'" "ok \<Longrightarrow> last_continuous_seq b' = Some (s - 1)"
    "ok \<Longrightarrow> le_opt (last_continuous_seq b) (Some (s - 1))" "\<not> ok \<Longrightarrow> b' = b"
    using assms c r(2) by (auto simp: CanAdvanceFrom_def Let_def split: option.splits if_splits)
qed

lemma FindFrames_ok:
  assumes "hb_ok b"
  shows "\<exists>b' fs es. FindFrames s b = Ok (b', fs) \<and> hb_ok b' \<and> shrinks b b' \<and>
    le_opt (last_continuous_seq b) (last_continuous_seq b') \<and> emitted_from b es fs \<and> sorted_wrt (<) es \<and>
    (\<forall>e \<in> set es. s \<le> e \<and> le_opt (last_continuous_seq b) (Some (e - 1)) \<and> le_opt (Some e) (last_continuous_seq b'))"
proof -
  have r: "ring_ok b"
    using assms by (simp add: hb_ok_def)
  have idle: ?thesis if "FindFrames s b = Ok (b, [])"
    using that assms shrinks_refl [OF r] by (intro exI [of _ b] exI [of _ "[]"]) (simp add: emitted_from_def)
  show ?thesis
  proof (cases "GetPacket s b")
    case None
    then show ?thesis
      by (intro idle) (simp add: FindFrames_def)
  next
    case (Some bp)
    obtain ok c where c: "CanAdvanceFrom s (bp_packet bp) b = (ok, c)"
      by fastforce
    note k = CanAdvanceFrom_ok [OF assms c]
    show ?thesis
    proof (cases ok)
      case False
      then show ?thesis
        using Some c k(5) by (intro idle) (simp add: FindFrames_def)
    next
      case True
      obtain b' fs es l where l: "find_loop kBufferSize s c [] = Ok (b', [] @ fs)" "hb_ok b'" "shrinks c b'"
          "last_continuous_seq b' = Some l" "s - 1 \<le> l" "emitted_from c es fs" "sorted_wrt (<) es" "set es \<subseteq> {s..l}"
        using find_loop_ok [OF k(1) k(3) [OF True], of kBufferSize "[]"] by blast
      have m: "le_opt (last_continuous_seq b) (Some x)" if "s - 1 \<le> x" for x
        using le_opt_trans [OF k(4) [OF True], of "Some x"] that by simp
      have "FindFrames s b = Ok (b', fs)"
        using Some c True l(1) by (simp add: FindFrames_def)
      moreover have "le_opt (last_continuous_seq b) (last_continuous_seq b')"
        using m l(4,5) by simp
      moreover have "\<forall>e \<in> set es. s \<le> e \<and> le_opt (last_continuous_seq b) (Some (e - 1)) \<and>
          le_opt (Some e) (last_continuous_seq b')"
        using l(4,8) m by auto
      ultimately show ?thesis
        using l(2,7) shrinks_trans [OF k(2) l(3)] emitted_from_shrinks [OF r k(2) l(6)] by blast
    qed
  qed
qed

lemma arrivals_present:
  assumes "ring_ok b" "(t, s) \<in> set (arrivals b)"
  shows "\<exists>p. GetPacket s b = Some p"
proof -
  have "(t, s) \<in># image_mset entry_of (mset (slots b))"
    using assms by (metis in_multiset_in_set ring_ok_def)
  then obtain i p where "(i, p) \<in> set (slots b)" "bp_seq p = s"
    by auto
  then show ?thesis
    using assms(1) GetPacket_iff [OF assms(1), of s p] by (auto simp: ring_ok_def)
qed

lemma floor_loop_ok:
  "(\<forall>e \<in> set es. GetPacket (snd e) b \<noteq> None) \<Longrightarrow>
     \<exists>fl ts'. floor_loop b es (f, ts) = Ok (fl, ts') \<and> le_opt f fl \<and> (\<forall>e \<in> set es. le_opt (Some (snd e)) fl)"
proof (induction es arbitrary: f ts)
  case (Cons e es)
  obtain t s where e: "e = (t, s)"
    by fastforce
  obtain p where p: "GetPacket s b = Some p"
    using Cons.prems by (auto simp: e)
  show ?case
  proof (cases "case f of None \<Rightarrow> True | Some x \<Rightarrow> s \<ge> x")
    case True
    obtain fl ts' where i: "floor_loop b es (Some s, Some (pk_timestamp (bp_packet p))) = Ok (fl, ts')"
        "le_opt (Some s) fl" "\<forall>e \<in> set es. le_opt (Some (snd e)) fl"
      using Cons.IH Cons.prems by (metis list.set_intros(2))
    moreover have "le_opt f fl"
      using True i(2) le_opt_trans [of f "Some s" fl] by (cases f) auto
    ultimately show ?thesis
      using True p by (simp add: e)
  next
    case False
    obtain fl ts' where i: "floor_loop b es (f, ts) = Ok (fl, ts')" "le_opt f fl"
        "\<forall>e \<in> set es. le_opt (Some (snd e)) fl"
      using Cons.IH Cons.prems by (metis list.set_intros(2))
    moreover have "le_opt (Some s) fl"
      using False i(2) le_opt_trans [of "Some s" f fl] by (cases f) auto
    ultimately show ?thesis
      using False by (simp add: e)
  qed
qed simp

lemma hb_ok_cleared: "hb_ok b \<Longrightarrow> hb_ok ((ClearInternal b)\<lparr>last_continuous_seq := l, last_continuous_timestamp := t,
    waiting_for_recovery := w\<rparr>)"
  by (simp add: hb_ok_def ring_ok_def frame_ok_def fresh_above_def ClearInternal_def omap_ok_def)

lemma H264_FlushExpired_ok:
  assumes "hb_ok b"
  shows "\<exists>n b'. H264_FlushExpired now b = Ok (n, b') \<and> hb_ok b' \<and> hb_config b' = hb_config b \<and>
    hb_unwrapper b' = hb_unwrapper b \<and> le_opt (last_continuous_seq b) (last_continuous_seq b') \<and>
    (b' = b \<and> n = 0 \<or>
     slots b' = [] \<and> n = length (slots b) \<and> waiting_for_recovery b' \<and>
     (\<forall>e \<in> set (slots b). le_opt (Some (bp_seq (snd e))) (last_continuous_seq b')))"
proof -
  have r: "ring_ok b"
    using assms by (simp add: hb_ok_def)
  have idle: ?thesis if "H264_FlushExpired now b = Ok (0, b)"
    using that assms by (intro exI) auto
  show ?thesis
  proof (cases "arrivals b")
    case Nil
    then show ?thesis
      by (intro idle) (simp add: H264_FlushExpired_def)
  next
    case (Cons a as)
    obtain oldest x where a: "a = (oldest, x)"
      by fastforce
    show ?thesis
    proof (cases "now < oldest \<or> now - oldest < ms (max_wait_ms (hb_config b))")
      case True
      then show ?thesis
        by (intro idle) (simp add: H264_FlushExpired_def Cons a)
    next
      case False
      obtain fl ts where f: "floor_loop b (arrivals b) (last_continuous_seq b, last_continuous_timestamp b) = Ok (fl, ts)"
          "le_opt (last_continuous_seq b) fl" "\<forall>e \<in> set (arrivals b). le_opt (Some (snd e)) fl"
        using floor_loop_ok [of "arrivals b" b] arrivals_present [OF r] by (metis option.distinct(1) prod.collapse)
      have "le_opt (Some (bp_seq (snd e))) fl" if "e \<in> set (slots b)" for e
      proof -
        have "entry_of e \<in># mset (arrivals b)"
          using r that by (simp add: ring_ok_def)
        then show ?thesis
          using f(3) by fastforce
      qed
      moreover have "buffered_packet_count b = length (slots b)"
        using r by (simp add: ring_ok_def)
      ultimately show ?thesis
        using False f(1,2) hb_ok_cleared [OF assms]
        by (simp add: H264_FlushExpired_def Cons a) (simp add: ClearInternal_def)
    qed
  qed
qed

lemma mset_mm_emplace [simp]: "mset (mm_emplace k v m) = add_mset (k, v) (mset m)"
  by (induction k v m rule: mm_emplace.induct) auto

lemma set_mm_emplace [simp]: "set (mm_emplace k v m) = insert (k, v) (set m)"
  by (induction k v m rule: mm_emplace.induct) auto

lemma sorted_mm_emplace: "sorted (map fst m) \<Longrightarrow> sorted (map fst (mm_emplace k v m))"
  by (induction k v m rule: mm_emplace.induct) auto

lemma mset_omap_emplace: "map_of m k = None \<Longrightarrow> mset (omap_emplace k v m) = add_mset (k, v) (mset m)"
  by (induction k v m rule: omap_emplace.induct) (auto split: if_splits)

lemma store_packet_ok:
  assumes "hb_ok b" "map_of (slots b) (BufferIndex s) = None" "le_opt (last_continuous_seq b) (Some (s - 1))"
  shows "hb_ok (store_packet s pk now b)"
    "set (slots (store_packet s pk now b)) =
       insert (BufferIndex s, \<lparr>bp_seq = s, bp_packet = pk, bp_arrival = now\<rparr>) (set (slots b))"
    "last_continuous_seq (store_packet s pk now b) = last_continuous_seq b"
    "hb_config (store_packet s pk now b) = hb_config b"
proof -
  let ?p = "\<lparr>bp_seq = s, bp_packet = pk, bp_arrival = now\<rparr>"
  have m: "mset (omap_emplace (BufferIndex s) ?p (slots b)) = add_mset (BufferIndex s, ?p) (mset (slots b))"
    by (rule mset_omap_emplace [OF assms(2)])
  have "set (omap_emplace (BufferIndex s) ?p (slots b)) = insert (BufferIndex s, ?p) (set (slots b))"
    by (metis m set_mset_add_mset_insert set_mset_mset)
  then show sl: "set (slots (store_packet s pk now b)) = insert (BufferIndex s, ?p) (set (slots b))"
    by (simp add: store_packet_def)
  show "last_continuous_seq (store_packet s pk now b) = last_continuous_seq b"
    "hb_config (store_packet s pk now b) = hb_config b"
    by (simp_all add: store_packet_def)
  have "length (omap_emplace (BufferIndex s) ?p (slots b)) = Suc (length (slots b))"
    using arg_cong [OF m, of size] by simp
  then have "ring_ok (store_packet s pk now b)"
    using assms(1) sl m
    by (simp add: hb_ok_def ring_ok_def store_packet_def omap_ok_emplace sorted_mm_emplace)
  moreover have "fresh_above (store_packet s pk now b)"
    using assms(1,3) sl
    by (auto simp: hb_ok_def fresh_above_def store_packet_def split: option.splits)
  ultimately show "hb_ok (store_packet s pk now b)"
    using assms(1) by (simp add: hb_ok_def frame_ok_def store_packet_def cong: option.case_cong)
qed

text \<open>
  What an insertion does: it never faults, keeps the invariant, never moves the last continuous number
  back, and the frames it emits are good frames of the buffer with the new packet stored, in strictly
  ascending order and above everything continuous before.
\<close>

definition known :: "h264_buffer \<Rightarrow> H264ParsedPacket \<Rightarrow> nat \<times> BufferedPacket \<Rightarrow> bool" where
  "known b pk e \<longleftrightarrow>
     e \<in> set (slots b) \<or>
     bp_packet (snd e) = pk \<and> word_of_int (bp_seq (snd e)) = pk_seq pk \<and> pk_valid pk \<and> \<not> pk_malformed pk"

definition insert_ok :: "h264_buffer \<Rightarrow> H264ParsedPacket \<Rightarrow> (InsertResult \<times> h264_buffer) outcome \<Rightarrow> bool" where
  "insert_ok b pk r \<longleftrightarrow>
     (\<exists>res b' B es. r = Ok (res, b') \<and> hb_ok b' \<and> hb_config b' = hb_config b \<and>
        le_opt (last_continuous_seq b) (last_continuous_seq b') \<and>
        hb_ok B \<and> hb_config B = hb_config b \<and>
        (\<forall>e \<in> set (slots B) \<union> set (slots b'). known b pk e) \<and>
        emitted_from B es (ir_frames res) \<and> sorted_wrt (<) es \<and>
        (\<forall>e \<in> set es. le_opt (last_continuous_seq b) (Some (e - 1)) \<and> le_opt (Some e) (last_continuous_seq b')))"

lemma insert_ok_idle:
  assumes "hb_ok b" "hb_ok b'" "hb_config b' = hb_config b" "ir_frames res = []"
    "le_opt (last_continuous_seq b) (last_continuous_seq b')" "set (slots b') \<subseteq> set (slots b)"
  shows "insert_ok b pk (Ok (res, b'))"
  unfolding insert_ok_def using assms
  by (intro exI [of _ res] exI [of _ b'] exI [of _ b] exI [of _ "[]"]) (auto simp: emitted_from_def known_def)

lemma insert_ok_stored:
  assumes "hb_ok c" "hb_config c = hb_config b" "le_opt (last_continuous_seq b) (last_continuous_seq c)"
    and "set (slots c) \<subseteq> set (slots b)" "map_of (slots c) (BufferIndex s) = None"
    and "le_opt (last_continuous_seq c) (Some (s - 1))"
    and "word_of_int s = pk_seq pk" "pk_valid pk" "\<not> pk_malformed pk"
  shows "insert_ok b pk (bind_outcome (FindFrames s (store_packet s pk now c)) (\<lambda>(b, fs).
    Ok (res\<lparr>inserted := True, ir_frames := fs\<rparr>, b)))"
proof -
  note st = store_packet_ok [OF assms(1,5,6), of pk now]
  let ?B = "store_packet s pk now c"
  obtain b' fs es where f: "FindFrames s ?B = Ok (b', fs)" "hb_ok b'" "shrinks ?B b'"
      "le_opt (last_continuous_seq ?B) (last_continuous_seq b')" "emitted_from ?B es fs" "sorted_wrt (<) es"
      "\<forall>e \<in> set es. s \<le> e \<and> le_opt (last_continuous_seq ?B) (Some (e - 1)) \<and> le_opt (Some e) (last_continuous_seq b')"
    using FindFrames_ok [OF st(1), of s] by blast
  have "le_opt (last_continuous_seq b) (last_continuous_seq b')"
    using le_opt_trans [OF assms(3)] f(4) st(3) by simp
  moreover have "\<forall>e \<in> set es. le_opt (last_continuous_seq b) (Some (e - 1)) \<and> le_opt (Some e) (last_continuous_seq b')"
    using f(7) le_opt_trans [OF assms(3)] st(3) by auto
  moreover have "hb_config b' = hb_config b"
    using f(3) st(4) assms(2) by (simp add: shrinks_def)
  moreover have "\<forall>e \<in> set (slots ?B) \<union> set (slots b'). known b pk e"
    using st(2) assms(4,7,8,9) f(3) by (auto simp: known_def shrinks_def)
  ultimately show ?thesis
    unfolding insert_ok_def f(1) using f(2,5,6) st(1,4) assms(2)
    by (intro exI [of _ "res\<lparr>inserted := True, ir_frames := fs\<rparr>"] exI [of _ b'] exI [of _ ?B] exI [of _ es]) simp
qed

lemma Unwrapper_Unwrap_word: "Unwrapper_Unwrap x u = (s, u') \<Longrightarrow> word_of_int s = x"
  by (auto simp: Unwrapper_Unwrap_def Let_def split: if_splits)

lemma erase_index_filter:
  "ring_ok b \<Longrightarrow> omap_erase i (slots b) = filter (\<lambda>e. BufferIndex (bp_seq (snd e)) \<noteq> i) (slots b)"
  unfolding omap_erase_def by (rule filter_cong) (auto simp: ring_ok_def)

lemma H264_InsertPacket_ok:
  assumes "hb_ok b"
  shows "insert_ok b pk (H264_InsertPacket pk now b)"
proof (cases "\<not> pk_valid pk \<or> pk_malformed pk")
  case True
  then show ?thesis
    using assms by (simp add: H264_InsertPacket_def) (auto intro: insert_ok_idle simp: InsertResult_init_def)
next
  case valid: False
  obtain n c where c: "H264_FlushExpired now b = Ok (n, c)" "hb_ok c" "hb_config c = hb_config b"
      "le_opt (last_continuous_seq b) (last_continuous_seq c)" "c = b \<or> slots c = []"
    using H264_FlushExpired_ok [OF assms, of now] by blast
  obtain s u where u: "Unwrapper_Unwrap (pk_seq pk) (hb_unwrapper c) = (s, u)"
    by fastforce
  have w: "word_of_int s = pk_seq pk"
    using Unwrapper_Unwrap_word [OF u] .
  let ?res = "InsertResult_init\<lparr>expired_packets := n\<rparr>" and ?c = "c\<lparr>hb_unwrapper := u\<rparr>"
  have idle: "insert_ok b pk (Ok (r, ?c))" if "ir_frames r = []" for r
    using that assms c by (intro insert_ok_idle) auto
  show ?thesis
  proof (cases "case last_continuous_seq c of None \<Rightarrow> False | Some l \<Rightarrow> s \<le> l")
    case True
    then show ?thesis
      using valid c(1) u idle [of "?res\<lparr>ir_late := True\<rparr>"]
      by (simp add: H264_InsertPacket_def InsertResult_init_def)
  next
    case above: False
    then have ab: "le_opt (last_continuous_seq ?c) (Some (s - 1))"
      by (auto split: option.splits)
    have sub: "set (slots ?c) \<subseteq> set (slots b)"
      using c(5) by auto
    show ?thesis
    proof (cases "map_of (slots c) (BufferIndex s)")
      case None
      then have "insert_ok b pk (bind_outcome (FindFrames s (store_packet s pk now ?c)) (\<lambda>(b, fs).
          Ok (?res\<lparr>inserted := True, ir_frames := fs\<rparr>, b)))"
        using c ab sub w valid by (intro insert_ok_stored) simp_all
      then show ?thesis
        using valid c(1) u above None by (simp add: H264_InsertPacket_def)
    next
      case (Some p)
      consider "bp_seq p = s" | "bp_seq p > s" | "bp_seq p < s"
        by linarith
      then show ?thesis
      proof cases
        case 1
        then show ?thesis
          using valid c(1) u above Some idle [of "?res\<lparr>ir_duplicate := True\<rparr>"]
          by (simp add: H264_InsertPacket_def InsertResult_init_def)
      next
        case 2
        then show ?thesis
          using valid c(1) u above Some idle [of "?res\<lparr>ir_late := True\<rparr>"]
          by (simp add: H264_InsertPacket_def InsertResult_init_def)
      next
        case 3
        let ?d = "ErasePacket (BufferIndex s) ?c"
        have r: "ring_ok ?c"
          using c(2) by (simp add: hb_ok_def)
        note e = ErasePacket_ring [OF r, of "BufferIndex s"]
        have k: "keeps (\<lambda>q. BufferIndex (bp_seq q) \<noteq> BufferIndex s) ?c ?d"
          using e erase_index_filter [OF r] by (simp add: keeps_def)
        have "hb_ok ?d" "hb_config ?d = hb_config b" "last_continuous_seq ?d = last_continuous_seq c"
          using hb_ok_keeps [OF _ k] c(2,3) e(2) by (simp_all add: same_control_def)
        moreover have "set (slots ?d) \<subseteq> set (slots b)" "map_of (slots ?d) (BufferIndex s) = None"
          using e(3) sub by (auto simp: omap_erase_def map_of_eq_None_iff)
        ultimately have "insert_ok b pk (bind_outcome (FindFrames s (store_packet s pk now ?d)) (\<lambda>(b, fs).
            Ok (?res\<lparr>buffer_collision := True, inserted := True, ir_frames := fs\<rparr>, b)))"
          using c(4) ab w valid insert_ok_stored [of ?d b s pk now "?res\<lparr>buffer_collision := True\<rparr>"] by simp
        then show ?thesis
          using 3 valid c(1) u above Some by (simp add: H264_InsertPacket_def)
      qed
    qed
  qed
qed

section \<open>The buffer as a machine\<close>

datatype h264_event = H264Packet H264ParsedPacket int | H264Tick int | H264Restart

fun h264_step :: "h264_buffer \<Rightarrow> h264_event \<Rightarrow> h264_buffer \<times> H264AccessUnit list" where
  "h264_step b (H264Packet pk now) =
     (case H264_InsertPacket pk now b of Ok (res, b') \<Rightarrow> (b', ir_frames res) | _ \<Rightarrow> (b, []))"
| "h264_step b (H264Tick now) = (case H264_FlushExpired now b of Ok (n, b') \<Rightarrow> (b', []) | _ \<Rightarrow> (b, []))"
| "h264_step b H264Restart = (H264Buffer_Reset b, [])"

text \<open>Every packet held is a valid one, stored under an extension of its own sequence number.\<close>

definition seqs_ok :: "h264_buffer \<Rightarrow> bool" where
  "seqs_ok b \<longleftrightarrow>
     (\<forall>e \<in> set (slots b). word_of_int (bp_seq (snd e)) = pk_seq (bp_packet (snd e)) \<and>
        pk_valid (bp_packet (snd e)) \<and> \<not> pk_malformed (bp_packet (snd e)))"

definition hb_inv :: "h264_buffer \<Rightarrow> bool" where
  "hb_inv b \<longleftrightarrow> hb_ok b \<and> seqs_ok b"

lemma seqs_ok_known: "seqs_ok b \<Longrightarrow> \<forall>e \<in> set (slots b'). known b pk e \<Longrightarrow> seqs_ok b'"
  by (auto simp: seqs_ok_def known_def)

lemma insert_okE:
  assumes "hb_inv b"
  obtains res b' B es where "H264_InsertPacket pk now b = Ok (res, b')" "hb_inv b'" "hb_config b' = hb_config b"
    "le_opt (last_continuous_seq b) (last_continuous_seq b')" "hb_ok B" "seqs_ok B" "hb_config B = hb_config b"
    "\<forall>e \<in> set (slots B). known b pk e" "emitted_from B es (ir_frames res)" "sorted_wrt (<) es"
    "\<forall>e \<in> set es. le_opt (last_continuous_seq b) (Some (e - 1)) \<and> le_opt (Some e) (last_continuous_seq b')"
proof -
  have b: "hb_ok b" "seqs_ok b"
    using assms by (simp_all add: hb_inv_def)
  from H264_InsertPacket_ok [OF b(1), of pk now] obtain res b' B es where
    i: "H264_InsertPacket pk now b = Ok (res, b')" "hb_ok b'" "hb_config b' = hb_config b"
    "le_opt (last_continuous_seq b) (last_continuous_seq b')" "hb_ok B" "hb_config B = hb_config b"
    "\<forall>e \<in> set (slots B) \<union> set (slots b'). known b pk e" "emitted_from B es (ir_frames res)" "sorted_wrt (<) es"
    "\<forall>e \<in> set es. le_opt (last_continuous_seq b) (Some (e - 1)) \<and> le_opt (Some e) (last_continuous_seq b')"
    unfolding insert_ok_def by blast
  have "seqs_ok b'" "seqs_ok B"
    using i(7) seqs_ok_known [OF b(2)] by blast+
  then show ?thesis
    using i by (intro that [of res b' B es]) (auto simp: hb_inv_def)
qed

lemma hb_inv_new: "hb_inv (H264Buffer_new c)"
  by (auto simp: hb_inv_def seqs_ok_def hb_ok_def ring_ok_def frame_ok_def fresh_above_def H264Buffer_new_def
      omap_ok_def kBufferSize_def)

lemma hb_inv_flush:
  assumes "hb_inv b"
  obtains n b' where "H264_FlushExpired now b = Ok (n, b')" "hb_inv b'" "hb_config b' = hb_config b"
    "le_opt (last_continuous_seq b) (last_continuous_seq b')"
  using H264_FlushExpired_ok [of b now] assms by (auto simp: hb_inv_def seqs_ok_def)

lemma hb_inv_step: "hb_inv b \<Longrightarrow> hb_inv (fst (h264_step b e))"
proof (cases e)
  case (H264Packet pk now)
  assume "hb_inv b"
  then show ?thesis
    by (rule insert_okE [of b pk now]) (simp add: H264Packet)
next
  case (H264Tick now)
  assume "hb_inv b"
  then show ?thesis
    by (rule hb_inv_flush [of b now]) (simp add: H264Tick)
next
  case H264Restart
  assume "hb_inv b"
  then show ?thesis
    by (auto simp: H264Restart hb_inv_def seqs_ok_def hb_ok_def ring_ok_def frame_ok_def fresh_above_def
        H264Buffer_Reset_def ClearInternal_def omap_ok_def)
qed

interpretation h264_inv: invariant_machine h264_step "\<lambda>_. True" hb_inv
  by unfold_locales (rule hb_inv_step)

lemma h264_reachable_inv: "hb_inv (fst (run h264_step (H264Buffer_new c) es))"
  by (rule h264_inv.run_inv [OF hb_inv_new]) (simp add: list_all_iff)

text \<open>Over a run without a reset the emitted frames have strictly growing extended numbers.\<close>

lemma h264_run_keys:
  assumes "hb_inv b" "H264Restart \<notin> set es"
  shows "\<exists>ks. map last_seq (snd (run h264_step b es)) = map word_of_int ks \<and> sorted_wrt (<) ks \<and>
    (\<forall>k \<in> set ks. le_opt (last_continuous_seq b) (Some (k - 1))) \<and>
    le_opt (last_continuous_seq b) (last_continuous_seq (fst (run h264_step b es)))"
  using assms
proof (induction es arbitrary: b)
  case Nil
  then show ?case
    by (intro exI [of _ "[]"]) simp
next
  case (Cons e es)
  obtain b' fs where st: "h264_step b e = (b', fs)"
    by fastforce
  have "\<exists>ks. map last_seq fs = map word_of_int ks \<and> sorted_wrt (<) ks \<and>
      (\<forall>k \<in> set ks. le_opt (last_continuous_seq b) (Some (k - 1)) \<and> le_opt (Some k) (last_continuous_seq b')) \<and>
      le_opt (last_continuous_seq b) (last_continuous_seq b') \<and> hb_inv b'"
  proof (cases e)
    case (H264Packet pk now)
    from Cons.prems(1) show ?thesis
    proof (rule insert_okE [of b pk now])
      fix res c B ks
      assume i: "H264_InsertPacket pk now b = Ok (res, c)" "hb_inv c" "le_opt (last_continuous_seq b) (last_continuous_seq c)"
        "emitted_from B ks (ir_frames res)" "sorted_wrt (<) ks"
        "\<forall>k \<in> set ks. le_opt (last_continuous_seq b) (Some (k - 1)) \<and> le_opt (Some k) (last_continuous_seq c)"
      have "map last_seq (ir_frames res) = map word_of_int ks"
        using i(4) unfolding emitted_from_def
        by (induction rule: list_all2_induct) (auto simp: good_frame_def)
      then show ?thesis
        using i st H264Packet by auto
    qed
  next
    case (H264Tick now)
    from Cons.prems(1) show ?thesis
      by (rule hb_inv_flush [of b now]) (use st H264Tick in auto)
  qed (use Cons.prems in auto)
  then obtain ks where k: "map last_seq fs = map word_of_int ks" "sorted_wrt (<) ks"
      "\<forall>k \<in> set ks. le_opt (last_continuous_seq b) (Some (k - 1)) \<and> le_opt (Some k) (last_continuous_seq b')"
      "le_opt (last_continuous_seq b) (last_continuous_seq b')" "hb_inv b'"
    by blast
  obtain js where j: "map last_seq (snd (run h264_step b' es)) = map word_of_int js" "sorted_wrt (<) js"
      "\<forall>k \<in> set js. le_opt (last_continuous_seq b') (Some (k - 1))"
      "le_opt (last_continuous_seq b') (last_continuous_seq (fst (run h264_step b' es)))"
    using Cons.IH [OF k(5)] Cons.prems(2) by auto
  have "x < y" if "x \<in> set ks" "y \<in> set js" for x y
  proof -
    have "le_opt (Some x) (Some (y - 1))"
      using k(3) j(3) that le_opt_trans by blast
    then show ?thesis
      by simp
  qed
  then show ?case
    using k j le_opt_trans [OF k(4)]
    by (intro exI [of _ "ks @ js"]) (auto simp: st split_def Let_def sorted_wrt_append)
qed

section \<open>Properties\<close>

text \<open>
  C24: in every state the buffer can reach, inserting any packet and expiring at any time return normally:
  no null packet is dereferenced, the packet count equals the number of occupied slots and never
  exceeds 2048, and the arrival times are exactly those of the packets held.
\<close>
theorem H264_buffer_consistent:
  "let b = fst (run h264_step (H264Buffer_new c) es) in
     H264_InsertPacket pk now b \<noteq> Fault \<and> H264_FlushExpired now b \<noteq> Fault \<and>
     buffered_packet_count b = length (slots b) \<and> length (slots b) \<le> kBufferSize \<and>
     mset (arrivals b) = mset (map (\<lambda>e. (bp_arrival (snd e), bp_seq (snd e))) (slots b))"
proof -
  let ?b = "fst (run h264_step (H264Buffer_new c) es)"
  have i: "hb_inv ?b"
    by (rule h264_reachable_inv)
  then have r: "ring_ok ?b"
    by (simp add: hb_inv_def hb_ok_def)
  have "H264_InsertPacket pk now ?b \<noteq> Fault"
    using i by (rule insert_okE [of ?b pk now]) simp
  moreover have "H264_FlushExpired now ?b \<noteq> Fault"
    using i by (rule hb_inv_flush [of ?b now]) simp
  ultimately show ?thesis
    using r slots_bounded [OF r] by (simp add: Let_def ring_ok_def)
qed

text \<open>The packets of a range as a list.\<close>

definition packets_at :: "h264_buffer \<Rightarrow> int \<Rightarrow> int \<Rightarrow> H264ParsedPacket list" where
  "packets_at b s e = map (\<lambda>x. bp_packet (the (GetPacket x b))) [s..e]"

lemma good_frame_packets:
  assumes "good_frame b s e f"
  shows "carries (concat (map units (packets_at b s e))) (nalus f)" "packets_at b s e \<noteq> []"
    "\<forall>p \<in> set (packets_at b s e). pk_ssrc p = au_ssrc f \<and> pk_timestamp p = au_timestamp f"
    "int (length (packets_at b s e)) = e - s + 1"
proof -
  have "units (bp_packet (the (GetPacket x b))) = units_at b x" if "x \<in> set [s..e]" for x
    using assms that unfolding good_frame_def belong_def by (auto simp: units_at_def simp del: set_upto)
  then have "map units (packets_at b s e) = map (units_at b) [s..e]"
    by (simp add: packets_at_def)
  then show "carries (concat (map units (packets_at b s e))) (nalus f)"
    using assms by (simp only: good_frame_def)
  show "packets_at b s e \<noteq> []" "int (length (packets_at b s e)) = e - s + 1"
    using assms by (auto simp: packets_at_def good_frame_def)
  show "\<forall>p \<in> set (packets_at b s e). pk_ssrc p = au_ssrc f \<and> pk_timestamp p = au_timestamp f"
    using assms unfolding good_frame_def belong_def by (fastforce simp: packets_at_def simp del: set_upto)
qed

text \<open>
  C22: an emitted access unit is genuine.  Whatever arrived before, every frame an insertion returns was
  built from packets the buffer held or the packet just inserted; these packets carry consecutive
  sequence numbers (across the wrap-around), the frame's source and its timestamp, the last one has
  the marker bit, there are at most \<open>max_frame_packets\<close> of them, and the frame's NAL units are exactly
  what their payload units carry: whole units, and fragment runs with a matching header from a start
  to its end.
\<close>
theorem H264_frame_genuine:
  assumes "b = fst (run h264_step (H264Buffer_new c) es)" "H264_InsertPacket pk now b = Ok (res, b')"
    and "f \<in> set (ir_frames res)"
  shows "\<exists>pks. pks \<noteq> [] \<and> length pks \<le> max_frame_packets (hb_config b) \<and>
    set pks \<subseteq> insert pk ((bp_packet \<circ> snd) ` set (slots b)) \<and>
    map pk_seq pks = map (\<lambda>i. first_seq f + of_nat i) [0..<length pks] \<and> pk_seq (last pks) = last_seq f \<and>
    (\<forall>p \<in> set pks. pk_ssrc p = au_ssrc f \<and> pk_timestamp p = au_timestamp f) \<and> pk_marker (last pks) \<and>
    carries (concat (map units pks)) (nalus f) \<and> nalus f \<noteq> [] \<and> complete f"
proof -
  have "hb_inv b"
    using h264_reachable_inv assms(1) by simp
  then show ?thesis
  proof (rule insert_okE [of b pk now])
    fix res2 b2 B ks
    assume i: "H264_InsertPacket pk now b = Ok (res2, b2)" "hb_ok B" "seqs_ok B" "hb_config B = hb_config b"
      "\<forall>e \<in> set (slots B). known b pk e" "emitted_from B ks (ir_frames res2)"
    obtain e st p where g: "good_frame B st e f" "GetPacket e B = Some p" "pk_marker (bp_packet p)"
      using i(1,6) assms(2,3) unfolding emitted_from_def
      by (auto simp: list_all2_conv_all_nth in_set_conv_nth)
    note gp = good_frame_packets [OF g(1)]
    have r: "ring_ok B"
      using i(2) by (simp add: hb_ok_def)
    have at: "\<exists>q. GetPacket x B = Some q \<and> (BufferIndex x, q) \<in> set (slots B) \<and> word_of_int x = pk_seq (bp_packet q)"
      if x: "st \<le> x" "x \<le> e" for x
    proof -
      obtain q where "GetPacket x B = Some q"
        using g(1) x by (auto simp: good_frame_def belong_def dest!: bspec [of _ _ x])
      then show ?thesis
        using i(3) GetPacket_iff [OF r, of x q] by (force simp: seqs_ok_def)
    qed
    have "set (packets_at B st e) \<subseteq> insert pk ((bp_packet \<circ> snd) ` set (slots b))"
    proof
      fix q
      assume "q \<in> set (packets_at B st e)"
      then obtain x where "st \<le> x" "x \<le> e" "q = bp_packet (the (GetPacket x B))"
        by (auto simp: packets_at_def)
      then obtain q' where q': "(BufferIndex x, q') \<in> set (slots B)" "q = bp_packet q'"
        using at by fastforce
      then have "known b pk (BufferIndex x, q')"
        using i(5) by blast
      then show "q \<in> insert pk ((bp_packet \<circ> snd) ` set (slots b))"
        using q'(2) by (force simp: known_def)
    qed
    moreover have "map pk_seq (packets_at B st e) = map (\<lambda>i. first_seq f + of_nat i) [0..<length (packets_at B st e)]"
    proof (rule nth_equalityI)
      fix k
      assume "k < length (map pk_seq (packets_at B st e))"
      then have k: "int k < e - st + 1"
        using gp(4) by simp
      then have "[st..e] ! k = st + int k"
        by (simp add: nth_upto)
      then show "map pk_seq (packets_at B st e) ! k =
          map (\<lambda>i. first_seq f + of_nat i) [0..<length (packets_at B st e)] ! k"
        using k at [of "st + int k"] g(1)
        by (auto simp: packets_at_def good_frame_def)
    qed simp
    moreover have "last (packets_at B st e) = bp_packet p"
      using g(1,2) by (auto simp: packets_at_def good_frame_def last_map upto_rec2)
    moreover have "pk_seq (bp_packet p) = last_seq f"
      using at [of e] g(1,2) by (auto simp: good_frame_def)
    ultimately show ?thesis
      using gp g(1,3) i(4)
      by (intro exI [of _ "packets_at B st e"]) (auto simp: good_frame_def)
  qed
qed

lemma find_loop_code [code]:
  "find_loop n s b frames =
     (if n = 0 then Ok (b, frames)
      else case GetPacket s b of
        None \<Rightarrow> Ok (b, frames)
      | Some bp \<Rightarrow> bind_outcome (advance_one s (bp_packet bp) b) (\<lambda>(fs, b). find_loop (n - 1) (s + 1) b (frames @ fs)))"
  by (cases n) (auto cong: option.case_cong)

text \<open>A packet with one whole coded slice, for the examples.\<close>

definition slice_packet :: "u16 \<Rightarrow> u32 \<Rightarrow> bool \<Rightarrow> bytes \<Rightarrow> H264ParsedPacket" where
  "slice_packet seq ts m d =
     (push_unit H264ParsedPacket_init (H264PayloadUnit_init\<lparr>unit_type := SingleNalu, nal_type := H264GetNalType (hd d),
        first_slice := (d ! 1 AND 0x80 \<noteq> 0), unit_data := d\<rparr>))
     \<lparr>pk_valid := True, pk_seq := seq, pk_timestamp := ts, pk_marker := m\<rparr>"

theorem H264_frame_genuine_witness:
  "\<exists>res b' f (pks :: H264ParsedPacket list). H264_InsertPacket (slice_packet 0 9 True [0x41, 0x11]) 5
       (fst (run h264_step (H264Buffer_new h264_config_default) [H264Packet (slice_packet 65535 9 False [0x65, 0x88]) 1])) =
       Ok (res, b') \<and>
     ir_frames res = [f] \<and> nalus f = [[0x65, 0x88], [0x41, 0x11]] \<and> complete f \<and> carries (concat (map units pks)) (nalus f)"
proof -
  let ?b = "fst (run h264_step (H264Buffer_new h264_config_default) [H264Packet (slice_packet 65535 9 False [0x65, 0x88]) 1])"
  let ?pk = "slice_packet 0 9 True [0x41, 0x11]"
  have "(case H264_InsertPacket ?pk 5 ?b of
      Ok (res, b') \<Rightarrow> map nalus (ir_frames res) = [[[0x65, 0x88], [0x41, 0x11]]] | _ \<Rightarrow> False)"
    by code_simp
  then obtain res b' f where r: "H264_InsertPacket ?pk 5 ?b = Ok (res, b')" "ir_frames res = [f]"
      "nalus f = [[0x65, 0x88], [0x41, 0x11]]"
    by (auto split: outcome.splits)
  have "f \<in> set (ir_frames res)"
    using r(2) by simp
  from H264_frame_genuine [OF refl r(1) this] r show ?thesis
    by (elim exE conjE, intro exI conjI)
qed



text \<open>
  C25: what expired stays expired.  Once expiry has discarded packets, a packet whose extended number is
  not above one of those discarded is refused as late and yields no frame, so a late retransmission
  cannot revive an abandoned access unit.
\<close>
theorem H264_expired_stay_late:
  assumes "b = fst (run h264_step (H264Buffer_new c) es)" "H264_FlushExpired now b = Ok (n, b')" "n \<noteq> 0"
    and "(i, p) \<in> set (slots b)" "pk_valid pk" "\<not> pk_malformed pk"
    and "fst (Unwrapper_Unwrap (pk_seq pk) (hb_unwrapper b)) \<le> bp_seq p"
  shows "\<exists>res b''. H264_InsertPacket pk later b' = Ok (res, b'') \<and> ir_late res \<and> \<not> inserted res \<and> ir_frames res = []"
proof -
  have "hb_inv b"
    using h264_reachable_inv assms(1) by simp
  then have f: "hb_ok b'" "slots b' = []" "hb_unwrapper b' = hb_unwrapper b"
      "\<forall>e \<in> set (slots b). le_opt (Some (bp_seq (snd e))) (last_continuous_seq b')"
    using H264_FlushExpired_ok [of b now] assms(2,3) by (auto simp: hb_inv_def)
  have "arrivals b' = []"
    using f(1,2) by (auto simp: hb_ok_def ring_ok_def)
  moreover obtain s u where u: "Unwrapper_Unwrap (pk_seq pk) (hb_unwrapper b) = (s, u)"
    by fastforce
  moreover obtain l where "last_continuous_seq b' = Some l" "s \<le> l"
    using f(4) assms(4,7) u by (cases "last_continuous_seq b'") force+
  ultimately show ?thesis
    using assms(5,6) f(3)
    by (simp add: H264_InsertPacket_def H264_FlushExpired_def InsertResult_init_def)
qed

theorem H264_expired_stay_late_witness:
  "\<exists>n b' res b''. H264_FlushExpired 200000000
       (fst (run h264_step (H264Buffer_new h264_config_default) [H264Packet (slice_packet 7 9 False [0x65, 0x88]) 1])) =
       Ok (n, b') \<and> H264_InsertPacket (slice_packet 7 9 True [0x65, 0x88]) 300000000 b' = Ok (res, b'') \<and> ir_late res"
proof -
  let ?b = "fst (run h264_step (H264Buffer_new h264_config_default) [H264Packet (slice_packet 7 9 False [0x65, 0x88]) 1])"
  let ?pk = "slice_packet 7 9 True [0x65, 0x88]"
  have "(case H264_FlushExpired 200000000 ?b of Ok (n, b') \<Rightarrow> n = 1 | _ \<Rightarrow> False)"
    by code_simp
  then obtain b' where f: "H264_FlushExpired 200000000 ?b = Ok (1, b')"
    by (auto split: outcome.splits)
  have "map (\<lambda>(i, p). (i, bp_seq p)) (slots ?b) = [(7, 7)]"
    by code_simp
  then obtain p where p: "(7, p) \<in> set (slots ?b)" "bp_seq p = 7"
    by auto
  have "fst (Unwrapper_Unwrap (pk_seq ?pk) (hb_unwrapper ?b)) \<le> 7"
    by code_simp
  then have "fst (Unwrapper_Unwrap (pk_seq ?pk) (hb_unwrapper ?b)) \<le> bp_seq p"
    unfolding p(2) .
  moreover have "pk_valid ?pk" "\<not> pk_malformed ?pk"
    by code_simp+
  ultimately have "\<exists>res b''. H264_InsertPacket ?pk 300000000 b' = Ok (res, b'') \<and> ir_late res \<and> \<not> inserted res \<and>
      ir_frames res = []"
    by (intro H264_expired_stay_late [OF refl f one_neq_zero p(1)])
  with f show ?thesis
    by (elim exE conjE, intro exI conjI)
qed

end
