(* ===== verification/H264_Reassembly.thy ===== *)
theory H264_Reassembly
  imports H264_Packet_Buffer
begin

text \<open>
  The jitter buffer delivers: an access unit whose packets arrive in any order after its first one comes
  out exactly once, as soon as its last missing packet arrives, with exactly the NAL units its packets
  carry.  (\<open>H264PacketBuffer::InsertPacket\<close> of \<open>src/Common/Depacketizer/H26xPacketBuffer.cpp\<close>.)
\<close>

section \<open>An access unit and a buffer assembling it\<close>

text \<open>
  The packets of an access unit that opens a stream: consecutive numbers from \<open>s0\<close>, one source and
  timestamp, the marker on the last packet only, a stream start in the first packet, and units that
  carry the NAL units \<open>ns\<close>.
\<close>

definition access_unit :: "h264_config \<Rightarrow> u16 \<Rightarrow> H264ParsedPacket list \<Rightarrow> bytes list \<Rightarrow> bool" where
  "access_unit c s0 pks ns \<longleftrightarrow>
     pks \<noteq> [] \<and> length pks \<le> max_frame_packets c \<and> max_frame_packets c \<le> kBufferSize \<and>
     idr_only_keyframes_allowed c \<and>
     (\<forall>i < length pks. pk_seq (pks ! i) = s0 + of_nat i \<and> pk_valid (pks ! i) \<and> \<not> pk_malformed (pks ! i) \<and>
        pk_ssrc (pks ! i) = pk_ssrc (pks ! 0) \<and> pk_timestamp (pks ! i) = pk_timestamp (pks ! 0) \<and>
        (pk_marker (pks ! i) \<longleftrightarrow> Suc i = length pks)) \<and>
     BeginningOfStream (H264Buffer_new c) (pks ! 0) \<and> carries (concat (map units pks)) ns \<and> ns \<noteq> [] \<and>
     first_slice_seen (concat (map units pks)) False \<noteq> None"

lemma access_unitD:
  assumes "access_unit c s0 pks ns"
  shows "i < length pks \<Longrightarrow> pk_seq (pks ! i) = s0 + of_nat i"
    "i < length pks \<Longrightarrow> pk_valid (pks ! i)" "i < length pks \<Longrightarrow> \<not> pk_malformed (pks ! i)"
    "i < length pks \<Longrightarrow> pk_ssrc (pks ! i) = pk_ssrc (pks ! 0)"
    "i < length pks \<Longrightarrow> pk_timestamp (pks ! i) = pk_timestamp (pks ! 0)"
    "i < length pks \<Longrightarrow> pk_marker (pks ! i) \<longleftrightarrow> Suc i = length pks"
    "length pks \<le> max_frame_packets c" "length pks \<le> kBufferSize" "idr_only_keyframes_allowed c" "0 < length pks"
    "BeginningOfStream (H264Buffer_new c) (pks ! 0)" "carries (concat (map units pks)) ns" "ns \<noteq> []"
    "first_slice_seen (concat (map units pks)) False \<noteq> None" "0 < max_frame_packets c"
proof -
  have a: "pks \<noteq> []" "length pks \<le> max_frame_packets c" "max_frame_packets c \<le> kBufferSize"
      "idr_only_keyframes_allowed c" "BeginningOfStream (H264Buffer_new c) (pks ! 0)"
      "carries (concat (map units pks)) ns" "ns \<noteq> []" "first_slice_seen (concat (map units pks)) False \<noteq> None"
    and b: "\<forall>i < length pks. pk_seq (pks ! i) = s0 + of_nat i \<and> pk_valid (pks ! i) \<and> \<not> pk_malformed (pks ! i) \<and>
        pk_ssrc (pks ! i) = pk_ssrc (pks ! 0) \<and> pk_timestamp (pks ! i) = pk_timestamp (pks ! 0) \<and>
        (pk_marker (pks ! i) \<longleftrightarrow> Suc i = length pks)"
    using assms unfolding access_unit_def by blast+
  show "length pks \<le> max_frame_packets c" "length pks \<le> kBufferSize" "idr_only_keyframes_allowed c" "0 < length pks"
    "BeginningOfStream (H264Buffer_new c) (pks ! 0)" "carries (concat (map units pks)) ns" "ns \<noteq> []"
    "first_slice_seen (concat (map units pks)) False \<noteq> None"
    using a by simp_all
  show "0 < max_frame_packets c"
    using a(1,2) by (cases pks) auto
  assume "i < length pks"
  then show "pk_seq (pks ! i) = s0 + of_nat i" "pk_valid (pks ! i)" "\<not> pk_malformed (pks ! i)"
    "pk_ssrc (pks ! i) = pk_ssrc (pks ! 0)" "pk_timestamp (pks ! i) = pk_timestamp (pks ! 0)"
    "pk_marker (pks ! i) \<longleftrightarrow> Suc i = length pks"
    using b by blast+
qed

definition entry_at :: "H264ParsedPacket list \<Rightarrow> (nat \<Rightarrow> int) \<Rightarrow> int \<Rightarrow> nat \<Rightarrow> nat \<times> BufferedPacket" where
  "entry_at pks t u i = (BufferIndex (u + int i), \<lparr>bp_seq = u + int i, bp_packet = pks ! i, bp_arrival = t i\<rparr>)"

text \<open>The packets with indices in \<open>R\<close> have arrived, those up to \<open>k\<close> have been passed.\<close>

definition assembling :: "h264_config \<Rightarrow> H264ParsedPacket list \<Rightarrow> (nat \<Rightarrow> int) \<Rightarrow> int \<Rightarrow> nat set \<Rightarrow> nat \<Rightarrow> h264_buffer \<Rightarrow> bool" where
  "assembling c pks t u R k b \<longleftrightarrow>
     hb_ok b \<and> hb_config b = c \<and> set (slots b) = entry_at pks t u ` R \<and> last_continuous_seq b = Some (u + int k) \<and>
     last_continuous_timestamp b = Some (pk_timestamp (pks ! 0)) \<and> current_frame_start b = Some u \<and>
     current_frame_timestamp b = pk_timestamp (pks ! 0) \<and> \<not> discarding_frame b \<and> \<not> waiting_for_recovery b \<and>
     {..k} \<subseteq> R \<and> R \<subseteq> {..<length pks}"

lemma held_GetPacket:
  assumes "ring_ok b" "set (slots b) = entry_at pks t u ` R"
  shows "GetPacket (u + int i) b = (if i \<in> R then Some (snd (entry_at pks t u i)) else None)"
proof -
  have "GetPacket (u + int i) b = Some p \<longleftrightarrow> i \<in> R \<and> p = snd (entry_at pks t u i)" for p
    using assms by (auto simp: GetPacket_iff entry_at_def)
  then show ?thesis
    by (cases "GetPacket (u + int i) b") auto
qed

lemma assemblingD:
  assumes "assembling c pks t u R k b"
  shows "hb_ok b" "ring_ok b" "hb_config b = c"
    "GetPacket (u + int i) b = (if i \<in> R then Some (snd (entry_at pks t u i)) else None)"
  using assms held_GetPacket [of b pks t u R i] by (auto simp: assembling_def hb_ok_def)

lemma BufferIndex_distinct:
  assumes "i < kBufferSize" "j < kBufferSize" "BufferIndex (u + int i) = BufferIndex (u + int j)"
  shows "i = j"
proof -
  have "(u + int i) mod 2048 = (u + int j) mod 2048"
    using assms(3) by (simp add: BufferIndex_def kBufferSize_def eq_nat_nat_iff)
  then have "2048 dvd (int i - int j)"
    by (metis add_diff_cancel_left mod_eq_dvd_iff)
  moreover have "\<bar>int i - int j\<bar> < 2048"
    using assms(1,2) by (simp add: kBufferSize_def abs_if)
  ultimately show ?thesis
    using zdvd_imp_le [of 2048 "\<bar>int i - int j\<bar>"] by (cases "i = j") auto
qed

section \<open>Passing packets\<close>

lemma assembling_join:
  assumes "access_unit c s0 pks ns" "assembling c pks t u R k b" "Suc k < length pks"
  shows "join_frame (u + int (Suc k)) (pks ! Suc k) b =
    b\<lparr>last_continuous_seq := Some (u + int (Suc k)), last_continuous_timestamp := Some (pk_timestamp (pks ! 0))\<rparr>"
  using assms(2) access_unitD(5) [OF assms(1,3)] by (simp add: join_frame_def Let_def assembling_def)

lemma assembling_limit:
  assumes "access_unit c s0 pks ns" "assembling c pks t u R k b" "Suc k < length pks"
  shows "limit_frame u (u + int (Suc k)) (b\<lparr>last_continuous_seq := l, last_continuous_timestamp := ts\<rparr>) =
    b\<lparr>last_continuous_seq := l, last_continuous_timestamp := ts\<rparr>"
  using assms(2,3) access_unitD(7) [OF assms(1)] by (simp add: limit_frame_def assembling_def)

lemma assembling_passed:
  assumes "access_unit c s0 pks ns" "assembling c pks t u R k b" "Suc k < length pks" "Suc k \<in> R"
  shows "assembling c pks t u R (Suc k)
    (b\<lparr>last_continuous_seq := Some (u + int (Suc k)), last_continuous_timestamp := Some (pk_timestamp (pks ! 0))\<rparr>)"
proof -
  let ?b = "b\<lparr>last_continuous_seq := Some (u + int (Suc k)), last_continuous_timestamp := Some (pk_timestamp (pks ! 0))\<rparr>"
  have "fresh_above ?b" "frame_ok ?b"
    using assms(2) by (auto simp: fresh_above_def frame_ok_def assembling_def entry_at_def)
  then have "hb_ok ?b"
    using assemblingD(1) [OF assms(2)] by (simp add: hb_ok_def)
  then show ?thesis
    using assms(2,4) by (auto simp: assembling_def atMost_Suc)
qed

lemma assembling_assembles:
  assumes "access_unit c s0 pks ns" "assembling c pks t u R k b" "Suc k = length pks"
  shows "\<exists>f b'. end_frame u (u + int k) b = Ok ([f], b') \<and> nalus f = ns \<and> shrinks b b'"
proof -
  let ?e = "u + int k"
  have R: "R = {..<length pks}"
    using assms(2,3) by (auto simp: assembling_def lessThan_Suc_atMost [symmetric])
  have g: "GetPacket (u + int i) b = Some (snd (entry_at pks t u i))" if "i \<le> k" for i
    using assemblingD(4) [OF assms(2)] that assms(3) R by auto
  have xs: "[u..?e] = map (\<lambda>i. u + int i) [0..<length pks]"
    using assms(3) by (intro nth_equalityI) (auto simp: nth_upto)
  have "map (units_at b) [u..?e] = map units pks"
    unfolding xs using g assms(3) by (intro nth_equalityI) (auto simp: units_at_def entry_at_def)
  then have us: "concat (map (units_at b) [u..?e]) = concat (map units pks)"
    by simp
  have first: "GetPacket u b = Some (snd (entry_at pks t u 0))"
    using g [of 0] by simp
  have bel: "belong b (frame0 u ?e (bp_packet (snd (entry_at pks t u 0)))) [u..?e]"
    unfolding belong_def xs using g assms(3) access_unitD(4,5) [OF assms(1)]
    by (auto simp: entry_at_def frame0_def less_Suc_eq_le)
  obtain f where f: "MaybeAssembleFrame u ?e b = Ok (Some f, RemovePackets u ?e b)" "nalus f = ns"
    using MaybeAssembleFrame_complete [OF _ _ first bel, unfolded us, of ns] assms(3) assemblingD(3) [OF assms(2)]
      access_unitD(7,9,12,13,14) [OF assms(1)]
    by auto
  have "shrinks b (DropCurrentFrame ?e (RemovePackets u ?e b))"
    using RemovePackets_ok [OF assemblingD(1) [OF assms(2)], of u ?e]
    by (intro shrinks_trans [OF _ DropCurrentFrame_shrinks]) (simp_all add: hb_ok_def)
  then show ?thesis
    using f assms(2) by (simp add: end_frame_def assembling_def)
qed

lemma advance_passes:
  assumes "access_unit c s0 pks ns" "assembling c pks t u R k b" "Suc k < length pks" "Suc k \<in> R"
    and "b' = b\<lparr>last_continuous_seq := Some (u + int (Suc k)), last_continuous_timestamp := Some (pk_timestamp (pks ! 0))\<rparr>"
  shows "advance_one (u + int (Suc k)) (pks ! Suc k) b =
    (if Suc (Suc k) = length pks then end_frame u (u + int (Suc k)) b' else Ok ([], b'))"
proof -
  have "pk_marker (pks ! Suc k) \<longleftrightarrow> Suc (Suc k) = length pks"
    by (rule access_unitD(6) [OF assms(1,3)])
  moreover have "current_frame_start b' = Some u"
    using assms(2,5) by (simp add: assembling_def)
  ultimately show ?thesis
    using assembling_join [OF assms(1-3)] assembling_limit [OF assms(1-3)] assms(5)
    by (simp add: advance_one_def Let_def del: of_nat_Suc)
qed

lemma find_loop_passes:
  assumes "access_unit c s0 pks ns" "assembling c pks t u R k b" "Suc k < length pks" "length pks - k \<le> fuel"
  shows "(\<exists>f b'. R = {..<length pks} \<and> find_loop fuel (u + int (Suc k)) b [] = Ok (b', [f]) \<and> nalus f = ns) \<or>
    (\<exists>k' b'. find_loop fuel (u + int (Suc k)) b [] = Ok (b', []) \<and> assembling c pks t u R k' b' \<and> Suc k' \<notin> R \<and>
       Suc k' < length pks \<and> hb_unwrapper b' = hb_unwrapper b)"
  using assms(2-4)
proof (induction fuel arbitrary: k b)
  case 0
  then show ?case
    by simp
next
  case (Suc fuel)
  note g = assemblingD(4) [OF Suc.prems(1)]
  show ?case
  proof (cases "Suc k \<in> R")
    case False
    have "find_loop (Suc fuel) (u + int (Suc k)) b [] = Ok (b, [])"
      using g [of "Suc k"] False by simp
    then show ?thesis
      using Suc.prems False by blast
  next
    case True
    let ?b = "b\<lparr>last_continuous_seq := Some (u + int (Suc k)), last_continuous_timestamp := Some (pk_timestamp (pks ! 0))\<rparr>"
    note p = assembling_passed [OF assms(1) Suc.prems(1,2) True]
    note a = advance_passes [OF assms(1) Suc.prems(1,2) True refl]
    have fl: "find_loop (Suc fuel) (u + int (Suc k)) b [] =
        bind_outcome (advance_one (u + int (Suc k)) (pks ! Suc k) b) (\<lambda>(fs, b). find_loop fuel (u + int (Suc (Suc k))) b ([] @ fs))"
      using g [of "Suc k"] True by (simp add: entry_at_def add.assoc)
    show ?thesis
    proof (cases "Suc (Suc k) = length pks")
      case True
      obtain f b' where f: "end_frame u (u + int (Suc k)) ?b = Ok ([f], b')" "nalus f = ns" "shrinks ?b b'"
        using assembling_assembles [OF assms(1) p True] by blast
      have "length pks \<notin> R"
        using Suc.prems(1) by (auto simp: assembling_def)
      then have "GetPacket (u + int (Suc (Suc k))) ?b = None"
        using assemblingD(4) [OF p, of "Suc (Suc k)"] True by simp
      then have "GetPacket (u + int (Suc (Suc k))) b' = None"
        using shrinks_GetPacket [OF assemblingD(2) [OF p] f(3)] by (metis option.exhaust)
      then have "find_loop fuel (u + int (Suc (Suc k))) b' [f] = Ok (b', [f])"
        by (cases fuel) simp_all
      then have "find_loop (Suc fuel) (u + int (Suc k)) b [] = Ok (b', [f])"
        unfolding fl a using f(1) True by (simp del: of_nat_Suc find_loop.simps)
      moreover have "R = {..<length pks}"
        using p True by (auto simp: assembling_def lessThan_Suc_atMost [symmetric])
      ultimately show ?thesis
        using f(2) by blast
    next
      case False
      have "find_loop (Suc fuel) (u + int (Suc k)) b [] = find_loop fuel (u + int (Suc (Suc k))) ?b []"
        unfolding fl a using False by (simp del: of_nat_Suc find_loop.simps)
      moreover have "Suc (Suc k) < length pks" "length pks - Suc k \<le> fuel"
        using False Suc.prems(2,3) by linarith+
      ultimately show ?thesis
        using Suc.IH [OF p] by (simp del: of_nat_Suc find_loop.simps)
    qed
  qed
qed

section \<open>Insertions\<close>

definition tracking :: "int \<Rightarrow> nat \<Rightarrow> seq_unwrapper \<Rightarrow> bool" where
  "tracking u n w \<longleftrightarrow> initialized w \<and> u \<le> latest_unwrapped_seq w \<and> latest_unwrapped_seq w < u + int n"

text \<open>The buffer between two packets of the access unit: a packet is still missing.\<close>

definition incomplete :: "h264_config \<Rightarrow> H264ParsedPacket list \<Rightarrow> (nat \<Rightarrow> int) \<Rightarrow> int \<Rightarrow> nat set \<Rightarrow> h264_buffer \<Rightarrow> bool" where
  "incomplete c pks t u R b \<longleftrightarrow>
     (\<exists>k. assembling c pks t u R k b \<and> Suc k \<notin> R \<and> Suc k < length pks) \<and> tracking u (length pks) (hb_unwrapper b)"

lemma unwrap_index:
  assumes "tracking (uint s0) n w" "i < n" "n \<le> kBufferSize"
  obtains w' where "Unwrapper_Unwrap (s0 + of_nat i) w = (uint s0 + int i, w')" "tracking (uint s0) n w'"
proof -
  have "s0 + of_nat i = word_of_int (uint s0 + int i)"
    by simp
  moreover have "unwrap_candidate (latest_unwrapped_seq w) (word_of_int (uint s0 + int i)) = uint s0 + int i"
    using assms by (intro rtp_unwrap.unwrap_recovers) (auto simp: tracking_def kBufferSize_def)
  ultimately show ?thesis
    using assms that by (auto simp: Unwrapper_Unwrap_def tracking_def Let_def)
qed

lemma flush_idle:
  assumes "ring_ok b" "\<forall>e \<in> set (slots b). now - bp_arrival (snd e) < ms (max_wait_ms (hb_config b))"
  shows "H264_FlushExpired now b = Ok (0, b)"
proof (cases "arrivals b")
  case Nil
  then show ?thesis
    by (simp add: H264_FlushExpired_def)
next
  case (Cons a as)
  have "a \<in># image_mset entry_of (mset (slots b))"
    using assms(1) Cons by (metis list.set_intros(1) ring_ok_def set_mset_mset)
  then have "now - fst a < ms (max_wait_ms (hb_config b))"
    using assms(2) by auto
  then show ?thesis
    using Cons by (cases a) (simp add: H264_FlushExpired_def)
qed

lemma insert_empty_slot:
  assumes "pk_valid pk" "\<not> pk_malformed pk" "H264_FlushExpired now b = Ok (0, b)"
    and "Unwrapper_Unwrap (pk_seq pk) (hb_unwrapper b) = (s, w)"
    and "le_opt (last_continuous_seq b) (Some (s - 1))" "map_of (slots b) (BufferIndex s) = None"
    and "FindFrames s (store_packet s pk now (b\<lparr>hb_unwrapper := w\<rparr>)) = Ok (b', fs)"
  shows "h264_step b (H264Packet pk now) = (b', fs)"
proof -
  have "\<not> (case last_continuous_seq b of None \<Rightarrow> False | Some l \<Rightarrow> s \<le> l)"
    using assms(5) by (auto split: option.splits)
  then show ?thesis
    using assms by (simp add: H264_InsertPacket_def Let_def)
qed

lemma assembling_store:
  assumes "access_unit c s0 pks ns" "assembling c pks t u R k b" "i < length pks" "i \<notin> R"
    and "b' = store_packet (u + int i) (pks ! i) (t i) (b\<lparr>hb_unwrapper := w\<rparr>)"
  shows "assembling c pks t u (insert i R) k b'" "map_of (slots b) (BufferIndex (u + int i)) = None"
    "le_opt (last_continuous_seq b) (Some (u + int i - 1))" "hb_unwrapper b' = w"
proof -
  have "R \<subseteq> {..<length pks}" "{..k} \<subseteq> R"
    using assms(2) by (simp_all add: assembling_def)
  then have ki: "k < i" and lt: "j < kBufferSize" if "j \<in> R" for j
    using assms(4) that access_unitD(8) [OF assms(1)] not_le by (blast, fastforce)
  have "BufferIndex (u + int i) \<noteq> BufferIndex (u + int j)" if "j \<in> R" for j
    using BufferIndex_distinct [of i j u] lt [OF that] assms(3,4) that access_unitD(8) [OF assms(1)] by auto
  then have "BufferIndex (u + int i) \<notin> (\<lambda>j. BufferIndex (u + int j)) ` R"
    by blast
  then show m: "map_of (slots b) (BufferIndex (u + int i)) = None"
    using assms(2) by (simp add: map_of_eq_None_iff assembling_def entry_at_def image_image)
  have "k < i"
    using ki \<open>{..k} \<subseteq> R\<close> by blast
  then show l: "le_opt (last_continuous_seq b) (Some (u + int i - 1))"
    using assms(2) by (simp add: assembling_def)
  have st: "hb_ok b'" "set (slots b') = insert (entry_at pks t u i) (set (slots b))"
    using store_packet_ok [of "b\<lparr>hb_unwrapper := w\<rparr>" "u + int i" "pks ! i" "t i"] m l assemblingD(1) [OF assms(2)] assms(5)
    by (simp_all add: entry_at_def)
  then show "assembling c pks t u (insert i R) k b'"
    using assms(2,3,5) by (auto simp: assembling_def store_packet_def)
  show "hb_unwrapper b' = w"
    by (simp add: assms(5) store_packet_def)
qed

lemma FindFrames_assembling:
  assumes "access_unit c s0 pks ns" "assembling c pks t u R k b" "i \<in> R" "k < i" "Suc k \<notin> R - {i}"
  shows "(\<exists>f b'. R = {..<length pks} \<and> FindFrames (u + int i) b = Ok (b', [f]) \<and> nalus f = ns) \<or>
    (\<exists>k' b'. FindFrames (u + int i) b = Ok (b', []) \<and> assembling c pks t u R k' b' \<and> Suc k' \<notin> R \<and>
       Suc k' < length pks \<and> hb_unwrapper b' = hb_unwrapper b)"
proof -
  have i: "i < length pks"
    using assms(2,3) by (auto simp: assembling_def)
  have g: "GetPacket (u + int i) b = Some (snd (entry_at pks t u i))"
    using assemblingD(4) [OF assms(2)] assms(3) by simp
  show ?thesis
  proof (cases "i = Suc k")
    case True
    then have "CanAdvanceFrom (u + int i) (pks ! i) b = (True, b)"
      using assms(2) by (simp add: CanAdvanceFrom_def assembling_def)
    then have "FindFrames (u + int i) b = find_loop kBufferSize (u + int (Suc k)) b []"
      using g True by (simp add: FindFrames_def entry_at_def)
    moreover have "length pks - k \<le> kBufferSize"
      using access_unitD(8) [OF assms(1)] by linarith
    ultimately show ?thesis
      using find_loop_passes [OF assms(1,2)] i True by simp
  next
    case False
    then have "CanAdvanceFrom (u + int i) (pks ! i) b = (False, b)"
      using assms(2,4) access_unitD(5) [OF assms(1) i] by (simp add: CanAdvanceFrom_def assembling_def)
    then have "FindFrames (u + int i) b = Ok (b, [])"
      using g by (simp add: FindFrames_def entry_at_def)
    moreover have "Suc k \<notin> R" "Suc k < length pks"
      using assms(4,5) False i by auto
    ultimately show ?thesis
      using assms(2) by blast
  qed
qed

lemma insert_next:
  assumes "access_unit c s0 pks ns" "incomplete c pks t (uint s0) R b" "i < length pks" "i \<notin> R"
    and "\<forall>j \<in> R. t i - t j < ms (max_wait_ms c)"
  shows "(\<exists>f b'. insert i R = {..<length pks} \<and> h264_step b (H264Packet (pks ! i) (t i)) = (b', [f]) \<and> nalus f = ns) \<or>
    (\<exists>b'. h264_step b (H264Packet (pks ! i) (t i)) = (b', []) \<and> incomplete c pks t (uint s0) (insert i R) b')"
proof -
  let ?u = "uint s0"
  obtain k where k: "assembling c pks t ?u R k b" "Suc k \<notin> R" "Suc k < length pks" "tracking ?u (length pks) (hb_unwrapper b)"
    using assms(2) by (auto simp: incomplete_def)
  obtain w where w: "Unwrapper_Unwrap (s0 + of_nat i) (hb_unwrapper b) = (?u + int i, w)" "tracking ?u (length pks) w"
    by (rule unwrap_index [OF k(4) assms(3) access_unitD(8) [OF assms(1)]])
  let ?b = "store_packet (?u + int i) (pks ! i) (t i) (b\<lparr>hb_unwrapper := w\<rparr>)"
  note st = assembling_store [OF assms(1) k(1) assms(3,4), of ?b w, OF refl]
  have "k < i"
    using k(1) assms(4) by (auto simp: assembling_def subset_eq not_less)
  have "\<forall>e \<in> set (slots b). t i - bp_arrival (snd e) < ms (max_wait_ms (hb_config b))"
    using assms(5) k(1) by (auto simp: assembling_def entry_at_def)
  then have fl: "H264_FlushExpired (t i) b = Ok (0, b)"
    by (rule flush_idle [OF assemblingD(2) [OF k(1)]])
  have step: "h264_step b (H264Packet (pks ! i) (t i)) = (b', fs)" if "FindFrames (?u + int i) ?b = Ok (b', fs)" for b' fs
    using insert_empty_slot [OF access_unitD(2) [OF assms(1,3)] access_unitD(3) [OF assms(1,3)] fl _ st(3,2) that]
      access_unitD(1) [OF assms(1,3)] w(1) by simp
  have "Suc k \<notin> insert i R - {i}"
    using k(2) by simp
  then consider f b' where "insert i R = {..<length pks}" "FindFrames (?u + int i) ?b = Ok (b', [f])" "nalus f = ns"
    | k' b' where "FindFrames (?u + int i) ?b = Ok (b', [])" "assembling c pks t ?u (insert i R) k' b'"
        "Suc k' \<notin> insert i R" "Suc k' < length pks" "hb_unwrapper b' = hb_unwrapper ?b"
    using FindFrames_assembling [OF assms(1) st(1) _ \<open>k < i\<close>] by blast
  then show ?thesis
  proof cases
    case 1
    then show ?thesis
      using step by blast
  next
    case 2
    then have "incomplete c pks t ?u (insert i R) b'"
      using st(4) w(2) by (auto simp: incomplete_def)
    then show ?thesis
      using step 2(1) by blast
  qed
qed

text \<open>The first packet opens the stream.\<close>

lemma opened:
  assumes "access_unit c s0 pks ns" "set (slots d) = {entry_at pks t u 0}" "ring_ok d" "hb_config d = c"
    and "current_frame_start d = None" "last_continuous_seq d = Some (u - 1)" "\<not> discarding_frame d" "\<not> waiting_for_recovery d"
  shows "assembling c pks t u {0} 0 (join_frame u (pks ! 0) d)" "hb_unwrapper (join_frame u (pks ! 0) d) = hb_unwrapper d"
proof -
  have j: "join_frame u (pks ! 0) d = d\<lparr>last_continuous_seq := Some u,
      last_continuous_timestamp := Some (pk_timestamp (pks ! 0)), current_frame_start := Some u,
      current_frame_timestamp := pk_timestamp (pks ! 0)\<rparr>"
    using assms(5) by (simp add: join_frame_def Let_def)
  have "max_frame_packets c \<le> kBufferSize" "0 < max_frame_packets c"
    using assms(1) access_unitD(15) [OF assms(1)] by (simp_all add: access_unit_def)
  then have "hb_ok (join_frame u (pks ! 0) d)"
    using assms
    by (auto simp: j hb_ok_def frame_ok_def fresh_above_def entry_at_def)
  then show "assembling c pks t u {0} 0 (join_frame u (pks ! 0) d)"
    using assms(2,4,7,8) access_unitD(10) [OF assms(1)] by (simp add: assembling_def j)
  show "hb_unwrapper (join_frame u (pks ! 0) d) = hb_unwrapper d"
    by (simp add: j)
qed

lemma find_loop_opened:
  assumes "access_unit c s0 pks ns" "set (slots d) = {entry_at pks t u 0}" "ring_ok d" "hb_config d = c"
    and "current_frame_start d = None" "last_continuous_seq d = Some (u - 1)" "\<not> discarding_frame d" "\<not> waiting_for_recovery d"
    and "0 < fuel"
  shows "(\<exists>f b'. length pks = 1 \<and> find_loop fuel u d [] = Ok (b', [f]) \<and> nalus f = ns) \<or>
    (\<exists>b'. 1 < length pks \<and> find_loop fuel u d [] = Ok (b', []) \<and> assembling c pks t u {0} 0 b' \<and>
      hb_unwrapper b' = hb_unwrapper d)"
proof -
  let ?j = "join_frame u (pks ! 0) d"
  note o = opened [OF assms(1-8)]
  have g: "GetPacket u d = Some (snd (entry_at pks t u 0))"
    using held_GetPacket [OF assms(3), of pks t u "{0}" 0] assms(2) by simp
  have lim: "limit_frame u u ?j = ?j"
    using access_unitD(15) [OF assms(1)] assemblingD(3) [OF o(1)] by (simp add: limit_frame_def)
  have mk: "pk_marker (pks ! 0) \<longleftrightarrow> length pks = 1"
    using access_unitD(6,10) [OF assms(1)] by auto
  obtain fuel' where fuel: "fuel = Suc fuel'"
    using assms(9) by (cases fuel) auto
  have adv: "advance_one u (pks ! 0) d = (if length pks = 1 then end_frame u u ?j else Ok ([], ?j))"
    using o(1) lim mk by (simp add: advance_one_def Let_def assembling_def)
  have stop: "find_loop fuel' (u + 1) b' fs = Ok (b', fs)" if "shrinks ?j b'" for b' fs
  proof -
    have "GetPacket (u + 1) ?j = None"
      using assemblingD(4) [OF o(1), of 1] by simp
    then have "GetPacket (u + 1) b' = None"
      using shrinks_GetPacket [OF assemblingD(2) [OF o(1)] that] by (metis option.exhaust)
    then show ?thesis
      by (cases fuel') simp_all
  qed
  show ?thesis
  proof (cases "length pks = 1")
    case True
    obtain f b' where f: "end_frame u u ?j = Ok ([f], b')" "nalus f = ns" "shrinks ?j b'"
      using assembling_assembles [OF assms(1) o(1)] True by auto
    then show ?thesis
      using True adv g stop [OF f(3), of "[f]"] by (simp add: fuel entry_at_def)
  next
    case False
    then have "1 < length pks"
      using access_unitD(10) [OF assms(1)] by linarith
    then show ?thesis
      using False adv g stop [OF shrinks_refl [OF assemblingD(2) [OF o(1)]], of "[]"] o
      by (simp add: fuel entry_at_def)
  qed
qed

lemma insert_first:
  assumes "access_unit c s0 pks ns"
  shows "(\<exists>f b'. length pks = 1 \<and> h264_step (H264Buffer_new c) (H264Packet (pks ! 0) (t 0)) = (b', [f]) \<and> nalus f = ns) \<or>
    (\<exists>b'. h264_step (H264Buffer_new c) (H264Packet (pks ! 0) (t 0)) = (b', []) \<and> incomplete c pks t (uint s0) {0} b')"
proof -
  let ?u = "uint s0" and ?new = "H264Buffer_new c"
  let ?w = "\<lparr>initialized = True, latest_unwrapped_seq = ?u\<rparr>"
  let ?b = "store_packet ?u (pks ! 0) (t 0) (?new\<lparr>hb_unwrapper := ?w\<rparr>)"
  have c: "hb_config ?new = c"
    using access_unitD(15) [OF assms] assms by (auto simp: H264Buffer_new_def access_unit_def)
  have hb: "hb_ok ?new"
    using hb_inv_new by (simp add: hb_inv_def)
  have e: "map_of (slots ?new) i = None" "last_continuous_seq ?new = None" "slots ?new = []" "arrivals ?new = []" for i
    by (simp_all add: H264Buffer_new_def)
  have st: "hb_ok ?b" "set (slots ?b) = {entry_at pks t ?u 0}" "hb_config ?b = c" "last_continuous_seq ?b = None"
    using store_packet_ok [of "?new\<lparr>hb_unwrapper := ?w\<rparr>" ?u "pks ! 0" "t 0"] hb e c
    by (simp_all add: entry_at_def)
  then have r: "ring_ok ?b"
    by (simp add: hb_ok_def)
  let ?d = "(RemovePacketsBefore ?u ?b)\<lparr>current_frame_start := None, discarding_frame := False,
      last_continuous_seq := Some (?u - 1), waiting_for_recovery := False\<rparr>"
  have k: "keeps (\<lambda>p. \<not> bp_seq p < ?u) ?b (RemovePacketsBefore ?u ?b)"
    by (rule RemovePacketsBefore_keeps [OF r])
  have d: "set (slots ?d) = {entry_at pks t ?u 0}" "ring_ok ?d" "hb_config ?d = c" "hb_unwrapper ?d = ?w"
    using k st by (auto simp: keeps_def entry_at_def same_control_def store_packet_def)
  have "BeginningOfStream ?b (pks ! 0)"
    using access_unitD(11) [OF assms] st(3) c by (simp add: BeginningOfStream_def)
  then have "CanAdvanceFrom ?u (pks ! 0) ?b = (True, ?d)"
    using st(4) by (simp add: CanAdvanceFrom_def)
  moreover have "GetPacket ?u ?b = Some (snd (entry_at pks t ?u 0))"
    using held_GetPacket [OF r, of pks t ?u "{0}" 0] st(2) by simp
  ultimately have ff: "FindFrames ?u ?b = find_loop kBufferSize ?u ?d []"
    by (simp add: FindFrames_def entry_at_def)
  have seq: "pk_seq (pks ! 0) = s0"
    using access_unitD(1) [OF assms, of 0] access_unitD(10) [OF assms] by simp
  have "Unwrapper_Unwrap (pk_seq (pks ! 0)) (hb_unwrapper ?new) = (?u, ?w)"
    by (simp add: seq H264Buffer_new_def Unwrapper_init_def Unwrapper_Unwrap_def)
  moreover have "H264_FlushExpired (t 0) ?new = Ok (0, ?new)"
    by (simp add: H264_FlushExpired_def e)
  ultimately have step: "h264_step ?new (H264Packet (pks ! 0) (t 0)) = (b', fs)"
    if "FindFrames ?u ?b = Ok (b', fs)" for b' fs
    using insert_empty_slot [OF access_unitD(2) [OF assms] access_unitD(3) [OF assms] _ _ _ e(1) that] e(2)
      access_unitD(10) [OF assms] by simp
  have "tracking ?u (length pks) ?w"
    using access_unitD(10) [OF assms] by (simp add: tracking_def)
  then show ?thesis
    using find_loop_opened [OF assms d(1-3), of kBufferSize] ff step d(4)
    by (auto simp: incomplete_def kBufferSize_def)
qed

section \<open>Delivery\<close>

lemma run_delivers:
  assumes "access_unit c s0 pks ns" "incomplete c pks t (uint s0) R b" "distinct order" "set order \<inter> R = {}"
    and "set order \<union> R = {..<length pks}" "\<forall>i j. t i - t j < ms (max_wait_ms c)"
  shows "\<exists>f. snd (run h264_step b (map (\<lambda>i. H264Packet (pks ! i) (t i)) order)) = [f] \<and> nalus f = ns"
  using assms(2-5)
proof (induction order arbitrary: R b)
  case Nil
  then show ?case
    by (auto simp: incomplete_def assembling_def)
next
  case (Cons i order)
  have i: "i < length pks" "i \<notin> R"
    using Cons.prems by auto
  consider (last) f b' where "insert i R = {..<length pks}" "h264_step b (H264Packet (pks ! i) (t i)) = (b', [f])" "nalus f = ns"
    | (more) b' where "h264_step b (H264Packet (pks ! i) (t i)) = (b', [])" "incomplete c pks t (uint s0) (insert i R) b'"
    using insert_next [OF assms(1) Cons.prems(1) i] assms(6) by blast
  then show ?case
  proof cases
    case last
    have "set order \<subseteq> insert i R"
      unfolding last(1) Cons.prems(4) [symmetric] by auto
    moreover have "set order \<inter> insert i R = {}"
      using Cons.prems(2,3) by auto
    ultimately have "order = []"
      by (simp add: inf.absorb1)
    then show ?thesis
      using last by simp
  next
    case more
    have "distinct order" "set order \<inter> insert i R = {}" "set order \<union> insert i R = {..<length pks}"
      using Cons.prems by auto
    then show ?thesis
      using Cons.IH [OF more(2)] more(1) by (simp add: split_def Let_def)
  qed
qed

lemma reordered_delivery:
  assumes "access_unit c s0 pks ns" "distinct order" "set order = {1..<length pks}"
    and "\<forall>i j. t i - t j < ms (max_wait_ms c)"
  shows "\<exists>f. snd (run h264_step (H264Buffer_new c) (map (\<lambda>i. H264Packet (pks ! i) (t i)) (0 # order))) = [f] \<and> nalus f = ns"
proof -
  consider (single) f b' where "length pks = 1" "h264_step (H264Buffer_new c) (H264Packet (pks ! 0) (t 0)) = (b', [f])" "nalus f = ns"
    | (more) b' where "h264_step (H264Buffer_new c) (H264Packet (pks ! 0) (t 0)) = (b', [])" "incomplete c pks t (uint s0) {0} b'"
    using insert_first [OF assms(1), of t] by blast
  then show ?thesis
  proof cases
    case single
    then show ?thesis
      using assms(3) by simp
  next
    case more
    have "set order \<union> {0} = {..<length pks}"
      using assms(3) access_unitD(10) [OF assms(1)] by auto
    then show ?thesis
      using run_delivers [OF assms(1) more(2) assms(2) _ _ assms(4)] assms(3) more(1) by (simp add: split_def Let_def)
  qed
qed

text \<open>
  C26: an access unit survives reordering.  When the first packet of an access unit arrives first and all
  its other packets follow in any order, within the buffer's patience, exactly one frame is emitted
  over the whole run, and its NAL units are exactly those the packets carry.
\<close>
theorem H264_reordered_delivery:
  assumes "access_unit c s0 pks ns" "distinct order" "set order = {1..<length pks}"
    and "\<forall>i j. t i - t j < ms (max_wait_ms c)"
  shows "\<exists>f. snd (run h264_step (H264Buffer_new c) (map (\<lambda>i. H264Packet (pks ! i) (t i)) (0 # order))) = [f] \<and> nalus f = ns"
  using assms by (rule reordered_delivery)

lemma slice_packet_simps:
  "pk_seq (slice_packet s ts m d) = s" "pk_valid (slice_packet s ts m d)" "\<not> pk_malformed (slice_packet s ts m d)"
  "pk_ssrc (slice_packet s ts m d) = 0" "pk_timestamp (slice_packet s ts m d) = ts" "pk_marker (slice_packet s ts m d) = m"
  by (simp_all add: slice_packet_def H264ParsedPacket_init_def)

theorem H264_reordered_delivery_witness:
  "\<exists>f. snd (run h264_step (H264Buffer_new h264_config_default)
       (map (\<lambda>i. H264Packet ([slice_packet 65535 9 False [0x65, 0x88], slice_packet 0 9 False [0x41, 0x11],
          slice_packet 1 9 True [0x41, 0x12]] ! i) 5) [0, 2, 1])) = [f] \<and>
     nalus f = [[0x65, 0x88], [0x41, 0x11], [0x41, 0x12]]"
proof -
  let ?pks = "[slice_packet 65535 9 False [0x65, 0x88], slice_packet 0 9 False [0x41, 0x11], slice_packet 1 9 True [0x41, 0x12]]"
  let ?ns = "[[0x65, 0x88], [0x41, 0x11], [0x41, 0x12]] :: bytes list"
  have "AppendUnits (concat (map units ?pks)) (False, [], []) = Some (False, [], ?ns)"
    by code_simp
  then have "carries (concat (map units ?pks)) ?ns"
    using AppendUnits_iff by blast
  moreover have "BeginningOfStream (H264Buffer_new h264_config_default) (?pks ! 0)"
    by code_simp
  moreover have "first_slice_seen (concat (map units ?pks)) False \<noteq> None"
    by code_simp
  moreover have "\<forall>i < length ?pks. pk_seq (?pks ! i) = 65535 + of_nat i \<and> pk_valid (?pks ! i) \<and> \<not> pk_malformed (?pks ! i) \<and>
        pk_ssrc (?pks ! i) = pk_ssrc (?pks ! 0) \<and> pk_timestamp (?pks ! i) = pk_timestamp (?pks ! 0) \<and>
        (pk_marker (?pks ! i) \<longleftrightarrow> Suc i = length ?pks)"
    by (simp add: All_less_Suc slice_packet_simps)
  moreover have "idr_only_keyframes_allowed h264_config_default" "length ?pks \<le> max_frame_packets h264_config_default"
      "max_frame_packets h264_config_default \<le> kBufferSize"
    by (simp_all add: h264_config_default_def kBufferSize_def)
  ultimately have a: "access_unit h264_config_default 65535 ?pks ?ns"
    unfolding access_unit_def by (intro conjI) simp_all
  have "set [2, 1 :: nat] = {1..<length ?pks}"
    by auto
  then show ?thesis
    using H264_reordered_delivery [OF a, of "[2, 1]" "\<lambda>_. 5"] by (simp add: h264_config_default_def ms_def)
qed

end
