(* ===== verification/H264_Parameter_Sets.thy ===== *)
theory H264_Parameter_Sets
  imports H264_Payload "HOL-Library.Signed_Division"
begin

text \<open>
  H.264 parameter sets (\<open>src/Common/Depacketizer/H264ParameterSetTracker.cpp\<close>): removal of emulation
  prevention bytes, the bit reader with its Exp-Golomb codes, the SPS and PPS parsers and the tracker
  that keeps the latest sets.  A read that returns \<open>false\<close> makes its caller return \<open>false\<close>, so it is
  \<open>Reject\<close>; a signed overflow, which is undefined behaviour, is \<open>Fault\<close>.
\<close>

section \<open>Raw byte sequence payloads\<close>

fun rbsp_loop :: "nat \<Rightarrow> bytes \<Rightarrow> bytes" where
  "rbsp_loop zero_count [] = []"
| "rbsp_loop zero_count (v # vs) =
     (if zero_count \<ge> 2 \<and> v = 3 then rbsp_loop 0 vs
      else v # rbsp_loop (if v = 0 then zero_count + 1 else 0) vs)"

definition NaluToRbsp :: "bytes \<Rightarrow> bytes" where
  "NaluToRbsp nalu = (if length nalu < 2 then [] else rbsp_loop 0 (drop 1 nalu))"

section \<open>The bit reader\<close>

text \<open>The reader is its data and the offset of the next bit.\<close>

fun read_loop :: "bytes \<Rightarrow> nat \<Rightarrow> nat \<Rightarrow> u32 \<Rightarrow> u32 outcome" where
  "read_loop d off 0 v = Ok v"
| "read_loop d off (Suc n) v =
     rd8 d (off div 8) (\<lambda>b. read_loop d (off + 1) n (push_bit 1 v OR (ucast (drop_bit (7 - off mod 8) b) AND 1)))"

definition ReadBits :: "bytes \<Rightarrow> nat \<Rightarrow> nat \<Rightarrow> (u32 \<times> nat) outcome" where
  "ReadBits d off n =
     (if n > 32 \<or> off + n > length d * 8 then Reject
      else bind_outcome (read_loop d off n 0) (\<lambda>v. Ok (v, off + n)))"

definition ReadBit :: "bytes \<Rightarrow> nat \<Rightarrow> (bool \<times> nat) outcome" where
  "ReadBit d off = bind_outcome (ReadBits d off 1) (\<lambda>(v, off). Ok (v \<noteq> 0, off))"

text \<open>The loop over the leading zeros: their number and the offset after the one bit.\<close>

function ue_zeros :: "bytes \<Rightarrow> nat \<Rightarrow> nat \<Rightarrow> (nat \<times> nat) outcome" where
  "ue_zeros d off zeros =
     bind_outcome (ReadBit d off) (\<lambda>(b, off').
       if b then Ok (zeros, off') else if zeros + 1 > 31 then Reject else ue_zeros d off' (zeros + 1))"
  by pat_completeness auto

termination
  by (relation "measure (\<lambda>(_, _, zeros). 32 - zeros)") auto

declare ue_zeros.simps [simp del]

definition ReadUE :: "bytes \<Rightarrow> nat \<Rightarrow> (u32 \<times> nat) outcome" where
  "ReadUE d off =
     bind_outcome (ue_zeros d off 0) (\<lambda>(zeros, off).
       bind_outcome (if zeros \<noteq> 0 then ReadBits d off zeros else Ok (0, off)) (\<lambda>(suffix, off).
         Ok (ucast (push_bit zeros (1 :: u64) - 1 + ucast suffix), off)))"

definition ReadSE :: "bytes \<Rightarrow> nat \<Rightarrow> (int \<times> nat) outcome" where
  "ReadSE d off =
     bind_outcome (ReadUE d off) (\<lambda>(code, off).
       Ok (if code AND 1 \<noteq> 0 then sint ((code + 1) div 2) else - sint (code div 2), off))"

text \<open>A C++ \<open>int\<close> result: a value outside the type's range is undefined behaviour.\<close>

definition int32 :: "int \<Rightarrow> int outcome" where
  "int32 x = (if - (2 ^ 31) \<le> x \<and> x < 2 ^ 31 then Ok x else Fault)"

fun SkipScalingList :: "bytes \<Rightarrow> nat \<Rightarrow> nat \<Rightarrow> int \<Rightarrow> int \<Rightarrow> nat outcome" where
  "SkipScalingList d off 0 last_scale next_scale = Ok off"
| "SkipScalingList d off (Suc n) last_scale next_scale =
     bind_outcome
       (if next_scale \<noteq> 0
        then bind_outcome (ReadSE d off) (\<lambda>(delta, off).
               bind_outcome (int32 (last_scale + delta)) (\<lambda>a.
               bind_outcome (int32 (a + 256)) (\<lambda>a. Ok (a smod 256, off))))
        else Ok (next_scale, off)) (\<lambda>(next_scale, off).
       SkipScalingList d off n (if next_scale = 0 then last_scale else next_scale) next_scale)"

section \<open>Parameter sets\<close>

record SpsInfo =
  si_sps_id :: u32
  si_width :: int
  si_height :: int
  si_payload :: bytes

record PpsInfo =
  pi_pps_id :: u32
  pi_sps_id :: u32
  pi_payload :: bytes

definition IsHighProfile :: "u32 \<Rightarrow> bool" where
  "IsHighProfile profile \<longleftrightarrow>
     profile \<in> {44, 83, 86, 100, 110, 118, 122, 128, 134, 135, 138, 139, 144, 244}"

text \<open>The scaling lists of the high profiles: \<open>i\<close> counts up to \<open>count\<close>.\<close>

fun scaling_lists :: "bytes \<Rightarrow> nat \<Rightarrow> nat \<Rightarrow> nat \<Rightarrow> nat outcome" where
  "scaling_lists d off i 0 = Ok off"
| "scaling_lists d off i (Suc n) =
     bind_outcome (ReadBit d off) (\<lambda>(present, off).
     bind_outcome (if present then SkipScalingList d off (if i < 6 then 16 else 64) 8 8 else Ok off) (\<lambda>off.
       scaling_lists d off (i + 1) n))"

text \<open>The fields only the high profiles have: chroma format, separate planes, scaling lists.\<close>

definition sps_high :: "bytes \<Rightarrow> nat \<Rightarrow> (u32 \<times> bool \<times> nat) outcome" where
  "sps_high d off =
     bind_outcome (ReadUE d off) (\<lambda>(chroma_format, off).
     if chroma_format > 3 then Reject
     else bind_outcome (if chroma_format = 3 then ReadBit d off else Ok (False, off)) (\<lambda>(separate, off).
     bind_outcome (ReadUE d off) (\<lambda>(bit_depth_luma, off).
     bind_outcome (ReadUE d off) (\<lambda>(bit_depth_chroma, off).
     bind_outcome (ReadBit d off) (\<lambda>(transform_bypass, off).
     bind_outcome (ReadBit d off) (\<lambda>(scaling_present, off).
     bind_outcome (if scaling_present then scaling_lists d off 0 (if chroma_format = 3 then 12 else 8) else Ok off)
       (\<lambda>off. Ok (chroma_format, separate, off))))))))"

text \<open>\<open>for (i = 0; i < cycle; ++i) if (!ReadSE) return false\<close>: every read takes at least one bit.\<close>

function skip_se :: "bytes \<Rightarrow> nat \<Rightarrow> nat \<Rightarrow> nat outcome" where
  "skip_se d off n =
     (if n = 0 then Ok off
      else bind_outcome (ReadSE d off) (\<lambda>(_, off). skip_se d off (n - 1)))"
  by pat_completeness auto

termination
  by (relation "measure (\<lambda>(_, _, n). n)") auto

declare skip_se.simps [simp del]

definition sps_poc :: "bytes \<Rightarrow> nat \<Rightarrow> nat outcome" where
  "sps_poc d off =
     bind_outcome (ReadUE d off) (\<lambda>(log2_frame_num, off).
     bind_outcome (ReadUE d off) (\<lambda>(poc_type, off).
     if poc_type = 0 then bind_outcome (ReadUE d off) (\<lambda>(_, off). Ok off)
     else if poc_type = 1
     then bind_outcome (ReadBit d off) (\<lambda>(_, off).
          bind_outcome (ReadSE d off) (\<lambda>(_, off).
          bind_outcome (ReadSE d off) (\<lambda>(_, off).
          bind_outcome (ReadUE d off) (\<lambda>(cycle, off). skip_se d off (unat cycle)))))
     else if poc_type > 2 then Reject
     else Ok off))"

record SpsShape =
  width_mbs :: u32
  height_map_units :: u32
  frame_mbs_only :: bool
  crop_left :: u32
  crop_right :: u32
  crop_top :: u32
  crop_bottom :: u32

definition sps_shape :: "bytes \<Rightarrow> nat \<Rightarrow> SpsShape outcome" where
  "sps_shape d off =
     bind_outcome (ReadUE d off) (\<lambda>(max_refs, off).
     bind_outcome (ReadBit d off) (\<lambda>(gaps, off).
     bind_outcome (ReadUE d off) (\<lambda>(w, off).
     bind_outcome (ReadUE d off) (\<lambda>(h, off).
     bind_outcome (ReadBit d off) (\<lambda>(mbs_only, off).
     bind_outcome (if \<not> mbs_only then bind_outcome (ReadBit d off) (\<lambda>(_, off). Ok off) else Ok off) (\<lambda>off.
     bind_outcome (ReadBit d off) (\<lambda>(direct_8x8, off).
     bind_outcome (ReadBit d off) (\<lambda>(crop, off).
     if \<not> crop then Ok \<lparr>width_mbs = w, height_map_units = h, frame_mbs_only = mbs_only, crop_left = 0, crop_right = 0,
                       crop_top = 0, crop_bottom = 0\<rparr>
     else bind_outcome (ReadUE d off) (\<lambda>(left, off).
     bind_outcome (ReadUE d off) (\<lambda>(right, off).
     bind_outcome (ReadUE d off) (\<lambda>(top, off).
     bind_outcome (ReadUE d off) (\<lambda>(bottom, off).
       Ok \<lparr>width_mbs = w, height_map_units = h, frame_mbs_only = mbs_only, crop_left = left, crop_right = right,
           crop_top = top, crop_bottom = bottom\<rparr>))))))))))))"

text \<open>
  The picture size.  The sums of the crop offsets are taken in 32 bits, the products in 64 bits.
\<close>

definition sps_size :: "u32 \<Rightarrow> bool \<Rightarrow> SpsShape \<Rightarrow> (int \<times> int) outcome" where
  "sps_size chroma_format separate sh =
     (let chroma_array = (if separate then 0 else chroma_format);
          sub_width = (if chroma_array = 1 \<or> chroma_array = 2 then 2 else 1) :: u32;
          sub_height = (if chroma_array = 1 then 2 else 1) :: u32;
          fields = (if frame_mbs_only sh then 1 else 2);
          crop_x = (if chroma_array = 0 then 1 else sub_width);
          crop_y = (if chroma_array = 0 then 1 else sub_height) * fields;
          coded_width = (ucast (width_mbs sh) + 1) * 16 :: u64;
          coded_height = ucast fields * (ucast (height_map_units sh) + 1) * 16 :: u64;
          crop_width = ucast crop_x * ucast (crop_left sh + crop_right sh) :: u64;
          crop_height = ucast crop_y * ucast (crop_top sh + crop_bottom sh) :: u64
      in if crop_width \<ge> coded_width \<or> crop_height \<ge> coded_height \<or> coded_width > 0x7FFFFFFF \<or> coded_height > 0x7FFFFFFF
         then Reject
         else Ok (uint (coded_width - crop_width), uint (coded_height - crop_height)))"

definition ParseSps :: "bytes \<Rightarrow> SpsInfo outcome" where
  "ParseSps nalu =
     (if length nalu < 4 then Reject
      else rd8 nalu 0 (\<lambda>h.
        if H264GetNalType h \<noteq> 7 then Reject
        else
          let d = NaluToRbsp nalu in
          bind_outcome (ReadBits d 0 8) (\<lambda>(profile, off).
          bind_outcome (ReadBits d off 8) (\<lambda>(_, off).
          bind_outcome (ReadBits d off 8) (\<lambda>(level, off).
          bind_outcome (ReadUE d off) (\<lambda>(sps_id, off).
          bind_outcome (if IsHighProfile profile then sps_high d off else Ok (1, False, off)) (\<lambda>(chroma_format, separate, off).
          bind_outcome (sps_poc d off) (\<lambda>off.
          bind_outcome (sps_shape d off) (\<lambda>sh.
          bind_outcome (sps_size chroma_format separate sh) (\<lambda>(w, h).
            Ok \<lparr>si_sps_id = sps_id, si_width = w, si_height = h, si_payload = nalu\<rparr>))))))))))"

definition ParsePps :: "bytes \<Rightarrow> PpsInfo outcome" where
  "ParsePps nalu =
     (if length nalu < 2 then Reject
      else rd8 nalu 0 (\<lambda>h.
        if H264GetNalType h \<noteq> 8 then Reject
        else
          let d = NaluToRbsp nalu in
          bind_outcome (ReadUE d 0) (\<lambda>(pps_id, off).
          bind_outcome (ReadUE d off) (\<lambda>(sps_id, off).
            Ok \<lparr>pi_pps_id = pps_id, pi_sps_id = sps_id, pi_payload = nalu\<rparr>))))"

section \<open>The tracker\<close>

record tracker =
  sps_by_id :: "u32 \<Rightarrow> SpsInfo option"
  pps_by_id :: "u32 \<Rightarrow> PpsInfo option"
  latest_sps_id :: u32
  latest_pps_id :: u32
  has_latest_sps :: bool
  has_latest_pps :: bool

definition tracker_init :: tracker where
  "tracker_init =
     \<lparr>sps_by_id = Map.empty, pps_by_id = Map.empty, latest_sps_id = 0, latest_pps_id = 0, has_latest_sps = False,
      has_latest_pps = False\<rparr>"

definition UpdateSps :: "bytes \<Rightarrow> tracker \<Rightarrow> (bool \<times> tracker) outcome" where
  "UpdateSps nalu t =
     (case ParseSps nalu of
        Ok info \<Rightarrow> Ok (True, t\<lparr>latest_sps_id := si_sps_id info, has_latest_sps := True,
                             sps_by_id := (sps_by_id t)(si_sps_id info \<mapsto> info)\<rparr>)
      | Reject \<Rightarrow> Ok (False, t)
      | Fault \<Rightarrow> Fault)"

definition UpdatePps :: "bytes \<Rightarrow> tracker \<Rightarrow> (bool \<times> tracker) outcome" where
  "UpdatePps nalu t =
     (case ParsePps nalu of
        Ok info \<Rightarrow> Ok (True, t\<lparr>latest_pps_id := pi_pps_id info, has_latest_pps := True,
                             pps_by_id := (pps_by_id t)(pi_pps_id info \<mapsto> info)\<rparr>)
      | Reject \<Rightarrow> Ok (False, t)
      | Fault \<Rightarrow> Fault)"

fun update_nalus :: "bytes list \<Rightarrow> bool \<Rightarrow> tracker \<Rightarrow> (bool \<times> tracker) outcome" where
  "update_nalus [] updated t = Ok (updated, t)"
| "update_nalus (n # ns) updated t =
     (if n = [] then update_nalus ns updated t
      else let ty = H264GetNalType (hd n) in
           bind_outcome
             (if ty = 7 then UpdateSps n t else if ty = 8 then UpdatePps n t else Ok (False, t)) (\<lambda>(u, t).
             update_nalus ns (u \<or> updated) t))"

definition UpdateAccessUnit :: "H264AccessUnit \<Rightarrow> tracker \<Rightarrow> (bool \<times> tracker) outcome" where
  "UpdateAccessUnit f t = update_nalus (nalus f) False t"

definition GetSps :: "u32 \<Rightarrow> tracker \<Rightarrow> SpsInfo option" where
  "GetSps i t = sps_by_id t i"

definition GetPps :: "u32 \<Rightarrow> tracker \<Rightarrow> PpsInfo option" where
  "GetPps i t = pps_by_id t i"

definition LatestSps :: "tracker \<Rightarrow> SpsInfo option" where
  "LatestSps t = (if has_latest_sps t then GetSps (latest_sps_id t) t else None)"

definition LatestPps :: "tracker \<Rightarrow> PpsInfo option" where
  "LatestPps t = (if has_latest_pps t then GetPps (latest_pps_id t) t else None)"

definition Tracker_Reset :: "tracker \<Rightarrow> tracker" where
  "Tracker_Reset t =
     t\<lparr>sps_by_id := Map.empty, pps_by_id := Map.empty, has_latest_sps := False, has_latest_pps := False\<rparr>"

section \<open>Emulation prevention\<close>

text \<open>What an encoder does (ITU-T H.264, 7.4.1): a byte up to 3 after two zero bytes is preceded by a 3.\<close>

fun escape :: "nat \<Rightarrow> bytes \<Rightarrow> bytes" where
  "escape zeros [] = []"
| "escape zeros (b # bs) =
     (if zeros \<ge> 2 \<and> b \<le> 3 then 3 # b # escape (if b = 0 then 1 else 0) bs
      else b # escape (if b = 0 then zeros + 1 else 0) bs)"

lemma rbsp_loop_escape: "rbsp_loop z (escape z bs) = bs"
  by (induction z bs rule: escape.induct) auto

text \<open>
  Removing the emulation prevention bytes restores the payload the encoder escaped, for every
  payload and every NAL header.
\<close>
theorem NaluToRbsp_escape:
  assumes "bs \<noteq> []"
  shows "NaluToRbsp (h # escape 0 bs) = bs"
proof -
  have "escape 0 bs \<noteq> []"
    using assms by (cases bs) auto
  then have "\<not> length (h # escape 0 bs) < 2"
    by (cases "escape 0 bs") auto
  then show ?thesis
    by (simp add: NaluToRbsp_def rbsp_loop_escape)
qed

theorem NaluToRbsp_escape_witness: "NaluToRbsp (0x67 # escape 0 [0, 0, 1, 0, 0, 0, 0, 7]) = [0, 0, 1, 0, 0, 0, 0, 7]"
  by (rule NaluToRbsp_escape) simp

section \<open>Exp-Golomb codes\<close>

text \<open>The bits of a byte string, most significant first, and the number a bit string denotes.\<close>

definition bits :: "bytes \<Rightarrow> bool list" where
  "bits d = concat (map (\<lambda>b. map (\<lambda>i. bit b (7 - i)) [0..<8]) d)"

fun bits_val :: "bool list \<Rightarrow> nat" where
  "bits_val [] = 0"
| "bits_val (b # bs) = (if b then 2 ^ length bs else 0) + bits_val bs"

lemma length_bits [simp]: "length (bits d) = 8 * length d"
  by (induction d) (auto simp: bits_def)

lemma nth_bits: "k < 8 * length d \<Longrightarrow> bits d ! k = bit (d ! (k div 8)) (7 - k mod 8)"
proof (induction d arbitrary: k)
  case (Cons b d)
  have c: "bits (b # d) = map (\<lambda>i. bit b (7 - i)) [0..<8] @ bits d"
    by (simp add: bits_def)
  show ?case
  proof (cases "k < 8")
    case True
    then show ?thesis
      by (simp add: c nth_append)
  next
    case False
    then have "k div 8 = Suc ((k - 8) div 8)" "k mod 8 = (k - 8) mod 8"
      by (simp_all add: le_div_geq le_mod_geq)
    then show ?thesis
      using Cons.IH [of "k - 8"] Cons.prems False by (simp add: c nth_append)
  qed
qed simp

lemma bits_val_less: "bits_val bs < 2 ^ length bs"
  by (induction bs) auto

lemma shift_in: "(push_bit 1 v OR (ucast (b :: u8) AND 1) :: u32) = 2 * v + of_bool (bit b 0)"
proof -
  have "(ucast b AND 1 :: u32) = of_bool (bit b 0)"
    by (rule bit_word_eqI) (auto simp: bit_simps)
  then show ?thesis
    by (cases "bit b 0") (simp_all add: or_one_eq)
qed

lemma unat_of_nat32: "n < 2 ^ 32 \<Longrightarrow> unat (of_nat n :: u32) = n"
  by (simp add: unsigned_of_nat take_bit_nat_eq_self)

lemma read_loop_bits:
  assumes "off + n \<le> 8 * length d" "unat v < 2 ^ (32 - n)" "n \<le> 32"
  shows "read_loop d off n v = Ok (of_nat (unat v * 2 ^ n + bits_val (take n (drop off (bits d)))))"
  using assms
proof (induction n arbitrary: off v)
  case 0
  then show ?case
    by simp
next
  case (Suc n)
  let ?b = "d ! (off div 8)"
  let ?c = "of_bool (bit ?b (7 - off mod 8)) :: nat"
  have lt: "off div 8 < length d"
    using Suc.prems(1) by (simp add: less_mult_imp_div_less mult.commute)
  have v: "2 * unat v + ?c < 2 ^ (32 - n)"
  proof -
    have "32 - n = Suc (32 - Suc n)"
      using Suc.prems(3) by simp
    then have "(2 :: nat) ^ (32 - n) = 2 * 2 ^ (32 - Suc n)"
      by simp
    then show ?thesis
      using Suc.prems(2) by (cases "bit ?b (7 - off mod 8)") simp_all
  qed
  then have "2 * unat v + ?c < 2 ^ 32"
    by (rule less_le_trans) (rule power_increasing, simp_all)
  then have w: "unat (of_nat (2 * unat v + ?c) :: u32) = 2 * unat v + ?c"
    by (rule unat_of_nat32)
  have shift: "push_bit 1 v OR (ucast (drop_bit (7 - off mod 8) ?b) AND 1) = (of_nat (2 * unat v + ?c) :: u32)"
    unfolding shift_in by (simp add: bit_simps)
  have tk: "take (Suc n) (drop off (bits d)) = bit ?b (7 - off mod 8) # take n (drop (off + 1) (bits d))"
    using Suc.prems(1) by (simp add: nth_bits [of off d, symmetric] Cons_nth_drop_Suc [symmetric])
  have len: "length (take n (drop (off + 1) (bits d))) = n"
    using Suc.prems(1) by simp
  have "read_loop d off (Suc n) v = read_loop d (off + 1) n (of_nat (2 * unat v + ?c))"
    unfolding read_loop.simps shift [symmetric] using lt by (simp add: rd8_def)
  also have "\<dots> = Ok (of_nat ((2 * unat v + ?c) * 2 ^ n + bits_val (take n (drop (off + 1) (bits d)))))"
    using Suc.IH [of "off + 1" "of_nat (2 * unat v + ?c)"] Suc.prems(1,3) v unfolding w by simp
  also have "(2 * unat v + ?c) * 2 ^ n + bits_val (take n (drop (off + 1) (bits d))) =
      unat v * 2 ^ Suc n + bits_val (take (Suc n) (drop off (bits d)))"
    unfolding tk bits_val.simps len by (simp add: algebra_simps)
  finally show ?case .
qed

lemma ReadBits_bits:
  "n \<le> 32 \<Longrightarrow> off + n \<le> 8 * length d \<Longrightarrow>
     ReadBits d off n = Ok (of_nat (bits_val (take n (drop off (bits d)))), off + n)"
  using read_loop_bits [of off n d 0] by (simp add: ReadBits_def mult.commute)

lemma ReadBit_bits: "off < 8 * length d \<Longrightarrow> ReadBit d off = Ok (bits d ! off, off + 1)"
  using ReadBits_bits [of 1 off d]
  by (simp add: ReadBit_def take_Suc_conv_app_nth hd_drop_conv_nth)

lemma bits_at:
  assumes "drop off (bits d) = b # rest"
  shows "off < 8 * length d" "bits d ! off = b" "drop (off + 1) (bits d) = rest"
proof -
  show l: "off < 8 * length d"
    using assms by (metis drop_eq_Nil length_bits list.distinct(1) not_le)
  then show "bits d ! off = b" "drop (off + 1) (bits d) = rest"
    using assms Cons_nth_drop_Suc [of off "bits d"] by simp_all
qed

lemma ue_zeros_bits:
  assumes "drop off (bits d) = replicate z False @ True # rest" "zeros + z \<le> 31"
  shows "ue_zeros d off zeros = Ok (zeros + z, off + z + 1) \<and> drop (off + z + 1) (bits d) = rest"
  using assms
proof (induction z arbitrary: off zeros)
  case 0
  then show ?case
    using bits_at [of off d True rest] by (simp add: ue_zeros.simps [of d off] ReadBit_bits)
next
  case (Suc z)
  have b: "off < 8 * length d" "\<not> bits d ! off" "drop (off + 1) (bits d) = replicate z False @ True # rest"
    using bits_at [of off d False "replicate z False @ True # rest"] Suc.prems(1) by simp_all
  then have "ue_zeros d off zeros = ue_zeros d (off + 1) (zeros + 1)"
    using Suc.prems(2) by (simp add: ue_zeros.simps [of d off] ReadBit_bits)
  then show ?case
    using Suc.IH [OF b(3), of "zeros + 1"] Suc.prems(2) by simp
qed

lemma ue_value:
  assumes "m < 2 ^ z" "z \<le> 31"
  shows "(ucast (push_bit z (1 :: u64) - 1 + ucast (of_nat m :: u32)) :: u32) = of_nat (2 ^ z - 1 + m)"
proof -
  have z: "(2 :: nat) ^ z \<le> 2 ^ 31"
    using assms(2) by (rule power_increasing) simp
  have m: "m < 2 ^ 32"
    using assms(1) z by simp
  have "(ucast (of_nat m :: u32) :: u64) = of_nat m"
    by (subst of_nat_unat [symmetric]) (simp only: unat_of_nat32 [OF m])
  moreover have "push_bit z (1 :: u64) - 1 = of_nat (2 ^ z - 1)"
    by (simp add: push_bit_eq_mult of_nat_diff)
  ultimately have "push_bit z (1 :: u64) - 1 + ucast (of_nat m :: u32) = of_nat (2 ^ z - 1 + m)"
    by (simp only: of_nat_add)
  moreover have "unat (of_nat (2 ^ z - 1 + m) :: u64) = 2 ^ z - 1 + m"
    using assms(1) z unfolding unsigned_of_nat by (simp add: take_bit_nat_eq_self)
  then have "(ucast (of_nat (2 ^ z - 1 + m) :: u64) :: u32) = of_nat (2 ^ z - 1 + m)"
    by (subst of_nat_unat [symmetric]) (simp only:)
  ultimately show ?thesis
    by (simp only:)
qed

text \<open>
  C29: the reader decodes Exp-Golomb codes as the standard defines them: after \<open>z\<close> zero bits and a one bit
  the next \<open>z\<close> bits are a binary number \<open>m\<close>, the value is \<open>2^z - 1 + m\<close>, and the reader stands behind the
  code.  This holds for every code of up to 31 leading zeros at every bit offset.
\<close>
theorem ReadUE_decodes:
  assumes "drop off (bits d) = replicate z False @ True # s @ rest" "length s = z" "z \<le> 31"
  shows "ReadUE d off = Ok (of_nat (2 ^ z - 1 + bits_val s), off + 2 * z + 1)"
proof -
  have z: "ue_zeros d off 0 = Ok (z, off + z + 1)" "drop (off + z + 1) (bits d) = s @ rest"
    using ue_zeros_bits [OF assms(1), of 0] assms(3) by simp_all
  have l: "off + z + 1 + z \<le> 8 * length d"
    using arg_cong [OF z(2), of length] assms(2) arg_cong [OF assms(1), of length] by simp
  have "(if z \<noteq> 0 then ReadBits d (off + z + 1) z else Ok (0, off + z + 1)) = Ok (of_nat (bits_val s), off + z + 1 + z)"
    using ReadBits_bits [of z "off + z + 1" d] l z(2) assms(2,3) by auto
  moreover have "off + z + 1 + z = off + 2 * z + 1"
    by simp
  ultimately show ?thesis
    unfolding ReadUE_def z(1) bind_outcome.simps prod.case
    by (simp only: bind_outcome.simps prod.case ue_value [OF bits_val_less [of s, unfolded assms(2)] assms(3)])
qed

theorem ReadUE_decodes_witness: "ReadUE [0x1E] 1 = Ok (of_nat (2 ^ 2 - 1 + bits_val [True, True]), 1 + 2 * 2 + 1)"
  by (rule ReadUE_decodes [where rest = "[True, False]"]) code_simp+


section \<open>What an accepted parameter set gives\<close>

lemma ReadBits_no_fault [simp]: "ReadBits d off n \<noteq> Fault"
  using ReadBits_bits [of n off d] by (cases "n \<le> 32 \<and> off + n \<le> 8 * length d") (auto simp: ReadBits_def)

lemma ReadBit_no_fault [simp]: "ReadBit d off \<noteq> Fault"
  by (auto simp: ReadBit_def bind_Fault_iff)

lemma ue_zeros_no_fault [simp]: "ue_zeros d off zeros \<noteq> Fault"
  by (induction d off zeros rule: ue_zeros.induct)
    (subst ue_zeros.simps, auto simp: bind_Fault_iff split: if_splits)

lemma ReadUE_no_fault [simp]: "ReadUE d off \<noteq> Fault"
  by (auto simp: ReadUE_def bind_Fault_iff split: if_splits)

lemma ReadSE_no_fault [simp]: "ReadSE d off \<noteq> Fault"
  by (auto simp: ReadSE_def bind_Fault_iff)

lemma skip_se_no_fault [simp]: "skip_se d off n \<noteq> Fault"
  by (induction d off n rule: skip_se.induct) (subst skip_se.simps, auto simp: bind_Fault_iff)

lemma sps_poc_no_fault [simp]: "sps_poc d off \<noteq> Fault"
  by (auto simp: sps_poc_def bind_Fault_iff split: if_splits)

lemma sps_shape_no_fault [simp]: "sps_shape d off \<noteq> Fault"
  by (auto simp: sps_shape_def bind_Fault_iff split: if_splits)

lemma sps_size_no_fault [simp]: "sps_size c s sh \<noteq> Fault"
  by (auto simp: sps_size_def Let_def)

lemma bits_val_snoc: "bits_val (xs @ [x]) = 2 * bits_val xs + of_bool x"
  by (induction xs) simp_all

lemma bits_val_rev: "bits_val (rev xs) = horner_sum of_bool 2 xs"
  by (induction xs) (simp_all add: bits_val_snoc)

lemma unat_byte: "unat (b :: u8) = bits_val (map (\<lambda>i. bit b (7 - i)) [0..<8])"
proof -
  have "take_bit 8 (unat b) = unat b"
    using unsigned_less [of b, where 'a = nat] by (intro take_bit_nat_eq_self) simp
  moreover have "take_bit 8 (unat b) = horner_sum of_bool 2 (map (bit (unat b)) [0..<8])"
    by (simp only: horner_sum_bit_eq_take_bit)
  ultimately have "unat b = horner_sum of_bool 2 (map (bit b) [0..<8])"
    by (simp add: bit_unsigned_iff upt_rec)
  moreover have "map (\<lambda>i. bit b (7 - i)) [0..<8] = rev (map (bit b) [0..<8])"
    by (rule nth_equalityI) (auto simp: rev_nth)
  ultimately show ?thesis
    by (simp only: bits_val_rev)
qed

lemma profile_bits:
  assumes "4 \<le> length nalu"
  shows "ReadBits (NaluToRbsp nalu) 0 8 = Ok (ucast (nalu ! 1), 8)"
proof -
  obtain a b c ys where n: "nalu = a # b # c # ys"
    using assms by (cases nalu; cases "tl nalu"; cases "tl (tl nalu)") auto
  obtain cs where "NaluToRbsp nalu = b # cs"
    by (simp add: n NaluToRbsp_def)
  moreover have "bits (b # cs) = map (\<lambda>i. bit b (7 - i)) [0..<8] @ bits cs"
    by (simp add: bits_def)
  ultimately show ?thesis
    using ReadBits_bits [of 8 0 "NaluToRbsp nalu"] by (simp add: n flip: unat_byte)
qed

text \<open>
  No input makes the parser of picture parameter sets, or that of sequence parameter sets outside the high
  profiles, read out of range or overflow: they accept or reject.
\<close>
theorem parameter_sets_safe:
  assumes "2 \<le> length sps \<Longrightarrow> \<not> IsHighProfile (ucast (sps ! 1))"
  shows "ParseSps sps \<noteq> Fault \<and> ParsePps pps \<noteq> Fault"
proof
  show "ParsePps pps \<noteq> Fault"
    by (auto simp: ParsePps_def rd8_def bind_Fault_iff Let_def)
  show "ParseSps sps \<noteq> Fault"
  proof (cases "length sps < 4")
    case False
    then show ?thesis
      using assms by (auto simp: ParseSps_def rd8_def profile_bits bind_Fault_iff Let_def)
  qed (simp add: ParseSps_def)
qed

theorem parameter_sets_safe_witness:
  "ParseSps [103, 66, 0, 30, 218, 1, 64, 22, 232] \<noteq> Fault \<and> ParsePps [104, 206] \<noteq> Fault"
  by (rule parameter_sets_safe) (simp add: IsHighProfile_def)

lemma uint_word_diff:
  fixes a b :: u64
  assumes "b < a" "a \<le> 0x7FFFFFFF"
  shows "0 < uint (a - b) \<and> uint (a - b) < 2 ^ 31"
proof -
  have "uint (a - b) = uint a - uint b"
    using assms(1) by (simp add: uint_sub_if' word_less_def)
  moreover have "0 \<le> uint b" "uint b < uint a" "uint a \<le> 2147483647"
    using assms by (simp_all add: word_less_def word_le_def)
  ultimately have "0 < uint (a - b) \<and> uint (a - b) < 2147483648"
    by linarith
  then show ?thesis
    by simp
qed

lemma sps_size_bounds: "sps_size c s sh = Ok (w, h) \<Longrightarrow> 0 < w \<and> w < 2 ^ 31 \<and> 0 < h \<and> h < 2 ^ 31"
  unfolding sps_size_def Let_def
  by (auto simp only: not_le not_less de_Morgan_disj outcome.inject prod.inject outcome.distinct uint_word_diff
      split: if_split_asm)

text \<open>
  A sequence parameter set that is accepted gives a picture size that fits the tracker's 32-bit signed
  fields: width and height are positive and below \<open>2^31\<close>, whatever the bytes are.
\<close>
theorem ParseSps_size:
  assumes "ParseSps nalu = Ok info"
  shows "0 < si_width info \<and> si_width info < 2 ^ 31 \<and> 0 < si_height info \<and> si_height info < 2 ^ 31 \<and> si_payload info = nalu"
proof -
  obtain c s sh w h where "sps_size c s sh = Ok (w, h)" "si_width info = w" "si_height info = h" "si_payload info = nalu"
    using assms by (auto simp: ParseSps_def rd8_def Let_def bind_outcome_Ok_iff split: if_splits)
  then show ?thesis
    using sps_size_bounds by simp
qed

theorem ParseSps_size_witness:
  "case ParseSps [103, 66, 0, 30, 218, 1, 224, 8, 159, 150] of
     Ok i \<Rightarrow> si_width i = 1920 \<and> si_height i = 1080 \<and> si_height i < 2 ^ 31 | _ \<Rightarrow> False"
proof -
  have c: "case ParseSps [103, 66, 0, 30, 218, 1, 224, 8, 159, 150] of Ok i \<Rightarrow> si_width i = 1920 \<and> si_height i = 1080 | _ \<Rightarrow> False"
    by code_simp
  then obtain i where i: "ParseSps [103, 66, 0, 30, 218, 1, 224, 8, 159, 150] = Ok i"
    by (simp split: outcome.splits)
  show ?thesis
    using c ParseSps_size [OF i] by (simp add: i)
qed

text \<open>
  The crop check adds the two offsets of a side in 32 bits: the set below crops \<open>2^31\<close> units on the left and as
  many on the right of a 1280 pixel wide picture, the sum is 0, and the set is accepted with width 1280.
\<close>
lemma ParseSps_crop_wraps:
  "case ParseSps [103, 66, 0, 30, 218, 1, 64, 22, 240, 0, 0, 3, 0, 16, 0, 0, 3, 0, 32, 0, 0, 3, 0, 32, 0, 0, 3, 0, 120] of
     Ok i \<Rightarrow> si_width i = 1280 | _ \<Rightarrow> False"
  by code_simp

text \<open>
  The high profiles' scaling lists add an unchecked 32-bit delta to an \<open>int\<close>: the set below overflows it.
\<close>
lemma ParseSps_signed_overflow:
  "ParseSps [103, 100, 0, 30, 173, 128, 0, 0, 3, 0, 255, 255, 255, 254, 180, 2, 128, 45, 208] = Fault"
  by code_simp

end
