(* ===== verification/H264_Depacketizer.thy ===== *)
theory H264_Depacketizer
  imports H264_Reassembly H264_Parameter_Sets
begin

text \<open>
  The H.264 depacketizer (\<open>src/Common/Depacketizer/H264Depacketizer.cpp\<close>): parser, jitter buffer and
  parameter set tracker composed.  Parameter sets negotiated in the \<open>fmtp\<close> line of the session description
  are loaded first; those of the stream are applied as their access units are taken out.  An allocation
  failure, which clears the buffer, is not modelled.
\<close>

section \<open>Parameter sets of the session description\<close>

text \<open>The calls of \<open>std::getline\<close> until the stream ends: no field follows a final delimiter.\<close>

function getlines :: "char \<Rightarrow> string \<Rightarrow> string list" where
  "getlines delim s =
     (if s = [] then []
      else takeWhile (\<lambda>c. c \<noteq> delim) s # getlines delim (drop 1 (dropWhile (\<lambda>c. c \<noteq> delim) s)))"
  by pat_completeness auto

termination
  by (relation "measure (length \<circ> snd)") (auto simp: le_less_trans [OF diff_le_mono [OF length_dropWhile_le]])

declare getlines.simps [simp del]

definition is_space :: "char \<Rightarrow> bool" where
  "is_space c \<longleftrightarrow> c \<in> {CHR '' '', CHR 0x09, CHR 0x0D, CHR 0x0A}"

definition trim :: "string \<Rightarrow> string" where
  "trim text = rev (dropWhile is_space (rev (dropWhile is_space text)))"

definition tolower :: "char \<Rightarrow> char" where
  "tolower c = (let n = of_char c :: nat in if 65 \<le> n \<and> n \<le> 90 then char_of (n + 32) else c)"

definition b64_digit :: "char \<Rightarrow> int" where
  "b64_digit c =
     (let n = of_char c in
      if 65 \<le> n \<and> n \<le> 90 then n - 65
      else if 97 \<le> n \<and> n \<le> 122 then n - 97 + 26
      else if 48 \<le> n \<and> n \<le> 57 then n - 48 + 52
      else if c = CHR ''+'' then 62 else if c = CHR ''/'' then 63 else - 1)"

text \<open>The decoding loop: whether all characters were valid, the number of bits left over, the bytes.\<close>

fun b64_loop :: "string \<Rightarrow> u32 \<Rightarrow> nat \<Rightarrow> bool \<Rightarrow> bytes \<Rightarrow> bool \<times> nat \<times> bytes" where
  "b64_loop [] accumulator nbits padding decoded = (True, nbits, decoded)"
| "b64_loop (c # cs) accumulator nbits padding decoded =
     (if c = CHR ''='' then b64_loop cs accumulator nbits True decoded
      else
        let digit = b64_digit c in
        if digit < 0 \<or> padding then (False, nbits, decoded)
        else
          let accumulator = push_bit 6 accumulator OR of_int digit; nbits = nbits + 6 in
          if nbits \<ge> 8
          then b64_loop cs accumulator (nbits - 8) padding (decoded @ [ucast (drop_bit (nbits - 8) accumulator)])
          else b64_loop cs accumulator nbits padding decoded)"

definition load_value :: "string \<Rightarrow> tracker \<Rightarrow> tracker outcome" where
  "load_value field t =
     (let encoded = trim field in
      if encoded = [] \<or> length encoded > 16384 then Ok t
      else
        let (valid, nbits, decoded) = b64_loop encoded 0 0 False [] in
        if \<not> valid \<or> decoded = [] \<or> nbits = 6 then Ok t
        else
          let ty = hd decoded AND 31 in
          if ty = 7 then bind_outcome (UpdateSps decoded t) (\<lambda>(_, t). Ok t)
          else if ty = 8 then bind_outcome (UpdatePps decoded t) (\<lambda>(_, t). Ok t)
          else Ok t)"

fun load_values :: "string list \<Rightarrow> tracker \<Rightarrow> tracker outcome" where
  "load_values [] t = Ok t"
| "load_values (v # vs) t = bind_outcome (load_value v t) (load_values vs)"

fun load_parameters :: "string list \<Rightarrow> tracker \<Rightarrow> tracker outcome" where
  "load_parameters [] t = Ok t"
| "load_parameters (p # ps) t =
     (if CHR ''='' \<notin> set p then load_parameters ps t
      else
        let key = map tolower (trim (takeWhile (\<lambda>c. c \<noteq> CHR ''='') p)) in
        if key \<noteq> ''sprop-parameter-sets'' then load_parameters ps t
        else bind_outcome (load_values (getlines CHR '','' (drop 1 (dropWhile (\<lambda>c. c \<noteq> CHR ''='') p))) t)
               (load_parameters ps))"

definition LoadParameterSets :: "string \<Rightarrow> tracker \<Rightarrow> tracker outcome" where
  "LoadParameterSets fmtp t = load_parameters (getlines CHR '';'' fmtp) t"

section \<open>The depacketizer\<close>

record depacketizer =
  dp_fmtp :: string
  packet_buffer :: h264_buffer
  parameter_sets :: tracker
  dp_ready_frames :: "H264AccessUnit list"

definition H264Depacketizer_new :: "string \<Rightarrow> depacketizer outcome" where
  "H264Depacketizer_new fmtp =
     bind_outcome (LoadParameterSets fmtp tracker_init) (\<lambda>t.
       Ok \<lparr>dp_fmtp = fmtp, packet_buffer = H264Buffer_new h264_config_default, parameter_sets = t, dp_ready_frames = []\<rparr>)"

definition Depacketizer_input :: "RtpView \<Rightarrow> int \<Rightarrow> depacketizer \<Rightarrow> (bool \<times> depacketizer) outcome" where
  "Depacketizer_input pkt now d =
     (if \<not> view_valid pkt then Ok (False, d)
      else bind_outcome (H264_Parse pkt H264ParsedPacket_init) (\<lambda>(ok, parsed).
        if \<not> ok then Ok (False, d)
        else if \<not> pk_valid parsed then Ok (False, d)
        else bind_outcome (H264_InsertPacket parsed now (packet_buffer d)) (\<lambda>(result, b).
          Ok (inserted result \<or> ir_duplicate result,
              d\<lparr>packet_buffer := b, dp_ready_frames := dp_ready_frames d @ ir_frames result\<rparr>))))"

definition hasFrame :: "depacketizer \<Rightarrow> bool" where
  "hasFrame d \<longleftrightarrow> dp_ready_frames d \<noteq> []"

definition popAccessUnit :: "depacketizer \<Rightarrow> (H264AccessUnit option \<times> depacketizer) outcome" where
  "popAccessUnit d =
     (case dp_ready_frames d of
        [] \<Rightarrow> Ok (None, d)
      | out # rest \<Rightarrow>
          bind_outcome (UpdateAccessUnit out (parameter_sets d)) (\<lambda>(_, t).
            Ok (Some out, d\<lparr>dp_ready_frames := rest, parameter_sets := t\<rparr>)))"

definition popFrame :: "depacketizer \<Rightarrow> (bytes \<times> depacketizer) outcome" where
  "popFrame d =
     bind_outcome (popAccessUnit d) (\<lambda>(au, d). Ok (case au of None \<Rightarrow> [] | Some au \<Rightarrow> ToAnnexB au, d))"

definition Depacketizer_Reset :: "depacketizer \<Rightarrow> depacketizer outcome" where
  "Depacketizer_Reset d =
     bind_outcome (LoadParameterSets (dp_fmtp d) (Tracker_Reset (parameter_sets d))) (\<lambda>t.
       Ok (d\<lparr>packet_buffer := H264Buffer_Reset (packet_buffer d), dp_ready_frames := [], parameter_sets := t\<rparr>))"

definition Depacketizer_FlushExpired :: "int \<Rightarrow> depacketizer \<Rightarrow> (bool \<times> depacketizer) outcome" where
  "Depacketizer_FlushExpired now d =
     bind_outcome (H264_FlushExpired now (packet_buffer d)) (\<lambda>(n, b). Ok (n \<noteq> 0, d\<lparr>packet_buffer := b\<rparr>))"

section \<open>Base64\<close>

text \<open>The encoder of RFC 4648, section 4.\<close>

definition b64_char :: "u8 \<Rightarrow> char" where
  "b64_char w = ''ABCDEFGHIJKLMNOPQRSTUVWXYZabcdefghijklmnopqrstuvwxyz0123456789+/'' ! unat w"

definition sextet2 :: "u8 \<Rightarrow> u8 \<Rightarrow> u8" where
  "sextet2 a b = push_bit 4 (a AND 3) OR drop_bit 4 b"

definition sextet3 :: "u8 \<Rightarrow> u8 \<Rightarrow> u8" where
  "sextet3 b c = push_bit 2 (b AND 15) OR drop_bit 6 c"

fun b64_encode :: "bytes \<Rightarrow> string" where
  "b64_encode [] = []"
| "b64_encode [a] = [b64_char (drop_bit 2 a), b64_char (sextet2 a 0), CHR ''='', CHR ''='']"
| "b64_encode [a, b] = [b64_char (drop_bit 2 a), b64_char (sextet2 a b), b64_char (sextet3 b 0), CHR ''='']"
| "b64_encode (a # b # c # r) =
     b64_char (drop_bit 2 a) # b64_char (sextet2 a b) # b64_char (sextet3 b c) # b64_char (c AND 63) # b64_encode r"

lemma b64_alphabet:
  "list_all (\<lambda>n. b64_digit (b64_char (of_nat n)) = int n \<and> b64_char (of_nat n) \<noteq> CHR ''='' \<and> \<not> is_space (b64_char (of_nat n)) \<and>
     b64_char (of_nat n) \<noteq> CHR '','' \<and> b64_char (of_nat n) \<noteq> CHR '';'') [0..<64]"
  by code_simp

lemma b64_char_props:
  assumes "w < 64"
  shows "b64_digit (b64_char w) = uint w" "b64_char w \<noteq> CHR ''=''" "\<not> is_space (b64_char w)" "b64_char w \<noteq> CHR '',''"
    "b64_char w \<noteq> CHR '';''"
proof -
  have "unat w < 64"
    using assms by (simp add: word_less_nat_alt)
  then have "unat w \<in> set [0..<64]"
    by simp
  then show "b64_digit (b64_char w) = uint w" "b64_char w \<noteq> CHR ''=''" "\<not> is_space (b64_char w)" "b64_char w \<noteq> CHR '',''"
    "b64_char w \<noteq> CHR '';''"
    using b64_alphabet [unfolded list_all_iff, rule_format, of "unat w"] by simp_all
qed

lemma u8_high: "8 \<le> n \<Longrightarrow> \<not> bit (w :: u8) n"
  using bit_imp_le_length [of w n] by auto

lemma sextet_less:
  "drop_bit 2 (a :: u8) < 64" "sextet2 a b < 64" "sextet3 b c < 64" "c AND 63 < (64 :: u8)"
proof -
  have "w AND 63 < (64 :: u8)" for w
    using word_and_le1 [of w 63] by (simp add: order_le_less_trans)
  moreover have "drop_bit 2 a = drop_bit 2 a AND 63" "sextet2 a b = sextet2 a b AND 63" "sextet3 b c = sextet3 b c AND 63"
    by (rule u8_eqI; simp add: sextet2_def sextet3_def bit_simps u8_high)+
  ultimately show "drop_bit 2 (a :: u8) < 64" "sextet2 a b < 64" "sextet3 b c < 64" "c AND 63 < (64 :: u8)"
    by metis+
qed

lemma octet:
  fixes a b c :: u8 and acc :: u32
  shows "ucast (drop_bit 4 (push_bit 6 (push_bit 6 acc OR ucast (drop_bit 2 a)) OR ucast (sextet2 a b))) = a"
    "ucast (drop_bit 2 (push_bit 6 (push_bit 6 acc OR ucast (sextet2 a b)) OR ucast (sextet3 b c))) = b"
    "ucast (push_bit 6 (push_bit 6 acc OR ucast (sextet3 b c)) OR ucast (c AND 63)) = c"
  by (rule u8_eqI; simp add: sextet2_def sextet3_def bit_simps u8_high)+

lemma b64_loop_char:
  assumes "w < 64"
  shows "b64_loop (b64_char w # cs) acc n False dec =
    (if n + 6 \<ge> 8
     then b64_loop cs (push_bit 6 acc OR ucast w) (n + 6 - 8) False (dec @ [ucast (drop_bit (n + 6 - 8) (push_bit 6 acc OR ucast w))])
     else b64_loop cs (push_bit 6 acc OR ucast w) (n + 6) False dec)"
  using assms by (simp add: b64_char_props Let_def)

lemma b64_loop_encode:
  "\<exists>n. b64_loop (b64_encode bs) acc 0 False pre = (True, n, pre @ bs) \<and> n \<noteq> 6"
proof (induction bs arbitrary: acc pre rule: b64_encode.induct)
  case (2 a)
  then show ?case
    by (simp add: b64_loop_char sextet_less octet del: b64_loop.simps(2) push_bit_or push_bit_push_bit drop_bit_or)
      (simp del: push_bit_or push_bit_push_bit)
next
  case (3 a b)
  then show ?case
    by (simp add: b64_loop_char sextet_less octet del: b64_loop.simps(2) push_bit_or push_bit_push_bit drop_bit_or)
      (simp del: push_bit_or push_bit_push_bit)
next
  case (4 a b c r)
  then show ?case
    using 4 [where pre = "pre @ [a, b, c]"]
    by (simp add: b64_loop_char sextet_less octet del: b64_loop.simps(2) push_bit_or push_bit_push_bit drop_bit_or)
qed simp

lemma b64_encode_chars: "c \<in> set (b64_encode bs) \<Longrightarrow> \<not> is_space c \<and> c \<noteq> CHR '','' \<and> c \<noteq> CHR '';''"
  by (induction bs rule: b64_encode.induct) (auto simp: b64_char_props sextet_less, auto simp: is_space_def)

lemma length_b64_encode: "length (b64_encode bs) = 4 * ((length bs + 2) div 3)"
proof (induction bs rule: b64_encode.induct)
  case (4 a b c r)
  have "(length (a # b # c # r) + 2) div 3 = (length r + 2) div 3 + 1"
    by simp
  then show ?case
    using 4 by simp
qed simp_all

lemma trim_id: "(\<And>c. c \<in> set s \<Longrightarrow> \<not> is_space c) \<Longrightarrow> trim s = s"
  by (simp add: trim_def dropWhile_eq_self_iff) (metis dropWhile_eq_self_iff hd_in_set rev_rev_ident set_rev)

lemma trim_b64_encode [simp]: "trim (b64_encode bs) = b64_encode bs"
  by (rule trim_id) (simp add: b64_encode_chars)

lemma split_at_delim:
  assumes "delim \<notin> set s"
  shows "takeWhile (\<lambda>c. c \<noteq> delim) s = s" "dropWhile (\<lambda>c. c \<noteq> delim) s = []"
    "takeWhile (\<lambda>c. c \<noteq> delim) (s @ delim # r) = s" "dropWhile (\<lambda>c. c \<noteq> delim) (s @ delim # r) = delim # r"
  using assms by (induction s) auto

lemma getlines_last: "s \<noteq> [] \<Longrightarrow> delim \<notin> set s \<Longrightarrow> getlines delim s = [s]"
  by (simp add: getlines.simps [of delim s] getlines.simps [of delim "[]"] split_at_delim)

lemma getlines_more: "delim \<notin> set s \<Longrightarrow> getlines delim (s @ delim # r) = s # getlines delim r"
  by (simp add: getlines.simps [of delim "s @ delim # r"] split_at_delim)

lemma b64_encode_nonempty: "bs \<noteq> [] \<Longrightarrow> b64_encode bs \<noteq> []"
  by (cases bs rule: b64_encode.cases) auto

lemma load_value_encoded:
  assumes "bs \<noteq> []" "length bs \<le> 12288"
  shows "load_value (b64_encode bs) t =
    (if hd bs AND 31 = 7 then bind_outcome (UpdateSps bs t) (\<lambda>(_, t). Ok t)
     else if hd bs AND 31 = 8 then bind_outcome (UpdatePps bs t) (\<lambda>(_, t). Ok t)
     else Ok t)"
proof -
  have "length (b64_encode bs) \<le> 16384"
    using assms(2) by (simp add: length_b64_encode)
  then show ?thesis
    using b64_loop_encode [of bs 0 "[]"] b64_encode_nonempty assms(1) by (auto simp: load_value_def)
qed

lemma ParseSps_type: "ParseSps n = Ok i \<Longrightarrow> n \<noteq> [] \<and> hd n AND 31 = 7"
  by (auto simp: ParseSps_def rd8_def H264GetNalType_def Let_def hd_conv_nth split: if_splits)

lemma ParsePps_type: "ParsePps n = Ok i \<Longrightarrow> n \<noteq> [] \<and> hd n AND 31 = 8"
  by (auto simp: ParsePps_def rd8_def H264GetNalType_def Let_def hd_conv_nth split: if_splits)

text \<open>
  Negotiated parameter sets are found.  A depacketizer created with a session description that carries a
  sequence and a picture parameter set, encoded in base64 as RFC 4648 and RFC 6184 prescribe, starts with
  exactly these sets as its latest ones, whatever their bytes are.
\<close>
theorem negotiated_sets_loaded:
  assumes "ParseSps sps = Ok i" "ParsePps pps = Ok j" "length sps \<le> 12288" "length pps \<le> 12288"
  shows "\<exists>d. H264Depacketizer_new (''sprop-parameter-sets='' @ b64_encode sps @ '','' @ b64_encode pps) = Ok d \<and>
    LatestSps (parameter_sets d) = Some i \<and> LatestPps (parameter_sets d) = Some j"
proof -
  let ?v = "b64_encode sps @ CHR '','' # b64_encode pps"
  let ?p = "''sprop-parameter-sets='' @ ?v"
  have n: "b64_encode sps \<noteq> []" "b64_encode pps \<noteq> []"
    using ParseSps_type ParsePps_type b64_encode_nonempty assms(1,2) by blast+
  have no_comma: "CHR '','' \<notin> set (b64_encode bs)" for bs
    using b64_encode_chars by blast
  have "CHR '';'' \<notin> set ?p"
    using b64_encode_chars [of "CHR '';''" sps] b64_encode_chars [of "CHR '';''" pps] by auto
  then have "getlines CHR '';'' ?p = [?p]"
    by (intro getlines_last) simp_all
  moreover have "getlines CHR '','' ?v = [b64_encode sps, b64_encode pps]"
    using n(2) no_comma by (simp add: getlines_more getlines_last)
  moreover have "map tolower (trim ''sprop-parameter-sets'') = ''sprop-parameter-sets''"
    by code_simp
  ultimately show ?thesis
    using assms ParseSps_type [OF assms(1)] ParsePps_type [OF assms(2)]
    by (simp add: H264Depacketizer_new_def LoadParameterSets_def load_value_encoded UpdateSps_def UpdatePps_def
        LatestSps_def LatestPps_def GetSps_def GetPps_def)
qed

theorem negotiated_sets_loaded_witness:
  "\<exists>d i j. H264Depacketizer_new (''sprop-parameter-sets='' @ ''Z0IAHtoBQBbo'' @ '','' @ ''aM4='') = Ok d \<and>
    LatestSps (parameter_sets d) = Some i \<and> si_width i = 1280 \<and> LatestPps (parameter_sets d) = Some j"
proof -
  let ?s = "[103, 66, 0, 30, 218, 1, 64, 22, 232] :: bytes" and ?p = "[104, 206] :: bytes"
  have "case ParseSps ?s of Ok i \<Rightarrow> si_width i = 1280 | _ \<Rightarrow> False" "case ParsePps ?p of Ok j \<Rightarrow> True | _ \<Rightarrow> False"
    by code_simp+
  then obtain i j where "ParseSps ?s = Ok i" "si_width i = 1280" "ParsePps ?p = Ok j"
    by (auto split: outcome.splits)
  moreover have "b64_encode ?s = ''Z0IAHtoBQBbo''" "b64_encode ?p = ''aM4=''"
    by code_simp+
  ultimately show ?thesis
    using negotiated_sets_loaded [of ?s i ?p j] by auto
qed

section \<open>From the wire to the frame\<close>

text \<open>Feeding packets with their arrival times, as the receiving track does.\<close>

fun inputs :: "(RtpView \<times> int) list \<Rightarrow> depacketizer \<Rightarrow> depacketizer outcome" where
  "inputs [] d = Ok d"
| "inputs ((v, now) # vs) d = bind_outcome (Depacketizer_input v now d) (\<lambda>(_, d). inputs vs d)"

definition parsed :: "RtpView \<Rightarrow> H264ParsedPacket" where
  "parsed v = (case H264_Parse v H264ParsedPacket_init of Ok (_, pk) \<Rightarrow> pk | _ \<Rightarrow> H264ParsedPacket_init)"

lemma inputs_run:
  assumes "hb_inv (packet_buffer d)" "\<forall>(v, now) \<in> set vs. view_valid v \<and> pk_valid (parsed v)"
  shows "\<exists>d'. inputs vs d = Ok d' \<and> parameter_sets d' = parameter_sets d \<and>
    packet_buffer d' = fst (run h264_step (packet_buffer d) (map (\<lambda>(v, now). H264Packet (parsed v) now) vs)) \<and>
    dp_ready_frames d' = dp_ready_frames d @ snd (run h264_step (packet_buffer d) (map (\<lambda>(v, now). H264Packet (parsed v) now) vs))"
  using assms
proof (induction vs arbitrary: d)
  case (Cons x vs)
  obtain v now where x: "x = (v, now)"
    by fastforce
  obtain pk where p: "H264_Parse v H264ParsedPacket_init = Ok (True, pk)" "pk_valid pk" "parsed v = pk"
    using H264_Parse_verdict [of v H264ParsedPacket_init] Cons.prems(2)
    by (auto simp: verdict_def parsed_def x split: outcome.splits)
  obtain res b' where i: "H264_InsertPacket pk now (packet_buffer d) = Ok (res, b')" "hb_inv b'"
    using Cons.prems(1) by (rule insert_okE [of _ pk now]) blast
  let ?d = "d\<lparr>packet_buffer := b', dp_ready_frames := dp_ready_frames d @ ir_frames res\<rparr>"
  have "inputs (x # vs) d = inputs vs ?d"
    using p i(1) Cons.prems(2) by (simp add: x Depacketizer_input_def)
  then show ?case
    using Cons.IH [of ?d] i Cons.prems(2) p(3) by (auto simp: x split_def Let_def)
qed simp

text \<open>
  The packets of one fragmented coded slice (RFC 6184, FU-A): NAL header \<open>h\<close>, the fragments \<open>cs\<close> of the body.
\<close>

definition fragment_views :: "u32 \<Rightarrow> u32 \<Rightarrow> int \<Rightarrow> u16 \<Rightarrow> u8 \<Rightarrow> bytes list \<Rightarrow> RtpView list" where
  "fragment_views ssrc ts rt s0 h cs =
     map (\<lambda>i. \<lparr>v_seq = s0 + of_nat i, v_ts = ts, v_marker = (Suc i = length cs),
                v_payload = fu_payload h (i = 0) (Suc i = length cs) (cs ! i), v_ssrc = ssrc, v_receive_time_ms = rt\<rparr>)
       [0..<length cs]"

lemma parsed_fragment:
  fixes ssrc ts :: u32 and rt :: int and s0 :: u16
  assumes "i < length cs" "2 \<le> length cs" "\<forall>c \<in> set cs. c \<noteq> []" "h AND 0x80 = 0" "h AND 0x1F = 5"
  defines "v \<equiv> fragment_views ssrc ts rt s0 h cs ! i"
  shows "view_valid v" "pk_valid (parsed v)" "\<not> pk_malformed (parsed v)" "pk_seq (parsed v) = s0 + of_nat i"
    "pk_ssrc (parsed v) = ssrc" "pk_timestamp (parsed v) = ts" "pk_marker (parsed v) \<longleftrightarrow> Suc i = length cs"
    "units (parsed v) = [fu_unit h (i = 0) (Suc i = length cs) (cs ! i)]"
proof -
  have v: "v_payload v = fu_payload h (i = 0) (Suc i = length cs) (cs ! i)" "v_seq v = s0 + of_nat i" "v_ssrc v = ssrc"
      "v_ts v = ts" "v_marker v \<longleftrightarrow> Suc i = length cs"
    using assms(1) by (simp_all add: v_def fragment_views_def)
  obtain pk where pk: "H264_Parse v H264ParsedPacket_init = Ok (True, pk)"
      "units pk = [fu_unit h (i = 0) (Suc i = length cs) (cs ! i)]"
    using H264_Parse_fragment [OF v(1), of H264ParsedPacket_init] assms(1-5) by (cases i) auto
  then have p: "parsed v = pk" "pk_valid pk" "\<not> pk_malformed pk" "same_origin pk (FillCommon v H264ParsedPacket_init)"
    using H264_Parse_verdict [of v H264ParsedPacket_init] by (auto simp: parsed_def verdict_def)
  show "view_valid v"
    using v(1) by (simp add: view_valid_def fu_payload_def)
  show "pk_valid (parsed v)" "\<not> pk_malformed (parsed v)" "pk_seq (parsed v) = s0 + of_nat i"
    "pk_ssrc (parsed v) = ssrc" "pk_timestamp (parsed v) = ts" "pk_marker (parsed v) \<longleftrightarrow> Suc i = length cs"
    "units (parsed v) = [fu_unit h (i = 0) (Suc i = length cs) (cs ! i)]"
    using p pk(2) v by (simp_all add: same_origin_def FillCommon_def)
qed

lemma fragments_run_tail:
  "k < length cs \<Longrightarrow> \<forall>c \<in> set cs. c \<noteq> [] \<Longrightarrow> run_tail h (map (\<lambda>i. fu_unit h False (Suc i = length cs) (cs ! i)) [k..<length cs])"
proof (induction "length cs - k" arbitrary: k)
  case (Suc m)
  let ?u = "\<lambda>i. fu_unit h False (Suc i = length cs) (cs ! i)"
  have u: "fragment h (?u k)" "\<not> fu_start (?u k)" "fu_end (?u k) \<longleftrightarrow> Suc k = length cs"
    using Suc.prems by (simp_all add: fu_unit_def fragment_def)
  have "map ?u [k..<length cs] = ?u k # map ?u [Suc k..<length cs]"
    using Suc.prems(1) by (simp only: upt_conv_Cons list.map)
  moreover have "Suc k \<noteq> length cs \<Longrightarrow> run_tail h (map ?u [Suc k..<length cs])"
    using Suc by simp
  ultimately show ?case
    using u by simp
qed simp

lemma upt_first: "2 \<le> n \<Longrightarrow> [0..<n] = 0 # [1..<n]"
  by (simp add: upt_conv_Cons [of 0 n])

lemma fragments_carry:
  assumes "2 \<le> length cs" "\<forall>c \<in> set cs. c \<noteq> []"
  shows "carries (map (\<lambda>i. fu_unit h (i = 0) (Suc i = length cs) (cs ! i)) [0..<length cs]) [h # concat cs]"
proof -
  let ?us = "map (\<lambda>i. fu_unit h (i = 0) (Suc i = length cs) (cs ! i)) [0..<length cs]"
  have "?us = fu_unit h True False (cs ! 0) # map (\<lambda>i. fu_unit h False (Suc i = length cs) (cs ! i)) [1..<length cs]"
    using assms(1) by (auto simp: upt_first)
  moreover have "cs ! 0 \<noteq> []"
    using assms by (cases cs) auto
  then have "fragment h (fu_unit h True False (cs ! 0))" "fu_start (fu_unit h True False (cs ! 0))"
      "\<not> fu_end (fu_unit h True False (cs ! 0))"
    by (simp_all add: fragment_def fu_unit_def)
  ultimately have "fragment_run h ?us"
    using fragments_run_tail [of 1 cs h] assms by simp
  moreover have "map unit_data ?us = cs"
    by (rule nth_equalityI) (simp_all add: fu_unit_def)
  ultimately show ?thesis
    using carries_run [of h ?us "[]" "[]"] carries_Nil by simp
qed

lemma fragments_access_unit:
  assumes "2 \<le> length cs" "length cs \<le> 512" "\<forall>c \<in> set cs. c \<noteq> []" "h AND 0x80 = 0" "h AND 0x1F = 5"
    and "hd (hd cs) AND 0x80 \<noteq> 0"
  shows "access_unit h264_config_default s0 (map parsed (fragment_views ssrc ts rt s0 h cs)) [h # concat cs]"
proof -
  let ?pks = "map parsed (fragment_views ssrc ts rt s0 h cs)"
  let ?u = "\<lambda>i. fu_unit h (i = 0) (Suc i = length cs) (cs ! i)"
  have l: "length ?pks = length cs"
    by (simp add: fragment_views_def)
  note p = parsed_fragment [OF _ assms(1,3-5), of _ ssrc ts rt s0]
  have pos: "0 < length cs"
    using assms(1) by linarith
  then have at0: "?pks ! 0 = parsed (fragment_views ssrc ts rt s0 h cs ! 0)"
    using l by (intro nth_map) simp
  have u: "concat (map units ?pks) = map ?u [0..<length cs]"
  proof -
    have "map units ?pks = map (\<lambda>i. [?u i]) [0..<length cs]"
      by (rule nth_equalityI) (use l p(8) in simp_all)
    then show ?thesis
      by (simp add: map_concat concat_map_singleton)
  qed
  have first: "first_slice (?u 0)" "is_idr (?u 0)" "nal_type (?u 0) = 5" "fu_start (?u 0)"
    using assms(1,5,6) by (cases cs; auto simp: fu_unit_def is_slice_def with_flags_def UpdateKeyInfo_def)+
  have "first_slice_seen us True = Some True" for us
    by (induction us) auto
  then have "first_slice_seen (map ?u [0..<length cs]) False \<noteq> None"
    using first by (simp add: upt_first [OF assms(1)])
  moreover have "BeginningOfStream (H264Buffer_new h264_config_default) (?pks ! 0)"
    using first p(8) [OF pos] at0 by (simp add: BeginningOfStream_def H264Buffer_new_def h264_config_default_def)
  moreover have "\<forall>i < length ?pks. pk_seq (?pks ! i) = s0 + of_nat i \<and> pk_valid (?pks ! i) \<and> \<not> pk_malformed (?pks ! i) \<and>
        pk_ssrc (?pks ! i) = pk_ssrc (?pks ! 0) \<and> pk_timestamp (?pks ! i) = pk_timestamp (?pks ! 0) \<and>
        (pk_marker (?pks ! i) \<longleftrightarrow> Suc i = length ?pks)"
    using p(2-7) p(5,6) [OF pos] l by (auto simp: at0)
  ultimately show ?thesis
    using fragments_carry [OF assms(1,3), of h] l u assms(1,2)
    unfolding access_unit_def by (auto simp: h264_config_default_def kBufferSize_def)
qed

text \<open>
  C21: from the wire to the frame.  A coded slice of an IDR picture is cut into any number of FU-A packets, from
  two to the buffer's limit.  When the first packet arrives first and the others follow in any order, within the
  buffer's patience, the depacketizer hands out exactly one frame: the slice in Annex B form, header and body
  as they were before fragmentation.  This holds for every first sequence number, across the wrap-around.
\<close>
theorem fragmented_slice_delivered:
  assumes "H264Depacketizer_new fmtp = Ok d" "h AND 0x80 = 0" "h AND 0x1F = 5"
    and "2 \<le> length cs" "length cs \<le> 512" "\<forall>c \<in> set cs. c \<noteq> []" "hd (hd cs) AND 0x80 \<noteq> 0"
    and "distinct order" "set order = {1..<length cs}" "\<forall>i j. t i - t j < ms 100"
  shows "\<exists>d1 d2. inputs (map (\<lambda>i. (fragment_views ssrc ts rt s0 h cs ! i, t i)) (0 # order)) d = Ok d1 \<and>
    popFrame d1 = Ok ([0, 0, 0, 1] @ h # concat cs, d2) \<and> \<not> hasFrame d2 \<and> parameter_sets d2 = parameter_sets d"
proof -
  let ?vs = "fragment_views ssrc ts rt s0 h cs"
  let ?in = "map (\<lambda>i. (?vs ! i, t i)) (0 # order)"
  have d: "packet_buffer d = H264Buffer_new h264_config_default" "dp_ready_frames d = []"
    using assms(1) by (auto simp: H264Depacketizer_new_def bind_outcome_Ok_iff)
  have l: "length ?vs = length cs"
    by (simp add: fragment_views_def)
  have pos: "0 < length cs"
    using assms(4) by linarith
  have valid: "\<forall>(v, now) \<in> set ?in. view_valid v \<and> pk_valid (parsed v)"
    using parsed_fragment(1,2) [OF _ assms(4,6,2,3)] parsed_fragment(1,2) [OF pos assms(4,6,2,3)] assms(9) by auto
  have run: "map (\<lambda>(v, now). H264Packet (parsed v) now) ?in = map (\<lambda>i. H264Packet (map parsed ?vs ! i) (t i)) (0 # order)"
    using pos assms(9) l by (auto intro!: nth_map [symmetric])
  obtain f where f: "snd (run h264_step (H264Buffer_new h264_config_default)
      (map (\<lambda>i. H264Packet (map parsed ?vs ! i) (t i)) (0 # order))) = [f]" "nalus f = [h # concat cs]"
    using reordered_delivery [OF fragments_access_unit [OF assms(4-6,2,3,7), of s0 ssrc ts rt] assms(8), of t]
      assms(9,10) l by (auto simp: h264_config_default_def)
  obtain d1 where d1: "inputs ?in d = Ok d1" "dp_ready_frames d1 = [f]" "parameter_sets d1 = parameter_sets d"
    using inputs_run [OF _ valid, of d, unfolded run d f(1)] hb_inv_new by auto
  have "UpdateAccessUnit f t = Ok (False, t)" for t
    using f(2) assms(3) by (simp add: UpdateAccessUnit_def H264GetNalType_def)
  then show ?thesis
    using d1 f(2) by (simp add: popFrame_def popAccessUnit_def ToAnnexB_def hasFrame_def)
qed

theorem fragmented_slice_delivered_witness:
  "\<exists>d d1 d2. H264Depacketizer_new [] = Ok d \<and>
    inputs (map (\<lambda>i. (fragment_views 1 2 3 65535 0x65 [[0x88, 0x01], [0x02], [0x03]] ! i, 4)) [0, 2, 1]) d = Ok d1 \<and>
    popFrame d1 = Ok ([0, 0, 0, 1] @ 0x65 # concat [[0x88, 0x01], [0x02], [0x03]], d2) \<and> \<not> hasFrame d2"
proof -
  obtain d where d: "H264Depacketizer_new [] = Ok d"
    by (auto simp: H264Depacketizer_new_def LoadParameterSets_def getlines.simps)
  have "set [2, 1 :: nat] = {1..<length [[0x88, 0x01], [0x02], [0x03 :: u8]]}"
    by auto
  then have "\<exists>d1 d2. inputs (map (\<lambda>i. (fragment_views 1 2 3 65535 0x65 [[0x88, 0x01], [0x02], [0x03]] ! i, (\<lambda>_. 4) i)) (0 # [2, 1])) d = Ok d1 \<and>
    popFrame d1 = Ok ([0, 0, 0, 1] @ 0x65 # concat [[0x88, 0x01], [0x02], [0x03]], d2) \<and> \<not> hasFrame d2 \<and>
    parameter_sets d2 = parameter_sets d"
    using d by (intro fragmented_slice_delivered) (simp_all add: ms_def)
  then show ?thesis
    using d by auto
qed

end
