(* ===== verification/Stun.thy ===== *)
theory Stun
  imports Byte_Codec
begin

text \<open>
  STUN messages (\<open>src/protocol/ice/stun/Stun.h\<close>, \<open>Stun.cpp\<close>): the message type code, the parser, the
  attribute decoders, the CRC-32 fingerprint and HMAC integrity checks.  The message keeps a pointer into
  the datagram it was parsed from; every read through it is checked, so a decoder that trusted a bad
  offset would be \<open>Fault\<close>.  HMAC-SHA1 belongs to OpenSSL and is the parameter \<open>hmac\<close>, a function of the
  key and the data that may fail.
\<close>

section \<open>Codes\<close>

definition kMagicCookie :: u32 where
  "kMagicCookie = 0x2112A442"

datatype StunClass = Request | Indication | SuccessResponse | ErrorResponse

fun class_code :: "StunClass \<Rightarrow> u8" where
  "class_code Request = 0"
| "class_code Indication = 1"
| "class_code SuccessResponse = 2"
| "class_code ErrorResponse = 3"

datatype StunMethod = Binding | Allocate | Refresh | Send | Data | CreatePermission | ChannelBind

fun method_code :: "StunMethod \<Rightarrow> u16" where
  "method_code Binding = 0x001"
| "method_code Allocate = 0x003"
| "method_code Refresh = 0x004"
| "method_code Send = 0x006"
| "method_code Data = 0x007"
| "method_code CreatePermission = 0x008"
| "method_code ChannelBind = 0x009"

datatype AttrType =
    MAPPED_ADDRESS | USERNAME | MESSAGE_INTEGRITY | ERROR_CODE | UNKNOWN_ATTRIBUTES | CHANNEL_NUMBER | LIFETIME
  | XOR_PEER_ADDRESS | DATA | REALM | NONCE | XOR_RELAYED_ADDRESS | REQUESTED_ADDRESS_FAMILY | REQUESTED_TRANSPORT
  | MESSAGE_INTEGRITY_SHA256 | XOR_MAPPED_ADDRESS | PRIORITY | USE_CANDIDATE | SOFTWARE | ALTERNATE_SERVER
  | FINGERPRINT | ICE_CONTROLLED | ICE_CONTROLLING

fun attr_code :: "AttrType \<Rightarrow> u16" where
  "attr_code MAPPED_ADDRESS = 0x0001"
| "attr_code USERNAME = 0x0006"
| "attr_code MESSAGE_INTEGRITY = 0x0008"
| "attr_code ERROR_CODE = 0x0009"
| "attr_code UNKNOWN_ATTRIBUTES = 0x000A"
| "attr_code CHANNEL_NUMBER = 0x000C"
| "attr_code LIFETIME = 0x000D"
| "attr_code XOR_PEER_ADDRESS = 0x0012"
| "attr_code DATA = 0x0013"
| "attr_code REALM = 0x0014"
| "attr_code NONCE = 0x0015"
| "attr_code XOR_RELAYED_ADDRESS = 0x0016"
| "attr_code REQUESTED_ADDRESS_FAMILY = 0x0017"
| "attr_code REQUESTED_TRANSPORT = 0x0019"
| "attr_code MESSAGE_INTEGRITY_SHA256 = 0x001C"
| "attr_code XOR_MAPPED_ADDRESS = 0x0020"
| "attr_code PRIORITY = 0x0024"
| "attr_code USE_CANDIDATE = 0x0025"
| "attr_code SOFTWARE = 0x8022"
| "attr_code ALTERNATE_SERVER = 0x8023"
| "attr_code FINGERPRINT = 0x8028"
| "attr_code ICE_CONTROLLED = 0x8029"
| "attr_code ICE_CONTROLLING = 0x802A"

text \<open>Methods and classes are enumerations over 16 and 8 bits; a decoded one need not be a named one.\<close>

definition EncodeType :: "u16 \<Rightarrow> u8 \<Rightarrow> u16" where
  "EncodeType m klass =
     (let c = ucast klass in
      (m AND 0x000F) OR push_bit 1 (m AND 0x0070) OR push_bit 2 (m AND 0x0F80) OR
      push_bit 4 (c AND 0x1) OR push_bit 8 (drop_bit 1 c AND 0x1))"

definition DecodeType :: "u16 \<Rightarrow> u16 \<times> u8" where
  "DecodeType type_raw =
     (let m = (type_raw AND 0x000F) OR drop_bit 1 (type_raw AND 0x00E0) OR drop_bit 2 (type_raw AND 0x3E00);
          c0 = ucast (drop_bit 4 type_raw AND 0x1) :: u8;
          c1 = ucast (drop_bit 8 type_raw AND 0x1) :: u8
      in (m, push_bit 1 c1 OR c0))"

section \<open>Messages\<close>

record XorMappedAddress =
  xa_is_ipv6 :: bool
  xa_port :: u16
  xa_ip :: bytes

record AttrView =
  av_type :: u16
  av_len :: nat
  value_offset :: nat

record StunMessageInfo =
  type_raw :: u16
  msg_length :: nat
  magic_cookie :: u32
  txid :: bytes
  msg_method :: u16
  msg_klass :: u8
  attrs :: "AttrView list"
  msg_raw :: "bytes option"
  raw_len :: nat

definition StunMessageInfo_init :: StunMessageInfo where
  "StunMessageInfo_init =
     \<lparr>type_raw = 0, msg_length = 0, magic_cookie = 0, txid = replicate 12 0, msg_method = 0, msg_klass = 0, attrs = [],
      msg_raw = None, raw_len = 0\<rparr>"

text \<open>The bytes behind the pointer; behind a null pointer there are none.\<close>

definition raw_bytes :: "StunMessageInfo \<Rightarrow> bytes" where
  "raw_bytes m = (case msg_raw m of None \<Rightarrow> [] | Some p \<Rightarrow> p)"

definition AttrValue :: "StunMessageInfo \<Rightarrow> AttrView \<Rightarrow> bytes outcome" where
  "AttrValue m a =
     (if msg_raw m = None then Ok []
      else if value_offset a + av_len a > raw_len m then Ok []
      else rd_slice (raw_bytes m) (value_offset a) (av_len a) Ok)"

fun find_attr :: "u16 \<Rightarrow> AttrView list \<Rightarrow> AttrView option" where
  "find_attr t [] = None"
| "find_attr t (a # as) =
     (if av_type a = t then Some a
      else if av_type a = attr_code MESSAGE_INTEGRITY \<and> t \<noteq> attr_code FINGERPRINT then None
      else find_attr t as)"

definition FindAttr :: "StunMessageInfo \<Rightarrow> u16 \<Rightarrow> AttrView option" where
  "FindAttr m t = find_attr t (attrs m)"

definition HasAttr :: "StunMessageInfo \<Rightarrow> u16 \<Rightarrow> bool" where
  "HasAttr m t \<longleftrightarrow> FindAttr m t \<noteq> None"

definition IsBindingRequest :: "StunMessageInfo \<Rightarrow> bool" where
  "IsBindingRequest m \<longleftrightarrow> msg_method m = method_code Binding \<and> msg_klass m = class_code Request"

definition IsBindingResponse :: "StunMessageInfo \<Rightarrow> bool" where
  "IsBindingResponse m \<longleftrightarrow> msg_method m = method_code Binding \<and> msg_klass m = class_code SuccessResponse"

definition IsBindingErrorResponse :: "StunMessageInfo \<Rightarrow> bool" where
  "IsBindingErrorResponse m \<longleftrightarrow> msg_method m = method_code Binding \<and> msg_klass m = class_code ErrorResponse"

definition IsAttrInBounds :: "StunMessageInfo \<Rightarrow> AttrView \<Rightarrow> bool" where
  "IsAttrInBounds m a \<longleftrightarrow> msg_raw m \<noteq> None \<and> value_offset a \<le> raw_len m \<and> value_offset a + av_len a \<le> raw_len m"

definition FindLastAttr :: "StunMessageInfo \<Rightarrow> u16 \<Rightarrow> AttrView option" where
  "FindLastAttr m t = find (\<lambda>a. av_type a = t) (rev (attrs m))"

section \<open>The parser\<close>

definition ReadBE16 :: "bytes \<Rightarrow> nat \<Rightarrow> (u16 \<Rightarrow> 'a outcome) \<Rightarrow> 'a outcome" where
  "ReadBE16 p i k = rd8 p i (\<lambda>a. rd8 p (i + 1) (\<lambda>b. k (push_bit 8 (ucast a) OR ucast b)))"

definition ReadBE32 :: "bytes \<Rightarrow> nat \<Rightarrow> (u32 \<Rightarrow> 'a outcome) \<Rightarrow> 'a outcome" where
  "ReadBE32 p i k =
     rd8 p i (\<lambda>a. rd8 p (i + 1) (\<lambda>b. rd8 p (i + 2) (\<lambda>c. rd8 p (i + 3) (\<lambda>d.
       k (push_bit 24 (ucast a) OR push_bit 16 (ucast b) OR push_bit 8 (ucast c) OR ucast d)))))"

definition ReadBE64 :: "bytes \<Rightarrow> nat \<Rightarrow> (u64 \<Rightarrow> 'a outcome) \<Rightarrow> 'a outcome" where
  "ReadBE64 p i k =
     rd8 p i (\<lambda>a. rd8 p (i + 1) (\<lambda>b. rd8 p (i + 2) (\<lambda>c. rd8 p (i + 3) (\<lambda>d.
     rd8 p (i + 4) (\<lambda>e. rd8 p (i + 5) (\<lambda>f. rd8 p (i + 6) (\<lambda>g. rd8 p (i + 7) (\<lambda>h.
       k (push_bit 56 (ucast a) OR push_bit 48 (ucast b) OR push_bit 40 (ucast c) OR push_bit 32 (ucast d) OR
          push_bit 24 (ucast e) OR push_bit 16 (ucast f) OR push_bit 8 (ucast g) OR ucast h)))))))))"

definition Pad4 :: "nat \<Rightarrow> nat" where
  "Pad4 x = (x + 3) div 4 * 4"

definition IsStun :: "bytes \<Rightarrow> bool outcome" where
  "IsStun p =
     (if length p < 20 then Ok False
      else rd8 p 0 (\<lambda>b0.
        if b0 AND 0xC0 \<noteq> 0 then Ok False
        else ReadBE32 p 4 (\<lambda>cookie.
          if cookie \<noteq> kMagicCookie then Ok False
          else ReadBE16 p 2 (\<lambda>len.
            if len AND 0x3 \<noteq> 0 then Ok False
            else if 20 + unat len > length p then Ok False
            else Ok True))))"

function attr_loop :: "bytes \<Rightarrow> nat \<Rightarrow> nat \<Rightarrow> AttrView list \<Rightarrow> (bool \<times> AttrView list) outcome" where
  "attr_loop p fin off acc =
     (if off < fin
      then if off + 4 > fin then Ok (False, acc)
           else ReadBE16 p off (\<lambda>t. ReadBE16 p (off + 2) (\<lambda>len.
             let padded = Pad4 (unat len) in
             if off + 4 + padded > fin then Ok (False, acc)
             else attr_loop p fin (off + 4 + padded)
                    (acc @ [\<lparr>av_type = t, av_len = unat len, value_offset = off + 4\<rparr>])))
      else Ok (off = fin, acc))"
  by pat_completeness auto

termination
  by (relation "measure (\<lambda>(_, fin, off, _). fin - off)") auto

declare attr_loop.simps [simp del]

definition Stun_Parse :: "bytes \<Rightarrow> (bool \<times> StunMessageInfo) outcome" where
  "Stun_Parse p =
     bind_outcome (IsStun p) (\<lambda>is_stun.
       if \<not> is_stun then Ok (False, StunMessageInfo_init)
       else ReadBE16 p 0 (\<lambda>ty. ReadBE16 p 2 (\<lambda>len. ReadBE32 p 4 (\<lambda>cookie. rd_slice p 8 12 (\<lambda>id.
         let (m, c) = DecodeType ty in
         bind_outcome (attr_loop p (20 + unat len) 20 []) (\<lambda>(ok, as).
           Ok (ok, \<lparr>type_raw = ty, msg_length = unat len, magic_cookie = cookie, txid = id, msg_method = m, msg_klass = c,
                    attrs = as, msg_raw = Some p, raw_len = 20 + unat len\<rparr>)))))))"

section \<open>Attribute decoders\<close>

definition DecodeUsername :: "StunMessageInfo \<Rightarrow> bytes outcome" where
  "DecodeUsername m =
     (case FindAttr m (attr_code USERNAME) of
        None \<Rightarrow> Reject
      | Some a \<Rightarrow> if \<not> IsAttrInBounds m a then Reject
                  else bind_outcome (AttrValue m a) (\<lambda>v. if v = [] then Reject else Ok v))"

definition DecodePriority :: "StunMessageInfo \<Rightarrow> u32 outcome" where
  "DecodePriority m =
     (case FindAttr m (attr_code PRIORITY) of
        None \<Rightarrow> Reject
      | Some a \<Rightarrow> if \<not> IsAttrInBounds m a \<or> av_len a \<noteq> 4 then Reject
                  else ReadBE32 (raw_bytes m) (value_offset a) Ok)"

definition DecodeIceControlling :: "StunMessageInfo \<Rightarrow> u64 outcome" where
  "DecodeIceControlling m =
     (case FindAttr m (attr_code ICE_CONTROLLING) of
        None \<Rightarrow> Reject
      | Some a \<Rightarrow> if \<not> IsAttrInBounds m a \<or> av_len a \<noteq> 8 then Reject
                  else ReadBE64 (raw_bytes m) (value_offset a) Ok)"

definition DecodeIceControlled :: "StunMessageInfo \<Rightarrow> u64 outcome" where
  "DecodeIceControlled m =
     (case FindAttr m (attr_code ICE_CONTROLLED) of
        None \<Rightarrow> Reject
      | Some a \<Rightarrow> if \<not> IsAttrInBounds m a \<or> av_len a \<noteq> 8 then Reject
                  else ReadBE64 (raw_bytes m) (value_offset a) Ok)"

definition cookie_bytes :: bytes where
  "cookie_bytes = [0x21, 0x12, 0xA4, 0x42]"

definition port_mask :: u16 where
  "port_mask = ucast (drop_bit 16 kMagicCookie)"

definition DecodeXorAddress :: "StunMessageInfo \<Rightarrow> AttrType \<Rightarrow> XorMappedAddress outcome" where
  "DecodeXorAddress m ty =
     (if ty \<noteq> XOR_MAPPED_ADDRESS \<and> ty \<noteq> XOR_PEER_ADDRESS \<and> ty \<noteq> XOR_RELAYED_ADDRESS then Reject
      else case FindAttr m (attr_code ty) of
        None \<Rightarrow> Reject
      | Some a \<Rightarrow>
          if \<not> IsAttrInBounds m a then Reject
          else if av_len a < 4 then Reject
          else rd8 (raw_bytes m) (value_offset a + 1) (\<lambda>family. ReadBE16 (raw_bytes m) (value_offset a + 2) (\<lambda>xport.
            let port = xport XOR port_mask in
            if family = 0x01
            then if av_len a \<noteq> 8 then Reject
                 else rd_slice (raw_bytes m) (value_offset a + 4) 4 (\<lambda>v.
                   Ok \<lparr>xa_is_ipv6 = False, xa_port = port, xa_ip = map2 (XOR) v cookie_bytes @ replicate 12 0\<rparr>)
            else if family = 0x02
            then if av_len a \<noteq> 20 then Reject
                 else rd_slice (raw_bytes m) (value_offset a + 4) 16 (\<lambda>v.
                   Ok \<lparr>xa_is_ipv6 = True, xa_port = port, xa_ip = map2 (XOR) v (cookie_bytes @ txid m)\<rparr>)
            else Reject)))"

definition DecodeXorMappedAddress :: "StunMessageInfo \<Rightarrow> XorMappedAddress outcome" where
  "DecodeXorMappedAddress m = DecodeXorAddress m XOR_MAPPED_ADDRESS"

definition HasUseCandidate :: "StunMessageInfo \<Rightarrow> bool" where
  "HasUseCandidate m \<longleftrightarrow> FindAttr m (attr_code USE_CANDIDATE) \<noteq> None"

record StunErrorCode =
  err_code :: u16
  err_reason :: bytes
  unknown_attributes :: "u16 list"

definition DecodeErrorCode :: "StunMessageInfo \<Rightarrow> StunErrorCode outcome" where
  "DecodeErrorCode m =
     (case FindAttr m (attr_code ERROR_CODE) of
        None \<Rightarrow> Reject
      | Some a \<Rightarrow>
          if \<not> IsAttrInBounds m a \<or> av_len a < 4 then Reject
          else rd8 (raw_bytes m) (value_offset a + 2) (\<lambda>v2. rd8 (raw_bytes m) (value_offset a + 3) (\<lambda>v3.
            let code = ucast (v2 AND 0x07) * 100 + ucast v3 in
            if av_len a > 4
            then rd_slice (raw_bytes m) (value_offset a + 4) (av_len a - 4) (\<lambda>r.
                   Ok \<lparr>err_code = code, err_reason = r, unknown_attributes = []\<rparr>)
            else Ok \<lparr>err_code = code, err_reason = [], unknown_attributes = []\<rparr>)))"

section \<open>Fingerprint and integrity\<close>

definition crc_bit :: "u32 \<Rightarrow> u32" where
  "crc_bit crc = (let mask = - (crc AND 1) in drop_bit 1 crc XOR (0xEDB88320 AND mask))"

definition crc_byte :: "u32 \<Rightarrow> u8 \<Rightarrow> u32" where
  "crc_byte crc b = (crc_bit ^^ 8) (crc XOR ucast b)"

definition Crc32 :: "bytes \<Rightarrow> u32" where
  "Crc32 d = NOT (foldl crc_byte 0xFFFFFFFF d)"

definition ComputeFingerprint :: "bytes \<Rightarrow> u32" where
  "ComputeFingerprint d = Crc32 d XOR 0x5354554e"

definition VerifyFingerprint :: "StunMessageInfo \<Rightarrow> bool outcome" where
  "VerifyFingerprint m =
     (case FindLastAttr m (attr_code FINGERPRINT) of
        None \<Rightarrow> Ok False
      | Some a \<Rightarrow>
          if \<not> IsAttrInBounds m a \<or> av_len a \<noteq> 4 then Ok False
          else
            let attr_start = value_offset a - 4 in
            if attr_start + 4 + 4 \<noteq> raw_len m then Ok False
            else ReadBE32 (raw_bytes m) (value_offset a) (\<lambda>actual.
              rd_slice (raw_bytes m) 0 attr_start (\<lambda>d. Ok (actual = ComputeFingerprint d))))"

type_synonym hmac_fn = "bytes \<Rightarrow> bytes \<Rightarrow> bytes option"

definition ComputeMessageIntegrity :: "hmac_fn \<Rightarrow> bytes \<Rightarrow> bytes \<Rightarrow> bytes option" where
  "ComputeMessageIntegrity hmac d key =
     (case hmac key d of None \<Rightarrow> None | Some digest \<Rightarrow> if length digest = 20 then Some digest else None)"

definition VerifyMessageIntegrity :: "hmac_fn \<Rightarrow> StunMessageInfo \<Rightarrow> bytes \<Rightarrow> bool outcome" where
  "VerifyMessageIntegrity hmac m key =
     (case FindAttr m (attr_code MESSAGE_INTEGRITY) of
        None \<Rightarrow> Ok False
      | Some a \<Rightarrow>
          if \<not> IsAttrInBounds m a \<or> av_len a \<noteq> 20 then Ok False
          else
            let mi_attr_start = value_offset a - 4 in
            if mi_attr_start + 4 + 20 > raw_len m then Ok False
            else rd_slice (raw_bytes m) 0 mi_attr_start (\<lambda>tmp.
              bind_outcome (store tmp 2 (enc16 (of_nat (mi_attr_start + 24 - 20)))) (\<lambda>tmp.
                case ComputeMessageIntegrity hmac tmp key of
                  None \<Rightarrow> Ok False
                | Some digest \<Rightarrow> rd_slice (raw_bytes m) (value_offset a) 20 (\<lambda>v. Ok (digest = v)))))"

declare add_2_eq_Suc [simp del] add_2_eq_Suc' [simp del]

section \<open>Message types\<close>

lemma EncodeType_DecodeType:
  assumes "m \<le> 0x0FFF" "c \<le> 3"
  shows "DecodeType (EncodeType m c) = (m, c)"
proof -
  have "unat m < 2 ^ 12" "unat c < 2 ^ 2"
    using assms by (simp_all add: word_le_nat_alt)
  then have bits: "12 \<le> n \<Longrightarrow> \<not> bit m n" "2 \<le> n \<Longrightarrow> \<not> bit c n" for n
    using not_bit_small [of m 12 n] not_bit_small [of c 2 n] by simp_all
  have "fst (DecodeType (EncodeType m c)) = m"
    by (rule u16_eqI; simp add: DecodeType_def EncodeType_def Let_def bit_simps bits del: push_bit_Suc)
  moreover have "snd (DecodeType (EncodeType m c)) = c"
    by (rule u8_eqI; simp add: DecodeType_def EncodeType_def Let_def bit_simps bits del: push_bit_Suc)
  ultimately show ?thesis
    by (metis prod.collapse)
qed

lemma EncodeType_high: "drop_bit 14 (EncodeType m c) = 0"
  by (rule u16_eqI; simp add: EncodeType_def Let_def bit_simps)

section \<open>Checked reads of the decoders\<close>

lemma ReadBE_eq [rd_simps]:
  "ReadBE16 p i k = ReadUint16BE p i k" "ReadBE32 p i k32 = ReadUint32BE p i k32" "ReadBE64 p i k64 = ReadUint64BE p i k64"
  by (simp_all add: ReadBE16_def ReadBE32_def ReadBE64_def ReadUint16BE_def ReadUint32BE_def ReadUint64BE_def be_defs)

text \<open>What the parser guarantees of a message, accepted or not: every attribute lies inside the datagram.\<close>

definition attr_inside :: "nat \<Rightarrow> AttrView \<Rightarrow> bool" where
  "attr_inside fin a \<longleftrightarrow> 24 \<le> value_offset a \<and> value_offset a + av_len a \<le> fin"

definition msg_inside :: "StunMessageInfo \<Rightarrow> bool" where
  "msg_inside m \<longleftrightarrow>
     (msg_raw m = None \<and> attrs m = []) \<or>
     (\<exists>p. msg_raw m = Some p \<and> raw_len m \<le> length p \<and> (\<forall>a \<in> set (attrs m). attr_inside (raw_len m) a))"

lemma Pad4_ge: "x \<le> Pad4 x"
  by (simp add: Pad4_def)

lemma attr_loop_inside:
  assumes "fin \<le> length p" "20 \<le> off" "\<forall>a \<in> set acc. attr_inside fin a"
  shows "\<exists>ok as. attr_loop p fin off acc = Ok (ok, as) \<and> (\<forall>a \<in> set as. attr_inside fin a)"
  using assms
proof (induction "fin - off" arbitrary: off acc rule: less_induct)
  case less
  let ?len = "dec16 (drop (off + 2) p)"
  let ?a = "\<lparr>av_type = dec16 (drop off p), av_len = unat ?len, value_offset = off + 4\<rparr>"
  show ?case
  proof (cases "off < fin \<and> off + 4 \<le> fin \<and> off + 4 + Pad4 (unat ?len) \<le> fin")
    case True
    then have "attr_inside fin ?a"
      using Pad4_ge [of "unat ?len"] less.prems(2) by (simp add: attr_inside_def)
    moreover have "attr_loop p fin off acc = attr_loop p fin (off + 4 + Pad4 (unat ?len)) (acc @ [?a])"
      using True less.prems(1) by (subst attr_loop.simps) (simp add: rd_simps Let_def)
    ultimately show ?thesis
      using less.hyps [of "off + 4 + Pad4 (unat ?len)" "acc @ [?a]"] True less.prems by auto
  next
    case False
    then show ?thesis
      using less.prems by (subst attr_loop.simps) (auto simp: rd_simps Let_def)
  qed
qed

lemma IsStun_eq:
  "IsStun p = Ok (20 \<le> length p \<and> p ! 0 AND 0xC0 = 0 \<and> dec32 (drop 4 p) = kMagicCookie \<and>
     dec16 (drop 2 p) AND 0x3 = 0 \<and> 20 + unat (dec16 (drop 2 p)) \<le> length p)"
  by (cases "length p < 20") (auto simp: IsStun_def rd8_def ReadBE_eq ReadUint16BE_eq ReadUint32BE_eq)

lemma Stun_Parse_inside: "\<exists>ok m. Stun_Parse p = Ok (ok, m) \<and> msg_inside m"
proof -
  have i: "IsStun p = Ok False \<or> (IsStun p = Ok True \<and> 20 + unat (dec16 (drop 2 p)) \<le> length p)"
    by (auto simp: IsStun_eq)
  obtain ok as where "20 + unat (dec16 (drop 2 p)) \<le> length p \<Longrightarrow>
      attr_loop p (20 + unat (dec16 (drop 2 p))) 20 [] = Ok (ok, as) \<and>
      (\<forall>a \<in> set as. attr_inside (20 + unat (dec16 (drop 2 p))) a)"
    using attr_loop_inside [of "20 + unat (dec16 (drop 2 p))" p 20 "[]"] by auto
  then show ?thesis
    using i by (auto simp: Stun_Parse_def rd_simps msg_inside_def StunMessageInfo_init_def split_def Let_def)
qed

lemma find_attr_mem: "find_attr t as = Some a \<Longrightarrow> a \<in> set as \<and> av_type a = t"
  by (induction as) (auto split: if_splits)

lemma FindAttr_inside:
  assumes "msg_inside m" "FindAttr m t = Some a"
  shows "\<exists>p. msg_raw m = Some p \<and> raw_bytes m = p \<and> raw_len m \<le> length p \<and> attr_inside (raw_len m) a"
  using assms find_attr_mem [of t "attrs m" a] by (auto simp: FindAttr_def msg_inside_def raw_bytes_def)

lemma FindLastAttr_mem: "FindLastAttr m t = Some a \<Longrightarrow> a \<in> set (attrs m) \<and> av_type a = t"
  by (auto simp: FindLastAttr_def find_Some_iff) (metis nth_mem length_rev set_rev)

lemma FindAttr_fits:
  assumes "msg_inside m" "FindAttr m t = Some a"
  shows "24 \<le> value_offset a" "value_offset a + av_len a \<le> length (raw_bytes m)"
  using FindAttr_inside [OF assms] by (auto simp: attr_inside_def)

lemma attr_case_safe:
  assumes "msg_inside m" "r \<noteq> Fault"
    and "\<And>a. 24 \<le> value_offset a \<Longrightarrow> value_offset a + av_len a \<le> length (raw_bytes m) \<Longrightarrow> k a \<noteq> Fault"
  shows "(case FindAttr m t of None \<Rightarrow> r | Some a \<Rightarrow> k a) \<noteq> Fault"
  using assms(2,3) FindAttr_fits [OF assms(1)] by (cases "FindAttr m t") simp_all

lemma decoders_safe:
  assumes "msg_inside m"
  shows "DecodeUsername m \<noteq> Fault" "DecodePriority m \<noteq> Fault" "DecodeIceControlling m \<noteq> Fault"
    "DecodeIceControlled m \<noteq> Fault" "DecodeErrorCode m \<noteq> Fault"
  unfolding DecodeUsername_def DecodePriority_def DecodeIceControlling_def DecodeIceControlled_def DecodeErrorCode_def
  by (rule attr_case_safe [OF assms]; simp add: rd_simps AttrValue_def Let_def)+

lemma DecodeXorAddress_safe:
  assumes "msg_inside m"
  shows "DecodeXorAddress m ty \<noteq> Fault"
  unfolding DecodeXorAddress_def
  apply (split if_split)
  apply (intro conjI impI)
   apply simp
  apply (rule attr_case_safe [OF assms])
   apply simp
  apply (simp add: rd_simps Let_def)
  done

lemma VerifyMessageIntegrity_safe:
  assumes "msg_inside m"
  shows "VerifyMessageIntegrity hmac m key \<noteq> Fault"
  unfolding VerifyMessageIntegrity_def
  by (rule attr_case_safe [OF assms]) (auto simp: store_def Let_def split: option.split)

lemma VerifyFingerprint_safe: "msg_inside m \<Longrightarrow> VerifyFingerprint m \<noteq> Fault"
  using FindLastAttr_mem [of m "attr_code FINGERPRINT"]
  by (auto simp: VerifyFingerprint_def msg_inside_def attr_inside_def raw_bytes_def rd_simps Let_def split: option.split)

text \<open>
  C32: no datagram makes the STUN parser, an attribute decoder or an integrity check read outside it.  The parser
  always returns, and whatever it returns, each decoder applied to the result returns too, whatever the key and
  the HMAC function.
\<close>
theorem Stun_memory_safe:
  "case Stun_Parse p of
     Ok (ok, m) \<Rightarrow>
       DecodeUsername m \<noteq> Fault \<and> DecodePriority m \<noteq> Fault \<and> DecodeIceControlling m \<noteq> Fault \<and>
       DecodeIceControlled m \<noteq> Fault \<and> DecodeXorAddress m ty \<noteq> Fault \<and> DecodeErrorCode m \<noteq> Fault \<and>
       VerifyFingerprint m \<noteq> Fault \<and> VerifyMessageIntegrity hmac m key \<noteq> Fault
   | _ \<Rightarrow> False"
  using Stun_Parse_inside [of p] decoders_safe DecodeXorAddress_safe VerifyMessageIntegrity_safe VerifyFingerprint_safe by auto

section \<open>What the integrity check covers\<close>

text \<open>An attribute view agrees with its header in the datagram; attributes do not overlap.\<close>

definition attr_at :: "bytes \<Rightarrow> AttrView \<Rightarrow> bool" where
  "attr_at p a \<longleftrightarrow> av_type a = dec16 (drop (value_offset a - 4) p) \<and> av_len a = unat (dec16 (drop (value_offset a - 2) p))"

definition before :: "AttrView \<Rightarrow> AttrView \<Rightarrow> bool" where
  "before a b \<longleftrightarrow> value_offset a + av_len a + 4 \<le> value_offset b"

lemma attr_loop_layout:
  assumes "fin \<le> length p" "20 \<le> off" "sorted_wrt before acc"
    and "\<forall>a \<in> set acc. attr_at p a \<and> value_offset a + av_len a \<le> off" "attr_loop p fin off acc = Ok (ok, as)"
  shows "sorted_wrt before as \<and> (\<forall>a \<in> set as. attr_at p a)"
  using assms
proof (induction "fin - off" arbitrary: off acc rule: less_induct)
  case less
  let ?len = "dec16 (drop (off + 2) p)"
  let ?a = "\<lparr>av_type = dec16 (drop off p), av_len = unat ?len, value_offset = off + 4\<rparr>"
  show ?case
  proof (cases "off < fin \<and> off + 4 \<le> fin \<and> off + 4 + Pad4 (unat ?len) \<le> fin")
    case True
    have "attr_loop p fin off acc = attr_loop p fin (off + 4 + Pad4 (unat ?len)) (acc @ [?a])"
      using True less.prems(1) by (subst attr_loop.simps) (simp add: rd_simps Let_def)
    moreover have "attr_at p ?a" "\<forall>b \<in> set acc. before b ?a" "unat ?len \<le> Pad4 (unat ?len)"
      using less.prems(4) Pad4_ge by (auto simp: attr_at_def before_def add.commute)
    moreover from this have "\<forall>a \<in> set (acc @ [?a]). attr_at p a \<and> value_offset a + av_len a \<le> off + 4 + Pad4 (unat ?len)"
      using less.prems(4) by fastforce
    moreover have "fin - (off + 4 + Pad4 (unat ?len)) < fin - off" "20 \<le> off + 4 + Pad4 (unat ?len)"
      using True less.prems(2) by linarith+
    moreover have "sorted_wrt before (acc @ [?a])"
      using calculation(3) less.prems(3) by (simp add: sorted_wrt_append)
    ultimately show ?thesis
      using less.hyps less.prems(1,5) by metis
  next
    case False
    then have "as = acc"
      using less.prems(1,5) by (subst (asm) attr_loop.simps) (auto simp: rd_simps Let_def split: if_splits)
    then show ?thesis
      using less.prems by blast
  qed
qed

lemma Stun_ParseE:
  assumes "Stun_Parse p = Ok (ok, m)" "msg_raw m = Some q"
  shows "q = p" "raw_bytes m = p" "raw_len m = 20 + unat (dec16 (drop 2 p))" "raw_len m \<le> length p"
    "sorted_wrt before (attrs m)" "\<forall>a \<in> set (attrs m). attr_at p a \<and> attr_inside (raw_len m) a" "txid m = slice p 8 12"
    "20 \<le> length p" "DecodeType (dec16 p) = (msg_method m, msg_klass m)"
proof -
  let ?L = "20 + unat (dec16 (drop 2 p))"
  have i: "IsStun p = Ok True"
    using assms IsStun_eq [of p] by (cases "IsStun p = Ok True") (auto simp: Stun_Parse_def StunMessageInfo_init_def)
  then have l: "20 \<le> length p" "?L \<le> length p"
    by (auto simp: IsStun_eq)
  obtain ok' as where a: "attr_loop p ?L 20 [] = Ok (ok', as)" "\<forall>a \<in> set as. attr_inside ?L a"
    using attr_loop_inside [of ?L p 20 "[]"] l by auto
  then have s: "sorted_wrt before as \<and> (\<forall>a \<in> set as. attr_at p a)"
    using attr_loop_layout [of ?L p 20 "[]" ok' as] l by simp
  have m: "m = \<lparr>type_raw = dec16 p, msg_length = unat (dec16 (drop 2 p)), magic_cookie = dec32 (drop 4 p),
      txid = slice p 8 12, msg_method = fst (DecodeType (dec16 p)), msg_klass = snd (DecodeType (dec16 p)),
      attrs = as, msg_raw = Some p, raw_len = ?L\<rparr>"
    using assms(1) i a(1) l by (simp add: Stun_Parse_def rd_simps split_def Let_def)
  show "q = p" "raw_bytes m = p" "raw_len m = ?L" "raw_len m \<le> length p" "sorted_wrt before (attrs m)"
    "\<forall>a \<in> set (attrs m). attr_at p a \<and> attr_inside (raw_len m) a" "txid m = slice p 8 12" "20 \<le> length p"
    "DecodeType (dec16 p) = (msg_method m, msg_klass m)"
    using assms(2) m a(2) s l by (auto simp: raw_bytes_def)
qed

lemma patched_prefix:
  assumes "4 \<le> n" "n \<le> length p" "length x = 2"
  defines "d \<equiv> take 2 p @ x @ drop 4 (take n p)"
  shows "length d = n" "store (take n p) 2 x = Ok d" "dec16 d = dec16 p"
    and "4 \<le> off \<Longrightarrow> off + k \<le> n \<Longrightarrow> slice d off k = slice p off k"
proof -
  have p: "length (take 2 p) = 2" "min (length p) n = n" "min (length p) 2 = 2"
    using assms(1,2) by auto
  show "length d = n" "store (take n p) 2 x = Ok d"
    using assms(1-3) p by (simp_all add: d_def store_def min_def)
  have "dec16 (take 2 p @ ys) = dec16 p" for ys
    using assms(1,2) by (cases p rule: dec16.cases) (auto simp: numeral_2_eq_2)
  then show "dec16 d = dec16 p"
    by (simp add: d_def)
  assume o: "4 \<le> off" "off + k \<le> n"
  have "drop off d = drop off (take n p)"
    using o(1) p(1) assms(3) by (simp add: d_def)
  then show "slice d off k = slice p off k"
    using o(2) by (simp add: slice_def drop_take min_def)
qed

lemma find_attr_before_integrity:
  assumes "sorted_wrt before as" "find_attr (attr_code MESSAGE_INTEGRITY) as = Some mi" "find_attr t as = Some a"
    and "t \<noteq> attr_code MESSAGE_INTEGRITY" "t \<noteq> attr_code FINGERPRINT"
  shows "before a mi"
  using assms
proof (induction as)
  case (Cons x as)
  then show ?case
    using find_attr_mem [of "attr_code MESSAGE_INTEGRITY" as mi] by (auto split: if_splits)
qed simp

lemma integrity_covers:
  assumes "Stun_Parse p = Ok (True, m)" "VerifyMessageIntegrity hmac m key = Ok True"
  obtains d where "hmac key d = Some (slice p (length d + 4) 20)" "length d + 24 \<le> length p"
    "dec16 d = type_raw m" "slice d 8 12 = txid m"
    "\<And>t a. FindAttr m t = Some a \<Longrightarrow> t \<noteq> attr_code MESSAGE_INTEGRITY \<Longrightarrow> t \<noteq> attr_code FINGERPRINT \<Longrightarrow>
       value_offset a + av_len a \<le> length d \<and> slice d (value_offset a) (av_len a) = slice p (value_offset a) (av_len a)"
proof -
  obtain mi where mi: "FindAttr m (attr_code MESSAGE_INTEGRITY) = Some mi"
    using assms(2) by (auto simp: VerifyMessageIntegrity_def split: option.splits)
  have "msg_inside m"
    using Stun_Parse_inside [of p] assms(1) by auto
  then obtain q where q: "msg_raw m = Some q" "24 \<le> value_offset mi"
    using FindAttr_inside [OF _ mi] by (auto simp: attr_inside_def)
  note parse = Stun_ParseE [OF assms(1) q(1)]
  obtain n where n: "value_offset mi = n + 4" "20 \<le> n"
    using q(2) that [of "value_offset mi - 4"] by simp
  let ?d = "take 2 p @ enc16 (of_nat (n + 4)) @ drop 4 (take n p)"
  have bounds: "n + 24 \<le> length p"
    using assms(2) mi n q parse(4) by (auto simp: VerifyMessageIntegrity_def IsAttrInBounds_def split: if_splits)
  have "4 \<le> n" "n \<le> length p"
    using n(2) bounds by linarith+
  note d = patched_prefix [OF this, of "enc16 (of_nat (n + 4))", simplified]
  show thesis
  proof (rule that [of ?d])
    show "hmac key ?d = Some (slice p (length ?d + 4) 20)"
      using assms(2) mi n q parse(2) bounds d(1,2)
      by (auto simp: VerifyMessageIntegrity_def ComputeMessageIntegrity_def slice_def Let_def add.commute split: if_splits option.splits)
    show "length ?d + 24 \<le> length p"
      using bounds d(1) by simp
    have "type_raw m = dec16 p"
      using assms(1) q(1) parse(8)
      by (auto simp: Stun_Parse_def bind_outcome_Ok_iff rd_simps split_def Let_def StunMessageInfo_init_def split: if_splits)
    then show "dec16 ?d = type_raw m"
      using d(3) by simp
    show "slice ?d 8 12 = txid m"
      using d(4) [of 8 12] n(2) parse(7) by simp
    fix t a
    assume a: "FindAttr m t = Some a" "t \<noteq> attr_code MESSAGE_INTEGRITY" "t \<noteq> attr_code FINGERPRINT"
    have "before a mi"
      using find_attr_before_integrity [OF parse(5)] mi a by (simp add: FindAttr_def)
    moreover have "24 \<le> value_offset a"
      using FindAttr_fits(1) [OF \<open>msg_inside m\<close> a(1)] .
    ultimately show "value_offset a + av_len a \<le> length ?d \<and>
        slice ?d (value_offset a) (av_len a) = slice p (value_offset a) (av_len a)"
      using n(1) d(1) d(4) [of "value_offset a" "av_len a"] by (simp add: before_def)
  qed
qed

text \<open>
  C31: what a verified message is trusted for was authenticated.  When the integrity check of a parsed message
  succeeds, every attribute the decoders can find, other than the fingerprint, lies in the data whose HMAC under
  the key is the message's integrity value; so do the message type and the transaction identifier.  Attributes
  appended behind the integrity value are never found.
\<close>
theorem Stun_found_attributes_authenticated:
  assumes "Stun_Parse p = Ok (True, m)" "VerifyMessageIntegrity hmac m key = Ok True" "FindAttr m t = Some a"
    and "t \<noteq> attr_code MESSAGE_INTEGRITY" "t \<noteq> attr_code FINGERPRINT"
  shows "\<exists>d mac. hmac key d = Some mac \<and> length d + 24 \<le> length p \<and> mac = slice p (length d + 4) 20 \<and>
    value_offset a + av_len a \<le> length d \<and> slice d (value_offset a) (av_len a) = slice p (value_offset a) (av_len a) \<and>
    dec16 d = type_raw m \<and> slice d 8 12 = txid m"
  by (rule integrity_covers [OF assms(1,2)]) (use assms(3-5) in blast)

text \<open>A function in the place of HMAC, for the examples.\<close>

definition toy_hmac :: hmac_fn where
  "toy_hmac key d = Some (take 20 (key @ d @ replicate 20 0))"

theorem Stun_found_attributes_authenticated_witness:
  "\<exists>m a d mac. Stun_Parse [0, 1, 0, 32, 33, 18, 164, 66, 1, 2, 3, 4, 5, 6, 7, 8, 9, 10, 11, 12, 0, 6, 0, 1, 97, 0, 0, 0, 0, 8, 0, 20, 7, 0, 1, 0, 32, 33, 18, 164, 66, 1, 2, 3, 4, 5, 6, 7, 8, 9, 10, 11] = Ok (True, m) \<and>
     FindAttr m (attr_code USERNAME) = Some a \<and> toy_hmac [7] d = Some mac \<and> slice d (value_offset a) (av_len a) = [0x61]"
proof -
  let ?p = "[0, 1, 0, 32, 33, 18, 164, 66, 1, 2, 3, 4, 5, 6, 7, 8, 9, 10, 11, 12, 0, 6, 0, 1, 97, 0, 0, 0, 0, 8, 0, 20, 7, 0, 1, 0, 32, 33, 18, 164, 66, 1, 2, 3, 4, 5, 6, 7, 8, 9, 10, 11] :: bytes"
  have "case Stun_Parse ?p of Ok (ok, m) \<Rightarrow> ok \<and> VerifyMessageIntegrity toy_hmac m [7] = Ok True \<and>
      FindAttr m (attr_code USERNAME) = Some \<lparr>av_type = 6, av_len = 1, value_offset = 24\<rparr> | _ \<Rightarrow> False"
    by code_simp
  then obtain m where m: "Stun_Parse ?p = Ok (True, m)" "VerifyMessageIntegrity toy_hmac m [7] = Ok True"
      "FindAttr m (attr_code USERNAME) = Some \<lparr>av_type = 6, av_len = 1, value_offset = 24\<rparr>"
    by (auto split: outcome.splits)
  have "slice ?p 24 1 = [0x61]"
    by code_simp
  then show ?thesis
    using Stun_found_attributes_authenticated [OF m] m(1,3) by fastforce
qed

section \<open>The fingerprint\<close>

lemma crc_bit_bit:
  assumes "n < 32"
  shows "bit (crc_bit x) n \<longleftrightarrow> bit x (Suc n) \<noteq> (bit (0xEDB88320 :: u32) n \<and> bit x 0)"
proof -
  have "- (x AND 1) = (if bit x 0 then - 1 else 0)"
    by (simp add: and_one_eq bit_0 odd_iff_mod_2_eq_one)
  then show ?thesis
    using assms by (simp add: crc_bit_def bit_simps)
qed

lemma crc_bit_inject: "crc_bit x = crc_bit y \<Longrightarrow> x = y"
proof -
  assume e: "crc_bit x = crc_bit y"
  have "bit (0xEDB88320 :: u32) 31"
    by simp
  then have "bit (crc_bit w) 31 \<longleftrightarrow> bit w 0" for w
    using crc_bit_bit [of 31 w] bit_imp_le_length [of w 32] by auto
  then have z: "bit x 0 = bit y 0"
    using e by metis
  show "x = y"
  proof (rule bit_word_eqI)
    fix n assume "n < LENGTH(32)"
    then show "bit x n = bit y n"
      using z crc_bit_bit [of "n - 1" x] crc_bit_bit [of "n - 1" y] e by (cases n) auto
  qed
qed

lemma crc_bits_inject: "(crc_bit ^^ k) x = (crc_bit ^^ k) y \<Longrightarrow> x = y"
  by (induction k) (auto dest: crc_bit_inject)

lemma xor_cancel: "x XOR b = y XOR b \<Longrightarrow> x = y" for x y b :: "'a::len word"
  by (metis xor.assoc xor.right_neutral xor_self_eq)

lemma crc_byte_inject: "crc_byte x b = crc_byte y b \<Longrightarrow> x = y" "crc_byte x b = crc_byte x c \<Longrightarrow> b = c"
proof -
  show "crc_byte x b = crc_byte y b \<Longrightarrow> x = y"
    unfolding crc_byte_def by (drule crc_bits_inject) (rule xor_cancel)
  assume "crc_byte x b = crc_byte x c"
  then have "x XOR ucast b = x XOR ucast c"
    unfolding crc_byte_def by (rule crc_bits_inject)
  then have "(ucast b :: u32) = ucast c"
    by (metis xor.commute xor_cancel)
  then have "(ucast (ucast b :: u32) :: u8) = ucast (ucast c :: u32)"
    by (rule arg_cong)
  moreover have "(ucast (ucast w :: u32) :: u8) = w" for w
    by (rule bit_word_eqI) (auto simp: bit_simps)
  ultimately show "b = c"
    by simp
qed

lemma crc_fold_inject: "foldl crc_byte x v = foldl crc_byte y v \<Longrightarrow> x = y"
  by (induction v arbitrary: x y) (auto dest: crc_byte_inject)

lemma Crc32_one_byte: "Crc32 (u @ b # v) = Crc32 (u @ c # v) \<Longrightarrow> b = c"
  by (auto simp: Crc32_def dest!: crc_fold_inject crc_byte_inject)

lemma VerifyFingerprint_iff:
  assumes "Stun_Parse p = Ok (ok, m)" "VerifyFingerprint m = Ok True"
  shows "\<exists>n. raw_len m = n + 8 \<and> n + 8 \<le> length p \<and> dec16 (drop n p) = attr_code FINGERPRINT \<and> dec16 (drop (n + 2) p) = 4 \<and>
    dec32 (drop (n + 4) p) = ComputeFingerprint (take n p)"
proof -
  obtain a where a: "FindLastAttr m (attr_code FINGERPRINT) = Some a"
    using assms(2) by (auto simp: VerifyFingerprint_def split: option.splits)
  note mem = FindLastAttr_mem [OF a]
  obtain q where q: "msg_raw m = Some q"
    using assms(2) a by (auto simp: VerifyFingerprint_def IsAttrInBounds_def split: if_splits)
  note parse = Stun_ParseE [OF assms(1) q]
  have at: "attr_at p a" "attr_inside (raw_len m) a" "av_len a = 4" "value_offset a - 4 + 8 = raw_len m"
    using mem parse(6) assms(2) a by (auto simp: VerifyFingerprint_def Let_def split: if_splits)
  then obtain n where v: "value_offset a = n + 4" "raw_len m = n + 8"
    using that [of "raw_len m - 8"] by (auto simp: attr_inside_def)
  moreover have "unat (dec16 (drop (n + 2) p)) = 4"
    using at(1,3) v(1) by (simp add: attr_at_def add.commute)
  then have "dec16 (drop (n + 2) p) = 4"
    by (simp add: word_unat_eq_iff)
  moreover have "dec16 (drop n p) = attr_code FINGERPRINT"
    using at(1) v(1) mem by (simp add: attr_at_def)
  moreover have "dec32 (drop (n + 4) p) = ComputeFingerprint (take n p)"
    using assms(2) a v parse(2,4) at(3,4)
    by (simp add: VerifyFingerprint_def ReadBE_eq ReadUint32BE_eq slice_def Let_def split: if_splits)
  ultimately show ?thesis
    using parse(4) by auto
qed

lemma dec16_bytes:
  assumes "dec16 (drop j p) = dec16 (drop j q)" "j + 2 \<le> length p" "j + 2 \<le> length q"
  shows "p ! j = q ! j" "p ! (j + 1) = q ! (j + 1)"
proof -
  have "be16 (p ! j) (p ! (j + 1)) = be16 (q ! j) (q ! (j + 1))"
    using assms by (simp add: drop2_conv)
  then show "p ! j = q ! j" "p ! (j + 1) = q ! (j + 1)"
    by (metis be16_bytes)+
qed

lemma dec32_bytes:
  assumes "dec32 (drop j p) = dec32 (drop j q)" "j + 4 \<le> length p" "j + 4 \<le> length q"
  shows "p ! j = q ! j" "p ! (j + 1) = q ! (j + 1)" "p ! (j + 2) = q ! (j + 2)" "p ! (j + 3) = q ! (j + 3)"
proof -
  have "be32 (p ! j) (p ! (j + 1)) (p ! (j + 2)) (p ! (j + 3)) = be32 (q ! j) (q ! (j + 1)) (q ! (j + 2)) (q ! (j + 3))"
    using assms by (simp add: drop4_conv)
  then show "p ! j = q ! j" "p ! (j + 1) = q ! (j + 1)" "p ! (j + 2) = q ! (j + 2)" "p ! (j + 3) = q ! (j + 3)"
    by (metis be32_bytes)+
qed

lemma fingerprint_same:
  assumes "Stun_Parse p = Ok (ok, m)" "VerifyFingerprint m = Ok True" "i < raw_len m" "p' = p[i := b]"
    and "Stun_Parse p' = Ok (ok', m')" "VerifyFingerprint m' = Ok True" "raw_len m' = raw_len m"
  shows "p' = p"
proof -
  obtain n where v: "raw_len m = n + 8" "n + 8 \<le> length p" "dec16 (drop n p) = attr_code FINGERPRINT"
      "dec16 (drop (n + 2) p) = 4" "dec32 (drop (n + 4) p) = ComputeFingerprint (take n p)"
    using VerifyFingerprint_iff [OF assms(1,2)] by blast
  have v': "dec16 (drop n p') = attr_code FINGERPRINT" "dec16 (drop (n + 2) p') = 4"
      "dec32 (drop (n + 4) p') = ComputeFingerprint (take n p')"
    using VerifyFingerprint_iff [OF assms(5,6)] assms(7) v(1) by auto
  have l: "length p' = length p" "i < length p"
    using assms(3,4) v(1,2) by simp_all
  have "p' ! i = p ! i"
  proof (cases "i < n")
    case True
    have "drop (n + 4) p' = drop (n + 4) p" "take n p' = (take n p)[i := b]"
      using True assms(4) by (simp_all add: take_update_swap)
    then have "Crc32 (take n p) = Crc32 ((take n p)[i := b])"
      using v(5) v'(3) by (simp add: ComputeFingerprint_def xor_cancel)
    moreover have "take n p = take i (take n p) @ p ! i # drop (Suc i) (take n p)"
      using True l(2) id_take_nth_drop [of i "take n p"] by simp
    moreover have "(take n p)[i := b] = take i (take n p) @ b # drop (Suc i) (take n p)"
      using True l(2) by (intro upd_conv_take_nth_drop) simp
    ultimately have "p ! i = b"
      using Crc32_one_byte [of "take i (take n p)" "p ! i" "drop (Suc i) (take n p)" b] by simp
    then show ?thesis
      using assms(4) l(2) by simp
  next
    case False
    then have "take n p' = take n p"
      using assms(4) by simp
    then have "dec16 (drop n p') = dec16 (drop n p)" "dec16 (drop (n + 2) p') = dec16 (drop (n + 2) p)"
        "dec32 (drop (n + 4) p') = dec32 (drop (n + 4) p)"
      using v v' by simp_all
    note same = dec16_bytes [OF this(1)] dec16_bytes [OF this(2)] dec32_bytes [OF this(3)]
    have "i = n \<or> i = n + 1 \<or> i = n + 2 \<or> i = n + 3 \<or> i = n + 4 \<or> i = n + 5 \<or> i = n + 6 \<or> i = n + 7"
      using False assms(3) v(1) by linarith
    then show ?thesis
      using same v(2) l(1) by (elim disjE) (simp_all add: add.commute)
  qed
  then show ?thesis
    using assms(4) l(2) by simp
qed

text \<open>
  C34: the fingerprint detects every change of one byte.  When a datagram's fingerprint is right and one byte of
  the message is replaced by another, the check of the changed datagram fails, provided the change keeps the
  declared length.
\<close>
theorem Fingerprint_detects_byte_change:
  assumes "Stun_Parse p = Ok (ok, m)" "VerifyFingerprint m = Ok True" "i < raw_len m" "b \<noteq> p ! i"
    and "Stun_Parse (p[i := b]) = Ok (ok', m')" "raw_len m' = raw_len m"
  shows "VerifyFingerprint m' = Ok False"
proof -
  obtain q where "msg_raw m = Some q"
    using assms(2) by (auto simp: VerifyFingerprint_def IsAttrInBounds_def split: option.splits if_splits)
  then have "i < length p"
    using Stun_ParseE(4) [OF assms(1)] assms(3) by auto
  then have "p[i := b] \<noteq> p"
    using assms(4) by (metis nth_list_update_eq)
  then have "VerifyFingerprint m' \<noteq> Ok True"
    using fingerprint_same [OF assms(1-3) refl assms(5)] assms(6) by blast
  moreover have "VerifyFingerprint m' \<noteq> Fault"
    using Stun_Parse_inside [of "p[i := b]"] assms(5) VerifyFingerprint_safe by auto
  moreover have "VerifyFingerprint m' \<noteq> Reject"
    by (auto simp: VerifyFingerprint_def Let_def rd_slice_def ReadBE_eq ReadUint32BE_eq split: option.splits)
  ultimately show ?thesis
    by (cases "VerifyFingerprint m'") auto
qed

lemma fingerprint_only_message:
  assumes "h = [0, 1, 0, 8, 0x21, 0x12, 0xA4, 0x42] @ tid" "length tid = 12"
  shows "\<exists>m. Stun_Parse (h @ [0x80, 0x28, 0, 4] @ enc32 w) = Ok (True, m) \<and> raw_len m = 28 \<and>
    VerifyFingerprint m = Ok (w = ComputeFingerprint h)"
proof -
  let ?p = "h @ [0x80, 0x28, 0, 4] @ enc32 w"
  let ?a = "\<lparr>av_type = 0x8028, av_len = 4, value_offset = 24\<rparr>"
  have words: "be16 0 1 = 1" "be16 0 8 = 8" "be16 0x80 0x28 = 0x8028" "be16 0 4 = 4" "be32 0x21 0x12 0xA4 0x42 = kMagicCookie"
    by code_simp+
  have l: "length ?p = 28" "length h = 20"
    using assms by simp_all
  have d: "dec16 ?p = 1" "dec16 (drop 2 ?p) = 8" "dec32 (drop 4 ?p) = kMagicCookie" "?p ! 0 = 0"
    using assms words by simp_all
  have e: "dec16 (drop 20 ?p) = 0x8028" "dec16 (drop 22 ?p) = 4" "dec32 (drop 24 ?p) = w" "take 20 ?p = h"
    using l(2) words by simp_all
  have "attr_loop ?p 28 20 [] = attr_loop ?p 28 28 [?a]"
    using l e by (subst attr_loop.simps) (simp add: ReadBE_eq ReadUint16BE_eq Pad4_def)
  then have "attr_loop ?p 28 20 [] = Ok (True, [?a])"
    by (simp add: attr_loop.simps)
  moreover have "IsStun ?p = Ok True"
    using l d by (simp add: IsStun_eq)
  ultimately show ?thesis
    using l d e by (simp add: Stun_Parse_def ReadBE_eq ReadUint16BE_eq ReadUint32BE_eq split_def VerifyFingerprint_def
        FindLastAttr_def IsAttrInBounds_def raw_bytes_def slice_def Let_def)
qed

theorem Fingerprint_detects_byte_change_witness:
  "let h = [0, 1, 0, 8, 0x21, 0x12, 0xA4, 0x42, 1, 2, 3, 4, 5, 6, 7, 8, 9, 10, 11, 12];
       p = h @ [0x80, 0x28, 0, 4] @ enc32 (ComputeFingerprint h)
   in \<exists>m m'. Stun_Parse p = Ok (True, m) \<and> VerifyFingerprint m = Ok True \<and> Stun_Parse (p[9 := 77]) = Ok (True, m') \<and>
        VerifyFingerprint m' = Ok False"
proof -
  let ?h = "[0, 1, 0, 8, 0x21, 0x12, 0xA4, 0x42, 1, 2, 3, 4, 5, 6, 7, 8, 9, 10, 11, 12] :: bytes"
  let ?g = "[0, 1, 0, 8, 0x21, 0x12, 0xA4, 0x42, 1, 77, 3, 4, 5, 6, 7, 8, 9, 10, 11, 12] :: bytes"
  let ?p = "?h @ [0x80, 0x28, 0, 4] @ enc32 (ComputeFingerprint ?h)"
  obtain m where m: "Stun_Parse ?p = Ok (True, m)" "VerifyFingerprint m = Ok True" "raw_len m = 28"
    using fingerprint_only_message [of ?h "drop 8 ?h" "ComputeFingerprint ?h"] by auto
  have u: "?p[9 := 77] = ?g @ [0x80, 0x28, 0, 4] @ enc32 (ComputeFingerprint ?h)"
    by (simp add: list_update_append)
  obtain m' where m': "Stun_Parse (?p[9 := 77]) = Ok (True, m')" "raw_len m' = 28"
    unfolding u using fingerprint_only_message [of ?g "drop 8 ?g" "ComputeFingerprint ?h"] by auto
  have "VerifyFingerprint m' = Ok False"
    by (rule Fingerprint_detects_byte_change [OF m(1,2) _ _ m'(1)]) (use m(3) m'(2) in \<open>simp_all add: nth_append\<close>)
  then show ?thesis
    using m m' by (simp only: Let_def) blast
qed

end
