(* ===== verification/Stun_Build.thy ===== *)
theory Stun_Build
  imports Stun
begin

text \<open>
  Building STUN messages (\<open>src/protocol/ice/stun/Stun.cpp\<close>): attributes, the integrity and fingerprint
  attributes with their order, the generic builder and the three ICE builders.  The lemmas show that what
  is built parses back and verifies.
\<close>

section \<open>Attributes\<close>

record IpEndpoint =
  ep_family :: u8
  ep_port :: u16
  ep_ip :: bytes

abbreviation IPv4 :: u8 where
  "IPv4 \<equiv> 4"

abbreviation IPv6 :: u8 where
  "IPv6 \<equiv> 6"

record StunAttribute =
  sa_type :: u16
  sa_value :: bytes

definition WriteBE16 :: "bytes \<Rightarrow> u16 \<Rightarrow> bytes" where
  "WriteBE16 out v = out @ enc16 v"

definition WriteBE32 :: "bytes \<Rightarrow> u32 \<Rightarrow> bytes" where
  "WriteBE32 out v = out @ enc32 v"

text \<open>The value is a pointer, possibly null, and a 16-bit length.\<close>

definition AppendAttr :: "bytes \<Rightarrow> u16 \<Rightarrow> bytes option \<Rightarrow> u16 \<Rightarrow> bytes outcome" where
  "AppendAttr out ty val len =
     (let out = WriteBE16 (WriteBE16 out ty) len in
      if len > 0 \<and> val = None then Reject
      else rd_slice (case val of None \<Rightarrow> [] | Some v \<Rightarrow> v) 0 (unat len) (\<lambda>v.
        Ok (out @ v @ replicate (Pad4 (unat len) - unat len) 0)))"

definition AppendUInt32Attr :: "bytes \<Rightarrow> u16 \<Rightarrow> u32 \<Rightarrow> bytes outcome" where
  "AppendUInt32Attr out ty v = AppendAttr out ty (Some (enc32 v)) 4"

definition AppendUInt64Attr :: "bytes \<Rightarrow> u16 \<Rightarrow> u64 \<Rightarrow> bytes outcome" where
  "AppendUInt64Attr out ty v = AppendAttr out ty (Some (enc64 v)) 8"

definition AppendUsernameAttr :: "bytes \<Rightarrow> bytes \<Rightarrow> bytes outcome" where
  "AppendUsernameAttr out username = AppendAttr out (attr_code USERNAME) (Some username) (of_nat (length username))"

definition AppendUseCandidateAttr :: "bytes \<Rightarrow> bytes outcome" where
  "AppendUseCandidateAttr out = AppendAttr out (attr_code USE_CANDIDATE) None 0"

definition EncodeXorAddress :: "IpEndpoint \<Rightarrow> bytes \<Rightarrow> bytes outcome" where
  "EncodeXorAddress ep tid =
     (if ep_family ep \<noteq> IPv4 \<and> ep_family ep \<noteq> IPv6 then Reject
      else
        let xport = ep_port ep XOR port_mask in
        if ep_family ep = IPv4
        then rd_slice (ep_ip ep) 0 4 (\<lambda>ip. Ok ([0, 0x01] @ enc16 xport @ map2 (XOR) ip cookie_bytes))
        else rd_slice (ep_ip ep) 0 16 (\<lambda>ip. rd_slice tid 0 12 (\<lambda>t.
               Ok ([0, 0x02] @ enc16 xport @ map2 (XOR) ip (cookie_bytes @ t)))))"

definition AppendXorMappedAddressAttr :: "bytes \<Rightarrow> IpEndpoint \<Rightarrow> bytes \<Rightarrow> bytes outcome" where
  "AppendXorMappedAddressAttr out ep tid =
     bind_outcome (EncodeXorAddress ep tid) (\<lambda>v.
       AppendAttr out (attr_code XOR_MAPPED_ADDRESS) (Some v) (of_nat (length v)))"

definition UpdateMessageLength :: "bytes \<Rightarrow> bytes outcome" where
  "UpdateMessageLength out =
     (if length out < 20 then Reject
      else let len = length out - 20 in if len > 0xFFFF then Reject else store out 2 (enc16 (of_nat len)))"

definition AppendMessageIntegrityAttr :: "hmac_fn \<Rightarrow> bytes \<Rightarrow> bytes \<Rightarrow> bytes outcome" where
  "AppendMessageIntegrityAttr hmac out key =
     (let mi_attr_start = length out;
          out = WriteBE16 (WriteBE16 out (attr_code MESSAGE_INTEGRITY)) 20 @ replicate 20 0
      in bind_outcome (UpdateMessageLength out) (\<lambda>out.
           rd_slice out 0 mi_attr_start (\<lambda>d.
             case ComputeMessageIntegrity hmac d key of
               None \<Rightarrow> Reject
             | Some digest \<Rightarrow> store out (mi_attr_start + 4) digest)))"

definition AppendFingerprintAttr :: "bytes \<Rightarrow> bytes outcome" where
  "AppendFingerprintAttr out =
     (let fp_attr_start = length out;
          out = WriteBE16 (WriteBE16 out (attr_code FINGERPRINT)) 4 @ replicate 4 0
      in bind_outcome (UpdateMessageLength out) (\<lambda>out.
           rd_slice out 0 fp_attr_start (\<lambda>d. store out (fp_attr_start + 4) (enc32 (ComputeFingerprint d)))))"

section \<open>Builders\<close>

definition BuildBindingRequest :: "bytes \<Rightarrow> bytes" where
  "BuildBindingRequest tid =
     WriteBE32 (WriteBE16 (WriteBE16 [] (EncodeType (method_code Binding) (class_code Request))) 0) kMagicCookie @ tid"

text \<open>Every builder ends by appending integrity and fingerprint, if asked to, and setting the length.\<close>

definition finish_message :: "hmac_fn \<Rightarrow> bytes \<Rightarrow> bool \<Rightarrow> bytes \<Rightarrow> bytes outcome" where
  "finish_message hmac key add_fingerprint buf =
     bind_outcome (if key \<noteq> [] then AppendMessageIntegrityAttr hmac buf key else Ok buf) (\<lambda>buf.
     bind_outcome (if add_fingerprint then AppendFingerprintAttr buf else Ok buf) UpdateMessageLength)"

fun body_size_loop :: "StunAttribute list \<Rightarrow> nat \<Rightarrow> nat outcome" where
  "body_size_loop [] body_size = Ok body_size"
| "body_size_loop (a # as) body_size =
     (if sa_type a = attr_code MESSAGE_INTEGRITY \<or> sa_type a = attr_code MESSAGE_INTEGRITY_SHA256 \<or>
         sa_type a = attr_code FINGERPRINT \<or> length (sa_value a) > 0xFFFF then Reject
      else
        let body_size = body_size + 4 + Pad4 (length (sa_value a)) in
        if body_size > 0xFFFF then Reject else body_size_loop as body_size)"

fun append_attrs :: "bytes \<Rightarrow> StunAttribute list \<Rightarrow> bytes outcome" where
  "append_attrs buf [] = Ok buf"
| "append_attrs buf (a # as) =
     bind_outcome (AppendAttr buf (sa_type a) (Some (sa_value a)) (of_nat (length (sa_value a)))) (\<lambda>buf. append_attrs buf as)"

definition BuildMessage ::
  "hmac_fn \<Rightarrow> u16 \<Rightarrow> u8 \<Rightarrow> bytes \<Rightarrow> StunAttribute list \<Rightarrow> bytes \<Rightarrow> bool \<Rightarrow> bytes outcome" where
  "BuildMessage hmac m klass tid attributes integrity_key add_fingerprint =
     (if m > 0x0FFF \<or> klass > 3 \<or> length integrity_key > 0x7FFFFFFF then Reject
      else bind_outcome
        (body_size_loop attributes ((if integrity_key = [] then 0 else 24) + (if add_fingerprint then 8 else 0))) (\<lambda>_.
        bind_outcome (store (BuildBindingRequest tid) 0 (enc16 (EncodeType m klass))) (\<lambda>buf.
        bind_outcome (append_attrs buf attributes) (finish_message hmac integrity_key add_fingerprint))))"

text \<open>The ICE builders copy the finished message to a buffer of \<open>cap\<close> bytes.\<close>

definition copy_out :: "nat \<Rightarrow> bytes \<Rightarrow> bytes outcome" where
  "copy_out cap buf = (if length buf > cap then Reject else Ok buf)"

record IceRequestParams =
  rq_txid :: bytes
  rq_username :: bytes
  rq_priority :: u32
  rq_controlling :: bool
  rq_tie_breaker :: u64
  rq_use_candidate :: bool
  rq_password :: bytes
  rq_add_fingerprint :: bool

definition BuildIceBindingRequest :: "hmac_fn \<Rightarrow> IceRequestParams \<Rightarrow> nat \<Rightarrow> bytes outcome" where
  "BuildIceBindingRequest hmac inp cap =
     bind_outcome (AppendUsernameAttr (BuildBindingRequest (rq_txid inp)) (rq_username inp)) (\<lambda>buf.
     bind_outcome (AppendUInt32Attr buf (attr_code PRIORITY) (rq_priority inp)) (\<lambda>buf.
     bind_outcome (if rq_controlling inp then AppendUInt64Attr buf (attr_code ICE_CONTROLLING) (rq_tie_breaker inp)
                   else AppendUInt64Attr buf (attr_code ICE_CONTROLLED) (rq_tie_breaker inp)) (\<lambda>buf.
     bind_outcome (if rq_use_candidate inp then AppendUseCandidateAttr buf else Ok buf) (\<lambda>buf.
     bind_outcome (finish_message hmac (rq_password inp) (rq_add_fingerprint inp) buf) (copy_out cap)))))"

record IceSuccessParams =
  ok_req :: "StunMessageInfo option"
  ok_mapped_addr :: IpEndpoint
  ok_password :: bytes
  ok_add_fingerprint :: bool

definition response_header :: "StunClass \<Rightarrow> bytes \<Rightarrow> bytes" where
  "response_header klass tid =
     WriteBE32 (WriteBE16 (WriteBE16 [] (EncodeType (method_code Binding) (class_code klass))) 0) kMagicCookie @ tid"

definition BuildIceBindingSuccess :: "hmac_fn \<Rightarrow> IceSuccessParams \<Rightarrow> nat \<Rightarrow> bytes outcome" where
  "BuildIceBindingSuccess hmac inp cap =
     (case ok_req inp of
        None \<Rightarrow> Reject
      | Some req \<Rightarrow>
          bind_outcome (AppendXorMappedAddressAttr (response_header SuccessResponse (txid req)) (ok_mapped_addr inp) (txid req)) (\<lambda>buf.
          bind_outcome (finish_message hmac (ok_password inp) (ok_add_fingerprint inp) buf) (copy_out cap)))"

definition BuildBindingError :: "hmac_fn \<Rightarrow> StunMessageInfo \<Rightarrow> StunErrorCode \<Rightarrow> bytes \<Rightarrow> nat \<Rightarrow> bytes outcome" where
  "BuildBindingError hmac req err password cap =
     (let ec = [0, 0, ucast (err_code err div 100), ucast (err_code err mod 100)];
          val = ec @ err_reason err
      in bind_outcome (AppendAttr (response_header ErrorResponse (txid req)) (attr_code ERROR_CODE) (Some val) (of_nat (length val))) (\<lambda>buf.
         bind_outcome
           (if unknown_attributes err \<noteq> []
            then let unknown = concat (map enc16 (unknown_attributes err)) in
                 AppendAttr buf (attr_code UNKNOWN_ATTRIBUTES) (Some unknown) (of_nat (length unknown))
            else Ok buf) (\<lambda>buf.
         bind_outcome (finish_message hmac password True buf) (copy_out cap))))"

section \<open>The layout of a message\<close>

definition attr_bytes :: "u16 \<times> bytes \<Rightarrow> bytes" where
  "attr_bytes a = enc16 (fst a) @ enc16 (of_nat (length (snd a))) @ snd a @ replicate (Pad4 (length (snd a)) - length (snd a)) 0"

definition body :: "(u16 \<times> bytes) list \<Rightarrow> bytes" where
  "body as = concat (map attr_bytes as)"

definition header :: "u16 \<Rightarrow> nat \<Rightarrow> bytes \<Rightarrow> bytes" where
  "header ty len tid = enc16 ty @ enc16 (of_nat len) @ enc32 kMagicCookie @ tid"

definition message :: "u16 \<Rightarrow> bytes \<Rightarrow> (u16 \<times> bytes) list \<Rightarrow> bytes" where
  "message ty tid as = header ty (length (body as)) tid @ body as"

text \<open>The views the parser makes of the attributes, from value offset \<open>off\<close> on.\<close>

fun views :: "nat \<Rightarrow> (u16 \<times> bytes) list \<Rightarrow> AttrView list" where
  "views off [] = []"
| "views off (a # as) =
     \<lparr>av_type = fst a, av_len = length (snd a), value_offset = off\<rparr> # views (off + Pad4 (length (snd a)) + 4) as"

definition short :: "(u16 \<times> bytes) list \<Rightarrow> bool" where
  "short as \<longleftrightarrow> (\<forall>a \<in> set as. length (snd a) < 65536)"

lemma Pad4_mod: "Pad4 n mod 4 = 0"
  by (simp add: Pad4_def)

lemma length_attr_bytes [simp]: "length (attr_bytes a) = 4 + Pad4 (length (snd a))"
  using Pad4_ge [of "length (snd a)"] by (simp add: attr_bytes_def)

lemma body_simps [simp]: "body [] = []" "body (a # as) = attr_bytes a @ body as" "body (as @ bs) = body as @ body bs"
  by (simp_all add: body_def)

lemma length_body_mod: "length (body as) mod 4 = 0"
proof (induction as)
  case (Cons a as)
  then show ?case
    using Pad4_mod [of "length (snd a)"] by simp presburger
qed simp

lemma length_header [simp]: "length (header ty n tid) = 8 + length tid"
  by (simp add: header_def)

lemma views_append: "views off (as @ bs) = views off as @ views (off + length (body as)) bs"
  by (induction as arbitrary: off) (simp_all add: ac_simps)

lemma length_views [simp]: "length (views off as) = length as"
  by (induction as arbitrary: off) simp_all

lemma attr_loop_views:
  assumes "p = pre @ body as @ post" "length pre = off" "short as" "fin = off + length (body as)"
  shows "attr_loop p fin off acc = Ok (True, acc @ views (off + 4) as)"
  using assms
proof (induction as arbitrary: pre off acc)
  case (Cons a as)
  let ?n = "length (snd a)"
  have n: "unat (of_nat ?n :: u16) = ?n"
    using Cons.prems(3) by (intro unat_of_nat16) (simp add: short_def)
  have d: "dec16 (drop off p) = fst a" "dec16 (drop (off + 2) p) = of_nat ?n"
    using Cons.prems(1,2) by (simp_all add: attr_bytes_def)
  have l: "off + 4 + Pad4 ?n \<le> fin" "fin \<le> length p"
    using Cons.prems by simp_all
  have "attr_loop p fin off acc =
      attr_loop p fin (off + 4 + Pad4 ?n) (acc @ [\<lparr>av_type = fst a, av_len = ?n, value_offset = off + 4\<rparr>])"
    using l by (subst attr_loop.simps) (simp add: ReadBE_eq ReadUint16BE_eq d n Let_def)
  also have "\<dots> = Ok (True, (acc @ [\<lparr>av_type = fst a, av_len = ?n, value_offset = off + 4\<rparr>]) @ views (off + 4 + Pad4 ?n + 4) as)"
    using Cons.prems by (intro Cons.IH [of "pre @ attr_bytes a"]) (simp_all add: short_def)
  finally show ?case
    by (simp add: ac_simps)
qed (simp add: attr_loop.simps)

lemma length_low_bits:
  assumes "n mod 4 = 0"
  shows "(of_nat n :: u16) AND 0x3 = 0"
proof -
  have "(of_nat n :: u16) AND 0x3 = take_bit 2 (of_nat n)"
    by (simp add: take_bit_eq_mask mask_eq_exp_minus_1)
  also have "\<dots> = of_nat (take_bit 2 n)"
    by (simp add: of_nat_take_bit)
  finally show ?thesis
    using assms by (simp add: take_bit_eq_mod)
qed

text \<open>Parsing what a builder wrote.\<close>

definition parsed_message :: "u16 \<Rightarrow> bytes \<Rightarrow> (u16 \<times> bytes) list \<Rightarrow> StunMessageInfo" where
  "parsed_message ty tid as =
     \<lparr>type_raw = ty, msg_length = length (body as), magic_cookie = kMagicCookie, txid = tid,
      msg_method = fst (DecodeType ty), msg_klass = snd (DecodeType ty), attrs = views 24 as,
      msg_raw = Some (message ty tid as), raw_len = length (message ty tid as)\<rparr>"

lemma parsed_message_simps [simp]:
  "txid (parsed_message ty tid as) = tid" "msg_method (parsed_message ty tid as) = fst (DecodeType ty)"
  "msg_klass (parsed_message ty tid as) = snd (DecodeType ty)" "attrs (parsed_message ty tid as) = views 24 as"
  "msg_raw (parsed_message ty tid as) = Some (message ty tid as)" "raw_bytes (parsed_message ty tid as) = message ty tid as"
  "raw_len (parsed_message ty tid as) = length (message ty tid as)"
  by (simp_all add: parsed_message_def raw_bytes_def)

lemma parse_message:
  assumes "length tid = 12" "drop_bit 14 ty = 0" "short as" "length (body as) < 65536"
  shows "Stun_Parse (message ty tid as) = Ok (True, parsed_message ty tid as)"
proof -
  let ?p = "message ty tid as" and ?n = "length (body as)"
  have l: "length ?p = 20 + ?n"
    using assms(1) by (simp add: message_def)
  have n: "unat (of_nat ?n :: u16) = ?n"
    using assms(4) by (rule unat_of_nat16)
  have d: "dec16 ?p = ty" "dec16 (drop 2 ?p) = of_nat ?n" "dec32 (drop 4 ?p) = kMagicCookie" "slice ?p 8 12 = tid"
    using assms(1) by (simp_all add: message_def header_def slice_def)
  have "?p ! 0 = ucast (drop_bit 8 ty)"
    by (simp add: message_def header_def enc16_def)
  moreover have "\<not> bit ty 14" "\<not> bit ty 15"
    using arg_cong [OF assms(2), of "\<lambda>w. bit w 0"] arg_cong [OF assms(2), of "\<lambda>w. bit w 1"]
    by (simp_all add: bit_drop_bit_eq)
  then have "(ucast (drop_bit 8 ty) :: u8) AND 0xC0 = 0"
    by (intro u8_eqI) (simp_all add: bit_simps)
  ultimately have "IsStun ?p = Ok True"
    using d l n length_low_bits [OF length_body_mod [of as]] by (simp add: IsStun_eq)
  moreover have "attr_loop ?p (20 + ?n) 20 [] = Ok (True, [] @ views (20 + 4) as)"
    using assms(1,3) by (intro attr_loop_views [where pre = "header ty ?n tid" and post = "[]"]) (simp_all add: message_def)
  ultimately show ?thesis
    using d l n by (simp add: Stun_Parse_def ReadBE_eq ReadUint16BE_eq ReadUint32BE_eq split_def Let_def parsed_message_def)
qed

section \<open>What the builders write\<close>

lemma AppendAttr_eq: "length v < 65536 \<Longrightarrow> AppendAttr out ty (Some v) (of_nat (length v)) = Ok (out @ attr_bytes (ty, v))"
  by (simp add: AppendAttr_def WriteBE16_def attr_bytes_def unat_of_nat16 slice_def Let_def)

lemma AppendFixed_eq:
  "AppendUInt32Attr out ty w = Ok (out @ attr_bytes (ty, enc32 w))"
  "AppendUInt64Attr out ty x = Ok (out @ attr_bytes (ty, enc64 x))"
  "AppendUseCandidateAttr out = Ok (out @ attr_bytes (attr_code USE_CANDIDATE, []))"
  using AppendAttr_eq [of "enc32 w" out ty] AppendAttr_eq [of "enc64 x" out ty]
  by (simp_all add: AppendUInt32Attr_def AppendUInt64Attr_def AppendUseCandidateAttr_def AppendAttr_def WriteBE16_def
      attr_bytes_def Pad4_def slice_def)

lemma store_second:
  "length a = 2 \<Longrightarrow> length b = 2 \<Longrightarrow> length c = 2 \<Longrightarrow> store (a @ b @ r) 2 c = Ok (a @ c @ r)"
  by (simp add: store_def)

lemma UpdateMessageLength_eq:
  assumes "length tid = 12" "length b \<le> 0xFFFF"
  shows "UpdateMessageLength (header ty x tid @ b) = Ok (header ty (length b) tid @ b)"
  using assms by (simp add: UpdateMessageLength_def header_def store_second)

lemma store_tail:
  "length a = n \<Longrightarrow> length z = length x \<Longrightarrow> store (a @ z) n x = Ok (a @ x)"
  by (simp add: store_def)

lemma AppendMessageIntegrityAttr_eq:
  assumes "length tid = 12" "length b + 24 \<le> 0xFFFF"
  shows "AppendMessageIntegrityAttr hmac (header ty x tid @ b) key =
    (case ComputeMessageIntegrity hmac (header ty (length b + 24) tid @ b) key of
       None \<Rightarrow> Reject
     | Some mac \<Rightarrow> Ok (header ty (length b + 24) tid @ b @ attr_bytes (attr_code MESSAGE_INTEGRITY, mac)))"
proof -
  let ?t = "enc16 8 @ enc16 20" and ?h = "header ty (length b + 24) tid"
  have "UpdateMessageLength (header ty x tid @ b @ ?t @ replicate 20 0) = Ok (?h @ b @ ?t @ replicate 20 0)"
    using assms UpdateMessageLength_eq [of tid "b @ ?t @ replicate 20 0" ty x] by simp
  moreover have "store (?h @ b @ ?t @ replicate 20 0) (length (?h @ b) + 4) mac = Ok (?h @ b @ ?t @ mac)" if "length mac = 20" for mac
    using store_tail [of "?h @ b @ ?t" "length (?h @ b) + 4" "replicate 20 0" mac] that by simp
  moreover have "slice (?h @ b @ ?t @ replicate 20 0) 0 (length (?h @ b)) = ?h @ b"
    by (simp add: slice_def)
  moreover have "attr_bytes (8, mac) = ?t @ mac" if "length mac = 20" for mac
    using that by (simp add: attr_bytes_def Pad4_def)
  ultimately show ?thesis
    by (auto simp: AppendMessageIntegrityAttr_def WriteBE16_def ComputeMessageIntegrity_def Let_def split: option.split)
qed

lemma AppendFingerprintAttr_eq:
  assumes "length tid = 12" "length b + 8 \<le> 0xFFFF"
  shows "AppendFingerprintAttr (header ty x tid @ b) =
    Ok (header ty (length b + 8) tid @ b @
        attr_bytes (attr_code FINGERPRINT, enc32 (ComputeFingerprint (header ty (length b + 8) tid @ b))))"
proof -
  let ?t = "enc16 0x8028 @ enc16 4" and ?h = "header ty (length b + 8) tid"
  have "UpdateMessageLength (header ty x tid @ b @ ?t @ replicate 4 0) = Ok (?h @ b @ ?t @ replicate 4 0)"
    using assms UpdateMessageLength_eq [of tid "b @ ?t @ replicate 4 0" ty x] by simp
  moreover have "store (?h @ b @ ?t @ replicate 4 0) (length (?h @ b) + 4) (enc32 w) = Ok (?h @ b @ ?t @ enc32 w)" for w
    using store_tail [of "?h @ b @ ?t" "length (?h @ b) + 4" "replicate 4 0" "enc32 w"] by simp
  moreover have "slice (?h @ b @ ?t @ replicate 4 0) 0 (length (?h @ b)) = ?h @ b"
    by (simp add: slice_def)
  moreover have "attr_bytes (0x8028, enc32 w) = ?t @ enc32 w" for w
    by (simp add: attr_bytes_def Pad4_def)
  ultimately show ?thesis
    by (simp add: AppendFingerprintAttr_def WriteBE16_def Let_def)
qed

text \<open>The integrity and fingerprint attributes of a message with the attributes \<open>as\<close>.\<close>

definition integrity_of :: "hmac_fn \<Rightarrow> bytes \<Rightarrow> u16 \<Rightarrow> bytes \<Rightarrow> (u16 \<times> bytes) list \<Rightarrow> (u16 \<times> bytes) list option" where
  "integrity_of hmac key ty tid as =
     (if key = [] then Some []
      else case ComputeMessageIntegrity hmac (header ty (length (body as) + 24) tid @ body as) key of
        None \<Rightarrow> None
      | Some mac \<Rightarrow> Some [(attr_code MESSAGE_INTEGRITY, mac)])"

definition fingerprint_of :: "bool \<Rightarrow> u16 \<Rightarrow> bytes \<Rightarrow> (u16 \<times> bytes) list \<Rightarrow> (u16 \<times> bytes) list" where
  "fingerprint_of fp ty tid as =
     (if fp then [(attr_code FINGERPRINT, enc32 (ComputeFingerprint (header ty (length (body as) + 8) tid @ body as)))] else [])"

lemma length_integrity: "integrity_of hmac key ty tid as = Some mi \<Longrightarrow> length (body mi) = (if key = [] then 0 else 24)"
  by (auto simp: integrity_of_def ComputeMessageIntegrity_def Pad4_def split: if_splits option.splits)

lemma length_fingerprint: "length (body (fingerprint_of fp ty tid as)) = (if fp then 8 else 0)"
  by (simp add: fingerprint_of_def Pad4_def)

lemma finish_message_eq:
  assumes "length tid = 12" "length (body as) + (if key = [] then 0 else 24) + (if fp then 8 else 0) \<le> 0xFFFF"
  shows "finish_message hmac key fp (header ty x tid @ body as) =
    (case integrity_of hmac key ty tid as of
       None \<Rightarrow> Reject
     | Some mi \<Rightarrow> Ok (message ty tid (as @ mi @ fingerprint_of fp ty tid (as @ mi))))"
proof -
  have mi: "(if key \<noteq> [] then AppendMessageIntegrityAttr hmac (header ty x tid @ body as) key else Ok (header ty x tid @ body as)) =
      (case integrity_of hmac key ty tid as of
         None \<Rightarrow> Reject
       | Some mi \<Rightarrow> Ok (header ty (if key = [] then x else length (body as) + 24) tid @ body (as @ mi)))"
    using assms by (auto simp: AppendMessageIntegrityAttr_eq integrity_of_def split: option.split if_splits)
  show ?thesis
  proof (cases "integrity_of hmac key ty tid as")
    case (Some mi)
    let ?bs = "as @ mi"
    have l: "length (body ?bs) + (if fp then 8 else 0) \<le> 0xFFFF"
      using length_integrity [OF Some] assms(2) by (simp split: if_splits)
    have "bind_outcome (if fp then AppendFingerprintAttr (header ty y tid @ body ?bs) else Ok (header ty y tid @ body ?bs))
        UpdateMessageLength = Ok (message ty tid (?bs @ fingerprint_of fp ty tid ?bs))" for y
      using assms(1) l UpdateMessageLength_eq [of tid "body (?bs @ fingerprint_of fp ty tid ?bs)" ty]
        length_fingerprint [of fp ty tid ?bs]
      by (auto simp: AppendFingerprintAttr_eq message_def fingerprint_of_def split: if_splits)
    then show ?thesis
      unfolding finish_message_def mi Some option.case bind_outcome.simps append_assoc .
  qed (simp add: finish_message_def mi)
qed

section \<open>Reading back\<close>

lemma find_view:
  assumes "t \<notin> fst ` set xs" "attr_code MESSAGE_INTEGRITY \<notin> fst ` set xs \<or> t = attr_code FINGERPRINT"
  shows "find_attr t (views off (xs @ (t, v) # ys)) =
    Some \<lparr>av_type = t, av_len = length v, value_offset = off + length (body xs)\<rparr>"
  using assms by (induction xs arbitrary: off) (auto simp: ac_simps)

lemma find_no_view: "t \<notin> fst ` set as \<Longrightarrow> find_attr t (views off as) = None"
  by (induction as arbitrary: off) auto

lemma message_split:
  assumes "length tid = 12"
  obtains pre post where "message ty tid (xs @ (t, v) # ys) = pre @ v @ post" "length pre = 24 + length (body xs)"
proof
  let ?pre = "header ty (length (body (xs @ (t, v) # ys))) tid @ body xs @ enc16 t @ enc16 (of_nat (length v))"
  show "message ty tid (xs @ (t, v) # ys) = ?pre @ v @ replicate (Pad4 (length v) - length v) 0 @ body ys"
    by (simp add: message_def attr_bytes_def)
  show "length ?pre = 24 + length (body xs)"
    using assms by simp
qed

lemma value_at:
  assumes "length tid = 12"
  shows "slice (message ty tid (xs @ (t, v) # ys)) (24 + length (body xs)) (length v) = v"
  by (rule message_split [OF assms, of ty xs t v ys]) (simp add: slice_def)

lemma found_value:
  fixes ty :: u16
  assumes "length tid = 12" "as = xs @ (t, v) # ys" "t \<notin> fst ` set xs"
    and "attr_code MESSAGE_INTEGRITY \<notin> fst ` set xs \<or> t = attr_code FINGERPRINT"
  defines "m \<equiv> parsed_message ty tid as" and "a \<equiv> \<lparr>av_type = t, av_len = length v, value_offset = 24 + length (body xs)\<rparr>"
  shows "FindAttr m t = Some a" "IsAttrInBounds m a" "slice (raw_bytes m) (value_offset a) (length v) = v"
    "value_offset a + length v \<le> length (raw_bytes m)"
proof -
  have l: "24 + length (body xs) + length v \<le> length (message ty tid as)"
    using assms(1,2) Pad4_ge [of "length v"] by (simp add: message_def)
  show "FindAttr m t = Some a"
    using find_view [OF assms(3,4)] by (simp add: FindAttr_def m_def a_def assms(2))
  show "IsAttrInBounds m a" "slice (raw_bytes m) (value_offset a) (length v) = v" "value_offset a + length v \<le> length (raw_bytes m)"
    using l value_at [OF assms(1)] by (simp_all add: IsAttrInBounds_def raw_bytes_def m_def a_def assms(2))
qed

lemma FindAttr_none: "t \<notin> fst ` set as \<Longrightarrow> FindAttr (parsed_message ty tid as) t = None"
  by (simp add: FindAttr_def find_no_view)

lemma decode_found:
  assumes "length tid = 12" "as = xs @ (t, v) # ys" "t \<notin> fst ` set xs" "attr_code MESSAGE_INTEGRITY \<notin> fst ` set xs"
  shows "t = attr_code USERNAME \<Longrightarrow> v \<noteq> [] \<Longrightarrow> DecodeUsername (parsed_message ty tid as) = Ok v"
    "t = attr_code PRIORITY \<Longrightarrow> v = enc32 w \<Longrightarrow> DecodePriority (parsed_message ty tid as) = Ok w"
    "t = attr_code ICE_CONTROLLING \<Longrightarrow> v = enc64 x \<Longrightarrow> DecodeIceControlling (parsed_message ty tid as) = Ok x"
    "t = attr_code ICE_CONTROLLED \<Longrightarrow> v = enc64 x \<Longrightarrow> DecodeIceControlled (parsed_message ty tid as) = Ok x"
proof -
  let ?m = "parsed_message ty tid as" and ?off = "24 + length (body xs)"
  have "attr_code MESSAGE_INTEGRITY \<notin> fst ` set xs \<or> t = attr_code FINGERPRINT"
    using assms(4) by blast
  note f = found_value [OF assms(1-3) this, of ty]
  have d: "dec32 (drop ?off (message ty tid as)) = dec32 v" if "length v = 4"
    using f(3) that dec32_take [of "drop ?off (message ty tid as)"] f(4) by (simp add: slice_def)
  have e: "dec64 (drop ?off (message ty tid as)) = dec64 v" if "length v = 8"
    using f(3) that dec64_take [of "drop ?off (message ty tid as)"] f(4) by (simp add: slice_def)
  show "t = attr_code USERNAME \<Longrightarrow> v \<noteq> [] \<Longrightarrow> DecodeUsername ?m = Ok v"
    using f by (simp add: DecodeUsername_def AttrValue_def)
  show "t = attr_code PRIORITY \<Longrightarrow> v = enc32 w \<Longrightarrow> DecodePriority ?m = Ok w"
    using f d by (simp add: DecodePriority_def ReadBE_eq ReadUint32BE_eq)
  show "t = attr_code ICE_CONTROLLING \<Longrightarrow> v = enc64 x \<Longrightarrow> DecodeIceControlling ?m = Ok x"
    using f e by (simp add: DecodeIceControlling_def ReadBE_eq ReadUint64BE_eq)
  show "t = attr_code ICE_CONTROLLED \<Longrightarrow> v = enc64 x \<Longrightarrow> DecodeIceControlled ?m = Ok x"
    using f e by (simp add: DecodeIceControlled_def ReadBE_eq ReadUint64BE_eq)
qed

lemma verify_integrity:
  assumes "length tid = 12" "attr_code MESSAGE_INTEGRITY \<notin> fst ` set as" "length (body as) + 24 \<le> 0xFFFF"
    and "ComputeMessageIntegrity hmac (header ty (length (body as) + 24) tid @ body as) key = Some mac"
  shows "VerifyMessageIntegrity hmac (parsed_message ty tid (as @ (attr_code MESSAGE_INTEGRITY, mac) # ys)) key = Ok True"
proof -
  let ?as = "as @ (attr_code MESSAGE_INTEGRITY, mac) # ys"
  let ?m = "parsed_message ty tid ?as" and ?p = "message ty tid ?as"
  let ?a = "\<lparr>av_type = attr_code MESSAGE_INTEGRITY, av_len = length mac, value_offset = 24 + length (body as)\<rparr>"
  have mac: "length mac = 20"
    using assms(4) by (auto simp: ComputeMessageIntegrity_def split: option.splits if_splits)
  have f: "FindAttr ?m (attr_code MESSAGE_INTEGRITY) = Some ?a" "IsAttrInBounds ?m ?a"
      "slice (raw_bytes ?m) (24 + length (body as)) 20 = mac" "24 + length (body as) + 20 \<le> length (raw_bytes ?m)"
    using found_value [OF assms(1) refl assms(2), where v = mac and ys = ys and ty = ty] assms(2) mac by simp_all
  have "slice ?p 0 (20 + length (body as)) = header ty (length (body ?as)) tid @ body as"
    using assms(1) by (simp add: message_def slice_def)
  moreover have "store (header ty (length (body ?as)) tid @ body as) 2 (enc16 (of_nat (length (body as) + 24))) =
      Ok (header ty (length (body as) + 24) tid @ body as)"
    by (simp add: header_def store_second)
  moreover have "length ?p = length (raw_bytes ?m)" "raw_bytes ?m = ?p"
    by (simp_all add: raw_bytes_def)
  ultimately show ?thesis
    using f mac assms(4) by (simp add: VerifyMessageIntegrity_def Let_def add.commute)
qed

lemma verify_fingerprint:
  assumes "length tid = 12"
  shows "VerifyFingerprint (parsed_message ty tid (as @ fingerprint_of True ty tid as)) = Ok True"
proof -
  let ?w = "ComputeFingerprint (header ty (length (body as) + 8) tid @ body as)"
  let ?as = "as @ [(attr_code FINGERPRINT, enc32 ?w)]"
  let ?m = "parsed_message ty tid ?as" and ?p = "message ty tid ?as"
  let ?a = "\<lparr>av_type = attr_code FINGERPRINT, av_len = 4, value_offset = 24 + length (body as)\<rparr>"
  have l: "length ?p = 28 + length (body as)" "length (body ?as) = length (body as) + 8"
    using assms by (simp_all add: message_def Pad4_def)
  have "FindLastAttr ?m (attr_code FINGERPRINT) = Some ?a"
    by (simp add: FindLastAttr_def views_append)
  moreover have "dec32 (drop (24 + length (body as)) ?p) = ?w"
    using assms by (simp add: message_def attr_bytes_def Pad4_def)
  moreover have "slice ?p 0 (20 + length (body as)) = header ty (length (body as) + 8) tid @ body as"
    using assms l(2) by (simp add: message_def slice_def)
  ultimately show ?thesis
    using l by (simp add: VerifyFingerprint_def IsAttrInBounds_def ReadBE_eq ReadUint32BE_eq fingerprint_of_def)
qed

section \<open>Round trips\<close>

abbreviation attr_pair :: "StunAttribute \<Rightarrow> u16 \<times> bytes" where
  "attr_pair a \<equiv> (sa_type a, sa_value a)"

lemma body_size_loop_Ok:
  "body_size_loop as n = Ok k \<Longrightarrow>
     k = n + length (body (map attr_pair as)) \<and> short (map attr_pair as) \<and> (as \<noteq> [] \<longrightarrow> k \<le> 0xFFFF) \<and>
     attr_code MESSAGE_INTEGRITY \<notin> fst ` set (map attr_pair as) \<and>
     attr_code MESSAGE_INTEGRITY_SHA256 \<notin> sa_type ` set as \<and> attr_code FINGERPRINT \<notin> sa_type ` set as"
proof (induction as arbitrary: n)
  case (Cons a as)
  let ?n = "n + 4 + Pad4 (length (sa_value a))"
  have a: "length (sa_value a) \<le> 0xFFFF" "sa_type a \<noteq> attr_code MESSAGE_INTEGRITY"
      "sa_type a \<noteq> attr_code MESSAGE_INTEGRITY_SHA256" "sa_type a \<noteq> attr_code FINGERPRINT" "?n \<le> 0xFFFF" "body_size_loop as ?n = Ok k"
    using Cons.prems by (auto simp: Let_def split: if_splits)
  have "as = [] \<Longrightarrow> k = ?n"
    using a(6) by simp
  then show ?case
    using Cons.IH [OF a(6)] a by (auto simp: short_def)
qed (simp add: short_def)

lemma append_attrs_eq: "short (map attr_pair as) \<Longrightarrow> append_attrs buf as = Ok (buf @ body (map attr_pair as))"
  by (induction as arbitrary: buf) (simp_all add: short_def AppendAttr_eq)

lemma request_header: "BuildBindingRequest tid = header (EncodeType 1 0) 0 tid"
  by (simp add: BuildBindingRequest_def header_def WriteBE16_def WriteBE32_def)

lemma views_values:
  assumes "length tid = 12"
  shows "map (\<lambda>a. (av_type a, slice (message ty tid (xs @ as @ ys)) (value_offset a) (av_len a))) (views (24 + length (body xs)) as) = as"
proof (induction as arbitrary: xs)
  case (Cons a as)
  have "slice (message ty tid (xs @ a # as @ ys)) (24 + length (body xs)) (length (snd a)) = snd a"
    using value_at [OF assms, of ty xs "fst a" "snd a" "as @ ys"] by simp
  then show ?case
    using Cons.IH [of "xs @ [a]"] by (simp add: ac_simps)
qed simp

lemma BuildMessage_eq:
  assumes "length tid = 12" "m \<le> 0x0FFF" "c \<le> 3" "length key \<le> 0x7FFFFFFF"
    and "body_size_loop as ((if key = [] then 0 else 24) + (if fp then 8 else 0)) = Ok k"
  shows "BuildMessage hmac m c tid as key fp =
    (case integrity_of hmac key (EncodeType m c) tid (map attr_pair as) of
       None \<Rightarrow> Reject
     | Some mi \<Rightarrow> Ok (message (EncodeType m c) tid
         (map attr_pair as @ mi @ fingerprint_of fp (EncodeType m c) tid (map attr_pair as @ mi))))"
proof -
  let ?ty = "EncodeType m c" and ?as = "map attr_pair as"
  note bs = body_size_loop_Ok [OF assms(5)]
  have size: "length (body ?as) + (if key = [] then 0 else 24) + (if fp then 8 else 0) \<le> 0xFFFF"
    using bs by (cases "as = []") (auto split: if_splits)
  have "store (BuildBindingRequest tid) 0 (enc16 ?ty) = Ok (header ?ty 0 tid @ body [])"
    by (simp add: request_header header_def store_def)
  then have "BuildMessage hmac m c tid as key fp = finish_message hmac key fp (header ?ty 0 tid @ body ?as)"
    using assms(2-5) bs by (simp add: BuildMessage_def append_attrs_eq leD)
  then show ?thesis
    using finish_message_eq [OF assms(1) size] by simp
qed

text \<open>Everything about a message the generic builder returned.\<close>

lemma built_message:
  assumes "length tid = 12" "BuildMessage hmac m c tid as key fp = Ok buf"
  defines "ty \<equiv> EncodeType m c"
  obtains mi all where "integrity_of hmac key ty tid (map attr_pair as) = Some mi"
    "all = map attr_pair as @ mi @ fingerprint_of fp ty tid (map attr_pair as @ mi)" "buf = message ty tid all"
    "Stun_Parse buf = Ok (True, parsed_message ty tid all)" "DecodeType ty = (m, c)"
    "attr_code MESSAGE_INTEGRITY \<notin> sa_type ` set as" "attr_code MESSAGE_INTEGRITY_SHA256 \<notin> sa_type ` set as"
    "attr_code FINGERPRINT \<notin> sa_type ` set as"
    "key \<noteq> [] \<Longrightarrow> VerifyMessageIntegrity hmac (parsed_message ty tid all) key = Ok True"
    "fp \<Longrightarrow> VerifyFingerprint (parsed_message ty tid all) = Ok True"
proof -
  let ?as = "map attr_pair as"
  obtain k where mc: "m \<le> 0x0FFF" "c \<le> 3" "length key \<le> 0x7FFFFFFF"
    and k: "body_size_loop as ((if key = [] then 0 else 24) + (if fp then 8 else 0)) = Ok k"
    using assms(2) by (auto simp: BuildMessage_def bind_outcome_Ok_iff not_less split: if_splits)
  note bs = body_size_loop_Ok [OF k]
  have size: "length (body ?as) + (if key = [] then 0 else 24) + (if fp then 8 else 0) \<le> 0xFFFF"
    using bs by (cases "as = []") (auto split: if_splits)
  obtain mi where mi: "integrity_of hmac key ty tid ?as = Some mi"
      "buf = message ty tid (?as @ mi @ fingerprint_of fp ty tid (?as @ mi))"
    using BuildMessage_eq [OF assms(1) mc k, of hmac] assms(2) by (auto simp: ty_def split: option.splits)
  let ?all = "?as @ mi @ fingerprint_of fp ty tid (?as @ mi)"
  have "short ?all"
    using bs mi(1) by (auto simp: short_def integrity_of_def fingerprint_of_def ComputeMessageIntegrity_def split: if_splits option.splits)
  moreover have "length (body ?all) < 65536"
    using size length_integrity [OF mi(1)] length_fingerprint [of fp ty tid "?as @ mi"] by (auto split: if_splits)
  ultimately have p: "Stun_Parse buf = Ok (True, parsed_message ty tid ?all)"
    using parse_message [OF assms(1) EncodeType_high] mi(2) by (simp add: ty_def)
  show thesis
  proof (rule that [OF mi(1) refl mi(2) p])
    show "DecodeType ty = (m, c)"
      using EncodeType_DecodeType [OF mc(1,2)] by (simp add: ty_def)
    show "attr_code MESSAGE_INTEGRITY \<notin> sa_type ` set as" "attr_code MESSAGE_INTEGRITY_SHA256 \<notin> sa_type ` set as"
      "attr_code FINGERPRINT \<notin> sa_type ` set as"
      using bs by (auto simp: image_image)
    show "key \<noteq> [] \<Longrightarrow> VerifyMessageIntegrity hmac (parsed_message ty tid ?all) key = Ok True"
      using verify_integrity [OF assms(1)] mi(1) bs size by (auto simp: integrity_of_def split: option.splits)
    show "fp \<Longrightarrow> VerifyFingerprint (parsed_message ty tid ?all) = Ok True"
      using verify_fingerprint [OF assms(1), of ty "?as @ mi"] by simp
  qed
qed

text \<open>
  C33: what is built is what is parsed.  A message the builder returns is accepted by the parser in full length,
  with the method, the class and the transaction identifier given; its attributes are the given ones, in order,
  with the given values; and when a key was given its integrity verifies under that key, and when a fingerprint
  was asked for the fingerprint verifies.  This holds for every HMAC function.
\<close>
theorem Stun_Build_Parse_roundtrip:
  assumes "length tid = 12" "BuildMessage hmac m c tid as key fp = Ok buf"
  shows "\<exists>i. Stun_Parse buf = Ok (True, i) \<and> raw_len i = length buf \<and> msg_method i = m \<and> msg_klass i = c \<and> txid i = tid \<and>
    map (\<lambda>a. (av_type a, slice buf (value_offset a) (av_len a))) (take (length as) (attrs i)) = map attr_pair as \<and>
    (key \<noteq> [] \<longrightarrow> VerifyMessageIntegrity hmac i key = Ok True) \<and> (fp \<longrightarrow> VerifyFingerprint i = Ok True)"
proof (rule built_message [OF assms])
  let ?ty = "EncodeType m c" and ?as = "map attr_pair as"
  fix mi all
  assume all: "all = ?as @ mi @ fingerprint_of fp ?ty tid (?as @ mi)" "buf = message ?ty tid all"
    and p: "Stun_Parse buf = Ok (True, parsed_message ?ty tid all)" "DecodeType ?ty = (m, c)"
    and v: "key \<noteq> [] \<Longrightarrow> VerifyMessageIntegrity hmac (parsed_message ?ty tid all) key = Ok True"
      "fp \<Longrightarrow> VerifyFingerprint (parsed_message ?ty tid all) = Ok True"
  have "map (\<lambda>a. (av_type a, slice buf (value_offset a) (av_len a))) (take (length as) (views 24 all)) = ?as"
    using views_values [OF assms(1), of ?ty "[]" ?as "mi @ fingerprint_of fp ?ty tid (?as @ mi)"] all
    by (simp add: views_append length_views)
  then show ?thesis
    using p v all(2) by (intro exI [of _ "parsed_message ?ty tid all"]) simp
qed

theorem Stun_Build_Parse_roundtrip_witness:
  "\<exists>buf i. BuildMessage toy_hmac 3 0 (replicate 12 5) [\<lparr>sa_type = 0x19, sa_value = [17, 0, 0, 0]\<rparr>] [7, 8] True = Ok buf \<and>
     Stun_Parse buf = Ok (True, i) \<and> msg_method i = 3 \<and> VerifyMessageIntegrity toy_hmac i [7, 8] = Ok True \<and>
     VerifyFingerprint i = Ok True"
proof -
  let ?as = "[\<lparr>sa_type = 0x19, sa_value = [17, 0, 0, 0]\<rparr>] :: StunAttribute list"
  let ?e = "map attr_pair ?as" and ?ty = "EncodeType 3 0" and ?tid = "replicate 12 5 :: bytes"
  obtain mi where mi: "integrity_of toy_hmac [7, 8] ?ty ?tid ?e = Some mi"
    by (simp add: integrity_of_def ComputeMessageIntegrity_def toy_hmac_def)
  have "BuildMessage toy_hmac 3 0 ?tid ?as [7, 8] True =
      (case integrity_of toy_hmac [7, 8] ?ty ?tid ?e of
         None \<Rightarrow> Reject
       | Some mi \<Rightarrow> Ok (message ?ty ?tid (?e @ mi @ fingerprint_of True ?ty ?tid (?e @ mi))))"
    by (rule BuildMessage_eq [where k = 40]) (simp_all add: Pad4_def)
  then obtain buf where b: "BuildMessage toy_hmac 3 0 ?tid ?as [7, 8] True = Ok buf"
    unfolding mi option.case by blast
  show ?thesis
    using Stun_Build_Parse_roundtrip [OF _ b] b by auto
qed

lemma finish_protected:
  assumes "length tid = 12" "drop_bit 14 ty = 0" "short as" "attr_code MESSAGE_INTEGRITY \<notin> fst ` set as"
    and "length (body as) \<le> 1000" "key \<noteq> []" "\<forall>d. \<exists>mac. hmac key d = Some mac \<and> length mac = 20"
  obtains all mac where "all = as @ (attr_code MESSAGE_INTEGRITY, mac) # fingerprint_of fp ty tid (as @ [(attr_code MESSAGE_INTEGRITY, mac)])"
    "finish_message hmac key fp (header ty x tid @ body as) = Ok (message ty tid all)"
    "length (message ty tid all) \<le> length (body as) + 52"
    "Stun_Parse (message ty tid all) = Ok (True, parsed_message ty tid all)"
    "VerifyMessageIntegrity hmac (parsed_message ty tid all) key = Ok True"
    "fp \<Longrightarrow> VerifyFingerprint (parsed_message ty tid all) = Ok True"
proof -
  obtain mac where "hmac key (header ty (length (body as) + 24) tid @ body as) = Some mac" "length mac = 20"
    using assms(7) by blast
  then have mac: "ComputeMessageIntegrity hmac (header ty (length (body as) + 24) tid @ body as) key = Some mac"
    by (simp add: ComputeMessageIntegrity_def)
  let ?mi = "[(attr_code MESSAGE_INTEGRITY, mac)]"
  let ?fps = "fingerprint_of fp ty tid (as @ ?mi)"
  let ?all = "as @ ?mi @ ?fps"
  have mi: "integrity_of hmac key ty tid as = Some ?mi"
    using assms(6) mac by (simp add: integrity_of_def)
  have f: "finish_message hmac key fp (header ty x tid @ body as) = Ok (message ty tid ?all)"
    using finish_message_eq [OF assms(1), of as key fp hmac ty x] assms(5) mi by simp
  have all: "length (body ?all) \<le> length (body as) + 32"
    using length_integrity [OF mi] length_fingerprint [of fp ty tid "as @ ?mi"] by (simp split: if_splits)
  have "short ?all"
    using assms(3) \<open>length mac = 20\<close> by (auto simp: short_def fingerprint_of_def)
  then have "Stun_Parse (message ty tid ?all) = Ok (True, parsed_message ty tid ?all)"
    using parse_message [OF assms(1,2)] all assms(5) by simp
  moreover have "length (message ty tid ?all) \<le> length (body as) + 52"
    using all assms(1) unfolding message_def by simp
  moreover have "VerifyMessageIntegrity hmac (parsed_message ty tid ?all) key = Ok True"
    using verify_integrity [OF assms(1,4) _ mac, of ?fps] assms(5) by simp
  moreover have "fp \<Longrightarrow> VerifyFingerprint (parsed_message ty tid ?all) = Ok True"
    using verify_fingerprint [OF assms(1), of ty "as @ ?mi"] by simp
  ultimately show ?thesis
    using that [of ?all mac] f by simp
qed

text \<open>The attributes of an ICE binding request.\<close>

definition ice_attrs :: "IceRequestParams \<Rightarrow> (u16 \<times> bytes) list" where
  "ice_attrs inp =
     [(attr_code USERNAME, rq_username inp), (attr_code PRIORITY, enc32 (rq_priority inp)),
      (attr_code (if rq_controlling inp then ICE_CONTROLLING else ICE_CONTROLLED), enc64 (rq_tie_breaker inp))] @
     (if rq_use_candidate inp then [(attr_code USE_CANDIDATE, [])] else [])"

lemma BuildIceBindingRequest_eq:
  assumes "length (rq_username inp) < 65536"
  shows "BuildIceBindingRequest hmac inp cap =
    bind_outcome (finish_message hmac (rq_password inp) (rq_add_fingerprint inp)
      (header (EncodeType 1 0) 0 (rq_txid inp) @ body (ice_attrs inp))) (copy_out cap)"
  using assms
  by (simp add: BuildIceBindingRequest_def AppendUsernameAttr_def request_header AppendAttr_eq AppendFixed_eq ice_attrs_def)

text \<open>
  C30: a connectivity check arrives as it was sent.  For every user name of up to 512 bytes and every key for which
  HMAC gives a digest, the builder returns a binding request from which the receiver decodes exactly the sender's
  user name, priority, role with its tie breaker and nomination flag, and whose integrity, and fingerprint if
  present, verify.
\<close>
theorem Ice_request_roundtrip:
  assumes "length (rq_txid inp) = 12" "rq_username inp \<noteq> []" "length (rq_username inp) \<le> 512" "rq_password inp \<noteq> []"
    and "\<forall>d. \<exists>mac. hmac (rq_password inp) d = Some mac \<and> length mac = 20" "1024 \<le> cap"
  shows "\<exists>buf i. BuildIceBindingRequest hmac inp cap = Ok buf \<and> Stun_Parse buf = Ok (True, i) \<and>
    IsBindingRequest i \<and> txid i = rq_txid inp \<and>
    DecodeUsername i = Ok (rq_username inp) \<and> DecodePriority i = Ok (rq_priority inp) \<and>
    DecodeIceControlling i = (if rq_controlling inp then Ok (rq_tie_breaker inp) else Reject) \<and>
    DecodeIceControlled i = (if rq_controlling inp then Reject else Ok (rq_tie_breaker inp)) \<and>
    HasUseCandidate i = rq_use_candidate inp \<and> VerifyMessageIntegrity hmac i (rq_password inp) = Ok True \<and>
    (rq_add_fingerprint inp \<longrightarrow> VerifyFingerprint i = Ok True)"
proof -
  let ?tid = "rq_txid inp" and ?ty = "EncodeType 1 0" and ?as = "ice_attrs inp" and ?fp = "rq_add_fingerprint inp"
  let ?key = "rq_password inp" and ?u = "rq_username inp"
  have pad: "Pad4 (length ?u) \<le> 515"
    using assms(3) by (simp add: Pad4_def)
  have body: "length (body ?as) \<le> 600"
    using pad by (simp add: ice_attrs_def Pad4_def)
  have as: "short ?as" "attr_code MESSAGE_INTEGRITY \<notin> fst ` set ?as" "length (body ?as) \<le> 1000"
    using assms(3) body by (auto simp: short_def ice_attrs_def)
  obtain all mac where all: "all = ?as @ (attr_code MESSAGE_INTEGRITY, mac) #
        fingerprint_of ?fp ?ty ?tid (?as @ [(attr_code MESSAGE_INTEGRITY, mac)])"
      and fin: "finish_message hmac ?key ?fp (header ?ty 0 ?tid @ body ?as) = Ok (message ?ty ?tid all)"
        "length (message ?ty ?tid all) \<le> length (body ?as) + 52"
      and parse: "Stun_Parse (message ?ty ?tid all) = Ok (True, parsed_message ?ty ?tid all)"
      and verify: "VerifyMessageIntegrity hmac (parsed_message ?ty ?tid all) ?key = Ok True"
        "?fp \<Longrightarrow> VerifyFingerprint (parsed_message ?ty ?tid all) = Ok True"
    by (rule finish_protected [where hmac = hmac and key = ?key and fp = ?fp and x = 0 and ty = ?ty,
          OF assms(1) EncodeType_high as assms(4,5)]; rule that; assumption)
  have built: "BuildIceBindingRequest hmac inp cap = Ok (message ?ty ?tid all)"
    using assms(3,6) fin body by (simp add: BuildIceBindingRequest_eq copy_out_def)
  let ?i = "parsed_message ?ty ?tid all"
  let ?rest = "(attr_code MESSAGE_INTEGRITY, mac) # fingerprint_of ?fp ?ty ?tid (?as @ [(attr_code MESSAGE_INTEGRITY, mac)])"
  let ?role = "(attr_code (if rq_controlling inp then ICE_CONTROLLING else ICE_CONTROLLED), enc64 (rq_tie_breaker inp))"
  let ?use = "if rq_use_candidate inp then [(attr_code USE_CANDIDATE, [])] else []"
  have l: "all = [] @ (attr_code USERNAME, ?u) # (attr_code PRIORITY, enc32 (rq_priority inp)) # ?role # ?use @ ?rest"
      "all = [(attr_code USERNAME, ?u)] @ (attr_code PRIORITY, enc32 (rq_priority inp)) # ?role # ?use @ ?rest"
      "all = [(attr_code USERNAME, ?u), (attr_code PRIORITY, enc32 (rq_priority inp))] @ ?role # ?use @ ?rest"
    by (simp_all add: ice_attrs_def all)
  have other: "t \<notin> fst ` set all" if "t \<noteq> attr_code USERNAME" "t \<noteq> attr_code PRIORITY" "t \<noteq> fst ?role"
      "t = attr_code USE_CANDIDATE \<longrightarrow> \<not> rq_use_candidate inp" "t \<in> attr_code ` {USE_CANDIDATE, ICE_CONTROLLING, ICE_CONTROLLED}" for t
    using that by (auto simp: all ice_attrs_def fingerprint_of_def split: if_splits)
  have "DecodeUsername ?i = Ok ?u" "DecodePriority ?i = Ok (rq_priority inp)"
    using decode_found(1) [OF assms(1) l(1)] decode_found(2) [OF assms(1) l(2)] assms(2) by simp_all
  moreover have "DecodeIceControlling ?i = (if rq_controlling inp then Ok (rq_tie_breaker inp) else Reject)"
    using decode_found(3) [OF assms(1) l(3)] FindAttr_none [OF other, of "attr_code ICE_CONTROLLING" ?ty ?tid]
    by (simp add: DecodeIceControlling_def)
  moreover have "DecodeIceControlled ?i = (if rq_controlling inp then Reject else Ok (rq_tie_breaker inp))"
    using decode_found(4) [OF assms(1) l(3)] FindAttr_none [OF other, of "attr_code ICE_CONTROLLED" ?ty ?tid]
    by (simp add: DecodeIceControlled_def)
  moreover have "HasUseCandidate ?i = rq_use_candidate inp"
  proof (cases "rq_use_candidate inp")
    case True
    then have u: "all = [(attr_code USERNAME, ?u), (attr_code PRIORITY, enc32 (rq_priority inp)), ?role] @
        (attr_code USE_CANDIDATE, []) # ?rest"
      by (simp add: ice_attrs_def all)
    have "\<exists>a. FindAttr ?i (attr_code USE_CANDIDATE) = Some a"
      by (rule exI, rule found_value(1) [OF assms(1) u]) (simp_all split: if_split)
    then show ?thesis
      using True by (auto simp only: HasUseCandidate_def)
  next
    case False
    then show ?thesis
      using FindAttr_none [OF other, of "attr_code USE_CANDIDATE" ?ty ?tid] by (simp add: HasUseCandidate_def)
  qed
  moreover have "IsBindingRequest ?i"
    using EncodeType_DecodeType [of 1 0] by (simp add: IsBindingRequest_def)
  ultimately show ?thesis
    using built parse verify by (intro exI [of _ "message ?ty ?tid all"] exI [of _ ?i]) simp
qed

theorem Ice_request_roundtrip_witness:
  "\<exists>buf i. BuildIceBindingRequest toy_hmac
       \<lparr>rq_txid = replicate 12 9, rq_username = [0x61, 0x3A, 0x62], rq_priority = 5, rq_controlling = True, rq_tie_breaker = 6,
        rq_use_candidate = True, rq_password = [1, 2], rq_add_fingerprint = True\<rparr> 1024 = Ok buf \<and>
     Stun_Parse buf = Ok (True, i) \<and> DecodeUsername i = Ok [0x61, 0x3A, 0x62] \<and> DecodePriority i = Ok 5 \<and>
     DecodeIceControlling i = Ok 6 \<and> HasUseCandidate i \<and> VerifyMessageIntegrity toy_hmac i [1, 2] = Ok True"
proof -
  let ?in = "\<lparr>rq_txid = replicate 12 9, rq_username = [0x61, 0x3A, 0x62], rq_priority = 5, rq_controlling = True,
      rq_tie_breaker = 6, rq_use_candidate = True, rq_password = [1, 2], rq_add_fingerprint = True\<rparr>"
  have "\<forall>d. \<exists>mac. toy_hmac (rq_password ?in) d = Some mac \<and> length mac = 20"
    by (auto simp: toy_hmac_def)
  then show ?thesis
    using Ice_request_roundtrip [of ?in toy_hmac 1024] by auto
qed

section \<open>Transport addresses\<close>

definition endpoint_ok :: "IpEndpoint \<Rightarrow> bool" where
  "endpoint_ok ep \<longleftrightarrow> length (ep_ip ep) = 16 \<and> (ep_family ep = IPv6 \<or> (ep_family ep = IPv4 \<and> drop 4 (ep_ip ep) = replicate 12 0))"

lemma xor_twice: "length a = length m \<Longrightarrow> map2 (XOR) (map2 (XOR) a m) m = a" for a m :: bytes
  by (induction a m rule: list_induct2) (simp_all add: xor.assoc)

lemma encoded_address:
  assumes "endpoint_ok ep" "length tid = 12"
  defines "v \<equiv> (if ep_family ep = IPv4 then [0, 0x01] @ enc16 (ep_port ep XOR port_mask) @ map2 (XOR) (take 4 (ep_ip ep)) cookie_bytes
                else [0, 0x02] @ enc16 (ep_port ep XOR port_mask) @ map2 (XOR) (ep_ip ep) (cookie_bytes @ tid))"
  shows "EncodeXorAddress ep tid = Ok v" "length v = (if ep_family ep = IPv4 then 8 else 20)"
  using assms(1,2) by (auto simp: EncodeXorAddress_def endpoint_ok_def slice_def cookie_bytes_def v_def Let_def)

lemma dec16_append: "2 \<le> length x \<Longrightarrow> dec16 (x @ y) = dec16 x"
  by (cases x rule: dec16.cases) auto

lemma decode_address:
  assumes "length tid = 12" "as = xs @ (attr_code XOR_MAPPED_ADDRESS, v) # ys" "attr_code XOR_MAPPED_ADDRESS \<notin> fst ` set xs"
    and "attr_code MESSAGE_INTEGRITY \<notin> fst ` set xs" "endpoint_ok ep" "EncodeXorAddress ep tid = Ok v"
  shows "DecodeXorMappedAddress (parsed_message ty tid as) =
    Ok \<lparr>xa_is_ipv6 = (ep_family ep = IPv6), xa_port = ep_port ep, xa_ip = ep_ip ep\<rparr>"
proof -
  let ?off = "24 + length (body xs)" and ?p = "message ty tid as"
  have v: "v = (if ep_family ep = IPv4 then [0, 0x01] @ enc16 (ep_port ep XOR port_mask) @ map2 (XOR) (take 4 (ep_ip ep)) cookie_bytes
                else [0, 0x02] @ enc16 (ep_port ep XOR port_mask) @ map2 (XOR) (ep_ip ep) (cookie_bytes @ tid))"
    and vl: "length v = (if ep_family ep = IPv4 then 8 else 20)"
    using encoded_address [OF assms(5,1)] assms(6) by simp_all
  note f = found_value [OF assms(1-3) disjI1 [OF assms(4)], of ty]
  obtain pre post where p: "?p = pre @ v @ post" "length pre = ?off"
    using message_split [OF assms(1)] assms(2) by metis
  have l: "2 \<le> length (drop 2 v)" "4 \<le> length v"
    using vl by simp_all
  have "?p ! (length pre + 1) = v ! 1" "dec16 (drop (length pre + 2) ?p) = dec16 (drop 2 v)"
      "drop (length pre + 4) ?p = drop 4 v @ post"
    using l unfolding p(1) by (simp_all add: nth_append dec16_append)
  note r = this [unfolded p(2)]
  have ip: "length (ep_ip ep) = 16" "ep_family ep = IPv4 \<Longrightarrow> take 4 (ep_ip ep) @ replicate 12 0 = ep_ip ep"
      "ep_family ep \<noteq> IPv4 \<Longrightarrow> ep_family ep = IPv6"
    using assms(5) append_take_drop_id [of 4 "ep_ip ep"] by (auto simp: endpoint_ok_def)
  have port: "(w XOR port_mask) XOR port_mask = w" for w
    by (simp add: xor.assoc)
  show ?thesis
  proof (cases "ep_family ep = IPv4")
    case True
    have "slice ?p (?off + 4) 4 = map2 (XOR) (take 4 (ep_ip ep)) cookie_bytes"
      unfolding slice_def r(3) using True ip(1) by (simp add: v cookie_bytes_def)
    moreover have "map2 (XOR) (map2 (XOR) (take 4 (ep_ip ep)) cookie_bytes) cookie_bytes = take 4 (ep_ip ep)"
      using ip(1) by (intro xor_twice) (simp add: cookie_bytes_def)
    ultimately show ?thesis
      using True f r ip(2) vl port v
      by (simp add: DecodeXorMappedAddress_def DecodeXorAddress_def ReadBE_eq ReadUint16BE_eq Let_def)
  next
    case False
    have "slice ?p (?off + 4) 16 = map2 (XOR) (ep_ip ep) (cookie_bytes @ tid)"
      unfolding slice_def r(3) using False ip(1) assms(1) by (simp add: v cookie_bytes_def)
    moreover have "map2 (XOR) (map2 (XOR) (ep_ip ep) (cookie_bytes @ tid)) (cookie_bytes @ tid) = ep_ip ep"
      using ip(1) assms(1) by (intro xor_twice) (simp add: cookie_bytes_def)
    ultimately show ?thesis
      using False f r ip(3) vl port v
      by (simp add: DecodeXorMappedAddress_def DecodeXorAddress_def ReadBE_eq ReadUint16BE_eq Let_def)
  qed
qed

text \<open>
  The reflexive address is not distorted.  For every IPv4 and IPv6 endpoint the binding success response built
  for a request carries the transaction identifier of the request, and the address and port the receiver decodes
  from it are the endpoint's; its integrity verifies under the key it was built with.
\<close>
theorem Ice_success_roundtrip:
  assumes "endpoint_ok (ok_mapped_addr inp)" "ok_req inp = Some req" "length (txid req) = 12" "ok_password inp \<noteq> []"
    and "\<forall>d. \<exists>mac. hmac (ok_password inp) d = Some mac \<and> length mac = 20" "128 \<le> cap"
  shows "\<exists>buf i. BuildIceBindingSuccess hmac inp cap = Ok buf \<and> Stun_Parse buf = Ok (True, i) \<and>
    IsBindingResponse i \<and> txid i = txid req \<and>
    DecodeXorMappedAddress i = Ok \<lparr>xa_is_ipv6 = (ep_family (ok_mapped_addr inp) = IPv6),
      xa_port = ep_port (ok_mapped_addr inp), xa_ip = ep_ip (ok_mapped_addr inp)\<rparr> \<and>
    VerifyMessageIntegrity hmac i (ok_password inp) = Ok True \<and> (ok_add_fingerprint inp \<longrightarrow> VerifyFingerprint i = Ok True)"
proof -
  let ?ep = "ok_mapped_addr inp" and ?tid = "txid req" and ?ty = "EncodeType 1 2" and ?key = "ok_password inp"
  let ?fp = "ok_add_fingerprint inp" and ?code = "attr_code XOR_MAPPED_ADDRESS"
  obtain v where v: "EncodeXorAddress ?ep ?tid = Ok v" "length v = (if ep_family ?ep = IPv4 then 8 else 20)"
    using encoded_address [OF assms(1,3)] by blast
  let ?as = "[(?code, v)]"
  have as: "short ?as" "attr_code MESSAGE_INTEGRITY \<notin> fst ` set ?as" "length (body ?as) \<le> 1000" "length (body ?as) \<le> 24"
    using v(2) by (auto simp: short_def Pad4_def)
  obtain all mac where all: "all = ?as @ (attr_code MESSAGE_INTEGRITY, mac) #
        fingerprint_of ?fp ?ty ?tid (?as @ [(attr_code MESSAGE_INTEGRITY, mac)])"
      and fin: "finish_message hmac ?key ?fp (header ?ty 0 ?tid @ body ?as) = Ok (message ?ty ?tid all)"
        "length (message ?ty ?tid all) \<le> length (body ?as) + 52"
      and parse: "Stun_Parse (message ?ty ?tid all) = Ok (True, parsed_message ?ty ?tid all)"
      and verify: "VerifyMessageIntegrity hmac (parsed_message ?ty ?tid all) ?key = Ok True"
        "?fp \<Longrightarrow> VerifyFingerprint (parsed_message ?ty ?tid all) = Ok True"
    by (rule finish_protected [where hmac = hmac and key = ?key and fp = ?fp and x = 0 and ty = ?ty,
          OF assms(3) EncodeType_high as(1-3) assms(4,5)]; rule that; assumption)
  have "AppendXorMappedAddressAttr (response_header SuccessResponse ?tid) ?ep ?tid = Ok (header ?ty 0 ?tid @ body ?as)"
    using v(1,2) AppendAttr_eq [of v "response_header SuccessResponse ?tid" ?code]
    by (simp add: AppendXorMappedAddressAttr_def response_header_def header_def WriteBE16_def WriteBE32_def)
  then have "BuildIceBindingSuccess hmac inp cap = Ok (message ?ty ?tid all)"
    using assms(2,6) fin as(4) by (simp add: BuildIceBindingSuccess_def copy_out_def)
  moreover have "DecodeXorMappedAddress (parsed_message ?ty ?tid all) =
      Ok \<lparr>xa_is_ipv6 = (ep_family ?ep = IPv6), xa_port = ep_port ?ep, xa_ip = ep_ip ?ep\<rparr>"
    using decode_address [OF assms(3) _ _ _ assms(1) v(1), of all "[]"] all by simp
  moreover have "IsBindingResponse (parsed_message ?ty ?tid all)"
    using EncodeType_DecodeType [of 1 2] by (simp add: IsBindingResponse_def)
  ultimately show ?thesis
    using parse verify by (intro exI [of _ "message ?ty ?tid all"] exI [of _ "parsed_message ?ty ?tid all"]) simp
qed

theorem Ice_success_roundtrip_witness:
  "\<exists>buf i. BuildIceBindingSuccess toy_hmac
       \<lparr>ok_req = Some StunMessageInfo_init, ok_mapped_addr = \<lparr>ep_family = 4, ep_port = 5000, ep_ip = [10, 0, 0, 1] @ replicate 12 0\<rparr>,
        ok_password = [1, 2], ok_add_fingerprint = True\<rparr> 128 = Ok buf \<and> Stun_Parse buf = Ok (True, i) \<and>
     DecodeXorMappedAddress i = Ok \<lparr>xa_is_ipv6 = False, xa_port = 5000, xa_ip = [10, 0, 0, 1] @ replicate 12 0\<rparr>"
proof -
  let ?in = "\<lparr>ok_req = Some StunMessageInfo_init, ok_mapped_addr = \<lparr>ep_family = 4, ep_port = 5000, ep_ip = [10, 0, 0, 1] @ replicate 12 0\<rparr>,
      ok_password = [1, 2], ok_add_fingerprint = True\<rparr>"
  have "\<forall>d. \<exists>mac. toy_hmac (ok_password ?in) d = Some mac \<and> length mac = 20"
    by (auto simp: toy_hmac_def)
  moreover have "endpoint_ok (ok_mapped_addr ?in)"
    by (simp add: endpoint_ok_def)
  ultimately show ?thesis
    using Ice_success_roundtrip [of ?in StunMessageInfo_init toy_hmac 128] by (auto simp: StunMessageInfo_init_def)
qed

section \<open>Error responses\<close>

lemma error_digits:
  assumes "unat code < 800"
  shows "ucast ((ucast (code div 100) :: u8) AND 7) * 100 + ucast (ucast (code mod 100) :: u8) = (code :: u16)"
proof -
  have "unat (code div 100) = unat code div 100" "unat (code mod 100) = unat code mod 100"
    by (simp_all add: unat_div unat_mod)
  then have u: "unat (code div 100) < 2 ^ 3" "unat (code mod 100) < 2 ^ 8"
    using assms by simp_all
  have "ucast ((ucast (code div 100) :: u8) AND 7) = code div 100"
    by (rule u16_eqI; simp add: bit_simps not_bit_small [OF u(1)])
  moreover have "ucast (ucast (code mod 100) :: u8) = code mod 100"
    by (rule u16_eqI; simp add: bit_simps not_bit_small [OF u(2)])
  ultimately show ?thesis
    by (simp add: div_mult_mod_eq)
qed

lemma Ice_error_roundtrip:
  assumes "length (txid req) = 12" "unat (err_code err) < 800" "length (err_reason err) \<le> 500" "unknown_attributes err = []"
    and "password \<noteq> []" "\<forall>d. \<exists>mac. hmac password d = Some mac \<and> length mac = 20" "1024 \<le> cap"
  shows "\<exists>buf i. BuildBindingError hmac req err password cap = Ok buf \<and> Stun_Parse buf = Ok (True, i) \<and>
    IsBindingErrorResponse i \<and> txid i = txid req \<and> DecodeErrorCode i = Ok err \<and>
    VerifyMessageIntegrity hmac i password = Ok True \<and> VerifyFingerprint i = Ok True"
proof -
  let ?tid = "txid req" and ?ty = "EncodeType 1 3" and ?code = "attr_code ERROR_CODE"
  let ?v = "[0, 0, ucast (err_code err div 100), ucast (err_code err mod 100)] @ err_reason err"
  let ?as = "[(?code, ?v)]"
  have as: "short ?as" "attr_code MESSAGE_INTEGRITY \<notin> fst ` set ?as" "length (body ?as) \<le> 1000" "length (body ?as) \<le> 600"
    using assms(3) by (auto simp: short_def Pad4_def)
  obtain all mac where all: "all = ?as @ (attr_code MESSAGE_INTEGRITY, mac) #
        fingerprint_of True ?ty ?tid (?as @ [(attr_code MESSAGE_INTEGRITY, mac)])"
      and fin: "finish_message hmac password True (header ?ty 0 ?tid @ body ?as) = Ok (message ?ty ?tid all)"
        "length (message ?ty ?tid all) \<le> length (body ?as) + 52"
      and parse: "Stun_Parse (message ?ty ?tid all) = Ok (True, parsed_message ?ty ?tid all)"
      and verify: "VerifyMessageIntegrity hmac (parsed_message ?ty ?tid all) password = Ok True"
        "True \<Longrightarrow> VerifyFingerprint (parsed_message ?ty ?tid all) = Ok True"
    by (rule finish_protected [where hmac = hmac and key = password and fp = True and x = 0 and ty = ?ty,
          OF assms(1) EncodeType_high as(1-3) assms(5,6)]; rule that; assumption)
  have "AppendAttr (response_header ErrorResponse ?tid) ?code (Some ?v) (of_nat (length ?v)) = Ok (header ?ty 0 ?tid @ body ?as)"
    using assms(3) AppendAttr_eq [of ?v "response_header ErrorResponse ?tid" ?code]
    by (simp add: response_header_def header_def WriteBE16_def WriteBE32_def)
  then have "BuildBindingError hmac req err password cap = Ok (message ?ty ?tid all)"
    using assms(4,7) fin as(4) by (simp add: BuildBindingError_def copy_out_def)
  moreover have "DecodeErrorCode (parsed_message ?ty ?tid all) = Ok err"
  proof -
    obtain pre post where p: "message ?ty ?tid all = pre @ ?v @ post" "length pre = 24"
      by (rule message_split [OF assms(1), of ?ty "[]" ?code ?v]) (use all in auto)
    have f: "FindAttr (parsed_message ?ty ?tid all) ?code = Some \<lparr>av_type = ?code, av_len = length ?v, value_offset = 24\<rparr>"
        "IsAttrInBounds (parsed_message ?ty ?tid all) \<lparr>av_type = ?code, av_len = length ?v, value_offset = 24\<rparr>"
      using found_value(1,2) [OF assms(1), of all "[]" ?code ?v _ ?ty] all by simp_all
    have "message ?ty ?tid all ! 26 = ucast (err_code err div 100)" "message ?ty ?tid all ! 27 = ucast (err_code err mod 100)"
        "slice (message ?ty ?tid all) 28 (length (err_reason err)) = err_reason err" "28 + length (err_reason err) \<le> length (message ?ty ?tid all)"
      using p(2) unfolding p(1) by (simp_all add: nth_append slice_def)
    then show ?thesis
      using f error_digits [OF assms(2)] assms(4) by (cases err) (auto simp: DecodeErrorCode_def Let_def)
  qed
  moreover have "IsBindingErrorResponse (parsed_message ?ty ?tid all)"
    using EncodeType_DecodeType [of 1 3] by (simp add: IsBindingErrorResponse_def)
  ultimately show ?thesis
    using parse verify by (intro exI [of _ "message ?ty ?tid all"] exI [of _ "parsed_message ?ty ?tid all"]) simp
qed

end
