(* ===== verification/Socket_Address.thy ===== *)
theory Socket_Address
  imports Stun_Build
begin

text \<open>
  Socket addresses (\<open>SocketAddr\<close> of \<open>src/network/UdpSocket.h\<close>).  The code keeps a \<open>sockaddr_storage\<close> and its
  length; the values it makes are the default one, without a family, and those of \<open>FromSockaddr\<close> on a
  \<open>sockaddr_in\<close> or a \<open>sockaddr_in6\<close> of its own size.  Addresses are kept in host order: an IPv4 address as a
  32-bit word, an IPv6 address as four of them.  \<open>inet_pton\<close> of the C library is a parameter.
\<close>

section \<open>Addresses\<close>

type_synonym in6_addr = "u32 \<times> u32 \<times> u32 \<times> u32"

datatype SocketAddr = NoAddr | Inet u32 u16 | Inet6 in6_addr u16 u32

fun IsV4 :: "SocketAddr \<Rightarrow> bool" where
  "IsV4 (Inet ip port) = True"
| "IsV4 _ = False"

fun IsV6 :: "SocketAddr \<Rightarrow> bool" where
  "IsV6 (Inet6 ip port scope) = True"
| "IsV6 _ = False"

definition IsValid :: "SocketAddr \<Rightarrow> bool" where
  "IsValid a \<longleftrightarrow> IsV4 a \<or> IsV6 a"

definition v4mapped :: "in6_addr \<Rightarrow> bool" where
  "v4mapped ip = (case ip of (a, b, c, d) \<Rightarrow> a = 0 \<and> b = 0 \<and> c = 0xFFFF)"

fun Normalized :: "SocketAddr \<Rightarrow> SocketAddr" where
  "Normalized (Inet6 (a, b, c, d) port scope) =
     (if v4mapped (a, b, c, d) then Inet d port else Inet6 (a, b, c, d) port scope)"
| "Normalized x = x"

definition in6_bytes :: "in6_addr \<Rightarrow> bytes" where
  "in6_bytes ip = (case ip of (a, b, c, d) \<Rightarrow> enc32 a @ enc32 b @ enc32 c @ enc32 d)"

fun IPv4Bytes :: "SocketAddr \<Rightarrow> bytes" where
  "IPv4Bytes (Inet ip port) = enc32 ip"
| "IPv4Bytes _ = []"

fun IPv6Bytes :: "SocketAddr \<Rightarrow> bytes" where
  "IPv6Bytes (Inet6 ip port scope) = in6_bytes ip"
| "IPv6Bytes _ = []"

fun Port :: "SocketAddr \<Rightarrow> u16" where
  "Port (Inet ip port) = port"
| "Port (Inet6 ip port scope) = port"
| "Port NoAddr = 0"

definition FromIPPort :: "(bytes \<Rightarrow> u32 option) \<Rightarrow> (bytes \<Rightarrow> in6_addr option) \<Rightarrow> bytes \<Rightarrow> u16 \<Rightarrow> SocketAddr" where
  "FromIPPort pton4 pton6 ip port =
     (case pton4 ip of
        Some a \<Rightarrow> Inet a port
      | None \<Rightarrow> (case pton6 ip of Some a \<Rightarrow> Inet6 a port 0 | None \<Rightarrow> NoAddr))"

text \<open>Equality as the operator decides it: a value without a family equals nothing, not even itself.\<close>

fun addr_eq :: "SocketAddr \<Rightarrow> SocketAddr \<Rightarrow> bool" where
  "addr_eq (Inet a p) (Inet b q) = (p = q \<and> a = b)"
| "addr_eq (Inet6 a p s) (Inet6 b q t) = (p = q \<and> s = t \<and> a = b)"
| "addr_eq _ _ = False"

text \<open>The bytes of an address as the STUN codec carries them, and back.\<close>

definition in6_of :: "bytes \<Rightarrow> in6_addr" where
  "in6_of bs = (dec32 bs, dec32 (drop 4 bs), dec32 (drop 8 bs), dec32 (drop 12 bs))"

section \<open>Facts\<close>

lemma IsValid_iff: "IsValid a \<longleftrightarrow> a \<noteq> NoAddr"
  by (cases a) (simp_all add: IsValid_def)

lemma addr_eq_iff: "addr_eq a b \<longleftrightarrow> a = b \<and> IsValid a"
  by (cases "(a, b)" rule: addr_eq.cases) (auto simp: IsValid_def)

lemma length_in6_bytes [simp]: "length (in6_bytes ip) = 16"
  by (simp add: in6_bytes_def split_def)

lemma in6_of_bytes [simp]: "in6_of (in6_bytes ip) = ip"
  by (simp add: in6_of_def in6_bytes_def split_def)

lemma length_IPv4Bytes [simp]: "IsV4 a \<Longrightarrow> length (IPv4Bytes a) = 4"
  by (cases a) simp_all

lemma length_IPv6Bytes [simp]: "IsV6 a \<Longrightarrow> length (IPv6Bytes a) = 16"
  by (cases a) simp_all

end
