(* ===== verification/Turn_Auth.thy ===== *)
theory Turn_Auth
  imports Turn_Codec
begin

text \<open>
  Long-term credentials of the TURN server (\<open>src/protocol/turn/TurnAuth.h\<close>, \<open>TurnAuth.cpp\<close>).  One call
  authenticates one datagram against the nonce of its session and returns a verdict, a ready error response or the
  user and the key.  HMAC-SHA1 and MD5 of OpenSSL, the password lookup, the nonce generator and the clock are
  arguments: \<open>hmac\<close>, \<open>md5\<close>, \<open>ta_lookup\<close>, the generator's answer \<open>gen\<close> (a call asks it at most once) and \<open>now\<close>.
  The lemmas show who is authorized: only requests whose credentials and integrity check out against the current
  nonce, and every such request a client builds.
\<close>

section \<open>State and results\<close>

record TurnAuthContext =
  ctx_nonce :: bytes
  nonce_issued_ms :: u64

definition TurnAuthContext_init :: TurnAuthContext where
  "TurnAuthContext_init = \<lparr>ctx_nonce = [], nonce_issued_ms = 0\<rparr>"

datatype AuthStatus = Ignored | Authorized | Response | InternalError

record TurnAuthResult =
  ar_status :: AuthStatus
  ar_error_code :: u16
  ar_response :: bytes
  ar_username :: bytes
  ar_key :: bytes

definition TurnAuthResult_init :: TurnAuthResult where
  "TurnAuthResult_init = \<lparr>ar_status = Ignored, ar_error_code = 0, ar_response = [], ar_username = [], ar_key = []\<rparr>"

record TurnAuth =
  ta_realm :: bytes
  ta_lookup :: "(bytes \<Rightarrow> bytes option) option"
  nonce_lifetime_ms :: u64

type_synonym md5_fn = "bytes \<Rightarrow> bytes option"

section \<open>Credentials\<close>

text \<open>Text is a sequence of bytes; \<open>ascii\<close> gives those of a literal.\<close>

definition ascii :: "string \<Rightarrow> bytes" where
  "ascii = map of_char"

definition IsPrintableAscii :: "bytes \<Rightarrow> bool" where
  "IsPrintableAscii v \<longleftrightarrow> list_all (\<lambda>c. 0x20 \<le> c \<and> c \<le> 0x7E) v"

definition ValidAsciiText :: "bytes \<Rightarrow> nat \<Rightarrow> bool \<Rightarrow> bool" where
  "ValidAsciiText v limit allow_empty \<longleftrightarrow> (allow_empty \<or> v \<noteq> []) \<and> length v \<le> limit \<and> IsPrintableAscii v"

definition TextAttribute :: "AttrType \<Rightarrow> bytes \<Rightarrow> StunAttribute" where
  "TextAttribute ty v = \<lparr>sa_type = attr_code ty, sa_value = v\<rparr>"

definition auth_internal_error :: TurnAuthResult where
  "auth_internal_error = TurnAuthResult_init\<lparr>ar_status := InternalError, ar_error_code := 500\<rparr>"

definition SupportedRequest :: "StunMessageInfo \<Rightarrow> bool" where
  "SupportedRequest m \<longleftrightarrow> msg_klass m = class_code Request \<and>
     (msg_method m = method_code Allocate \<or> msg_method m = method_code Refresh \<or>
      msg_method m = method_code CreatePermission \<or> msg_method m = method_code ChannelBind)"

definition DerivePreparedLegacyKey :: "md5_fn \<Rightarrow> bytes \<Rightarrow> bytes \<Rightarrow> bytes \<Rightarrow> bytes option" where
  "DerivePreparedLegacyKey md5 username realm password =
     (if username = [] \<or> realm = [] \<or> length username > 512 \<or> length realm > 763 \<or> length password > 763 \<or>
         0 \<in> set username \<or> 0 \<in> set realm \<or> 0 \<in> set password then None
      else case md5 (username @ ascii '':'' @ realm @ ascii '':'' @ password) of
        None \<Rightarrow> None
      | Some digest \<Rightarrow> if length digest = 16 then Some digest else None)"

section \<open>The nonce\<close>

definition NonceExpired :: "TurnAuth \<Rightarrow> TurnAuthContext \<Rightarrow> u64 \<Rightarrow> bool" where
  "NonceExpired ta ctx now \<longleftrightarrow>
     ctx_nonce ctx = [] \<or> (now \<ge> nonce_issued_ms ctx \<and> now - nonce_issued_ms ctx \<ge> nonce_lifetime_ms ta)"

definition EnsureNonce :: "TurnAuth \<Rightarrow> bytes option \<Rightarrow> TurnAuthContext \<Rightarrow> u64 \<Rightarrow> bool \<times> TurnAuthContext" where
  "EnsureNonce ta gen ctx now =
     (if \<not> NonceExpired ta ctx now then (True, ctx)
      else case gen of
        None \<Rightarrow> (False, ctx)
      | Some nonce \<Rightarrow>
          if \<not> ValidAsciiText nonce 763 False \<or> nonce = ctx_nonce ctx then (False, ctx)
          else (True, \<lparr>ctx_nonce = nonce, nonce_issued_ms = now\<rparr>))"

section \<open>Authentication\<close>

definition auth_response :: "hmac_fn \<Rightarrow> StunMessageInfo \<Rightarrow> u16 \<Rightarrow> StunAttribute list \<Rightarrow> TurnAuthContext \<Rightarrow>
    (TurnAuthResult \<times> TurnAuthContext) outcome" where
  "auth_response hmac request code attributes ctx =
     (case BuildMessage hmac (msg_method request) (class_code ErrorResponse) (txid request) attributes [] True of
        Fault \<Rightarrow> Fault
      | Reject \<Rightarrow> Ok (auth_internal_error, ctx)
      | Ok resp \<Rightarrow> Ok (TurnAuthResult_init\<lparr>ar_status := Response, ar_error_code := code, ar_response := resp\<rparr>, ctx))"

definition auth_ErrorResponse :: "hmac_fn \<Rightarrow> TurnAuth \<Rightarrow> bytes option \<Rightarrow> StunMessageInfo \<Rightarrow> u16 \<Rightarrow> string \<Rightarrow>
    TurnAuthContext \<Rightarrow> u64 \<Rightarrow> (TurnAuthResult \<times> TurnAuthContext) outcome" where
  "auth_ErrorResponse hmac ta gen request code reason ctx now =
     (let err = \<lparr>sa_type = attr_code ERROR_CODE, sa_value = [0, 0, ucast (code div 100), ucast (code mod 100)] @ ascii reason\<rparr>
      in if code = 401 \<or> code = 438
         then (case EnsureNonce ta gen ctx now of
                 (False, ctx) \<Rightarrow> Ok (auth_internal_error, ctx)
               | (True, ctx) \<Rightarrow> auth_response hmac request code
                   [err, TextAttribute REALM (ta_realm ta), TextAttribute NONCE (ctx_nonce ctx)] ctx)
         else auth_response hmac request code [err] ctx)"

definition IsConfigured :: "TurnAuth \<Rightarrow> bool" where
  "IsConfigured ta \<longleftrightarrow> ValidAsciiText (ta_realm ta) 127 False \<and> ta_lookup ta \<noteq> None \<and> nonce_lifetime_ms ta \<noteq> 0"

definition count_attr :: "AttrType \<Rightarrow> AttrView list \<Rightarrow> nat" where
  "count_attr ty as = length (filter (\<lambda>a. av_type a = attr_code ty) as)"

definition before_integrity :: "AttrView list \<Rightarrow> AttrView list" where
  "before_integrity as = takeWhile (\<lambda>a. av_type a \<noteq> attr_code MESSAGE_INTEGRITY) as"

text \<open>Dereferencing the result of a lookup that found nothing is \<open>Fault\<close>.\<close>

definition found_attr_value :: "StunMessageInfo \<Rightarrow> AttrType \<Rightarrow> bytes outcome" where
  "found_attr_value m ty = (case FindAttr m (attr_code ty) of None \<Rightarrow> Fault | Some a \<Rightarrow> AttrValue m a)"

definition auth_verify :: "hmac_fn \<Rightarrow> md5_fn \<Rightarrow> TurnAuth \<Rightarrow> bytes option \<Rightarrow> StunMessageInfo \<Rightarrow> bytes \<Rightarrow>
    TurnAuthContext \<Rightarrow> u64 \<Rightarrow> (TurnAuthResult \<times> TurnAuthContext) outcome" where
  "auth_verify hmac md5 ta gen m username ctx now =
     (case ta_lookup ta of
        None \<Rightarrow> Fault
      | Some lookup \<Rightarrow> (case lookup username of
          None \<Rightarrow> auth_ErrorResponse hmac ta gen m 401 ''Unauthorized'' ctx now
        | Some password \<Rightarrow>
            (case if ValidAsciiText password 763 True then DerivePreparedLegacyKey md5 username (ta_realm ta) password else None of
               None \<Rightarrow> Ok (auth_internal_error, ctx)
             | Some key \<Rightarrow>
                 bind_outcome (VerifyMessageIntegrity hmac m key) (\<lambda>ok.
                   if \<not> ok then auth_ErrorResponse hmac ta gen m 401 ''Unauthorized'' ctx now
                   else Ok (TurnAuthResult_init\<lparr>ar_status := Authorized, ar_username := username, ar_key := key\<rparr>, ctx)))))"

definition auth_credentials :: "hmac_fn \<Rightarrow> md5_fn \<Rightarrow> TurnAuth \<Rightarrow> bytes option \<Rightarrow> StunMessageInfo \<Rightarrow>
    TurnAuthContext \<Rightarrow> u64 \<Rightarrow> (TurnAuthResult \<times> TurnAuthContext) outcome" where
  "auth_credentials hmac md5 ta gen m ctx now =
     (let as = before_integrity (attrs m) in
      if count_attr USERNAME as \<noteq> 1 \<or> count_attr REALM as \<noteq> 1 \<or> count_attr NONCE as \<noteq> 1
      then auth_ErrorResponse hmac ta gen m 400 ''Missing or duplicate credentials'' ctx now
      else
        bind_outcome (found_attr_value m USERNAME) (\<lambda>username.
        bind_outcome (found_attr_value m REALM) (\<lambda>realm.
        bind_outcome (found_attr_value m NONCE) (\<lambda>nonce.
          if \<not> ValidAsciiText username 512 False \<or> \<not> ValidAsciiText realm 127 False \<or> \<not> ValidAsciiText nonce 763 False
          then auth_ErrorResponse hmac ta gen m 400 ''Bad credential encoding'' ctx now
          else if realm \<noteq> ta_realm ta then auth_ErrorResponse hmac ta gen m 401 ''Unauthorized'' ctx now
          else if NonceExpired ta ctx now \<or> nonce \<noteq> ctx_nonce ctx
          then auth_ErrorResponse hmac ta gen m 438 ''Stale Nonce'' ctx now
          else auth_verify hmac md5 ta gen m username ctx now))))"

definition Authenticate :: "hmac_fn \<Rightarrow> md5_fn \<Rightarrow> TurnAuth \<Rightarrow> bytes option \<Rightarrow> u64 \<Rightarrow> bytes \<Rightarrow> TurnAuthContext \<Rightarrow>
    (TurnAuthResult \<times> TurnAuthContext) outcome" where
  "Authenticate hmac md5 ta gen now p ctx =
     (case ParseStunDatagram p of
        Fault \<Rightarrow> Fault
      | Reject \<Rightarrow> Ok (TurnAuthResult_init, ctx)
      | Ok m \<Rightarrow>
          if \<not> SupportedRequest m then Ok (TurnAuthResult_init, ctx)
          else if \<not> IsConfigured ta then Ok (auth_internal_error, ctx)
          else
            let fingerprints = count_attr FINGERPRINT (attrs m);
                integrities = count_attr MESSAGE_INTEGRITY (attrs m)
            in bind_outcome (if fingerprints = 0 then Ok True
                             else if fingerprints \<noteq> 1 then Ok False else VerifyFingerprint m) (\<lambda>intact.
              if \<not> intact then Ok (TurnAuthResult_init, ctx)
              else if integrities > 1 \<or> HasAttr m (attr_code MESSAGE_INTEGRITY_SHA256)
              then auth_ErrorResponse hmac ta gen m 400 ''Unsupported integrity attributes'' ctx now
              else case FindAttr m (attr_code MESSAGE_INTEGRITY) of
                None \<Rightarrow> auth_ErrorResponse hmac ta gen m 401 ''Unauthorized'' ctx now
              | Some integrity \<Rightarrow>
                  if av_len integrity \<noteq> 20 then auth_ErrorResponse hmac ta gen m 400 ''Bad MESSAGE-INTEGRITY'' ctx now
                  else auth_credentials hmac md5 ta gen m ctx now))"

section \<open>No request faults\<close>

lemma BuildMessage_safe:
  assumes "length tid = 12"
  shows "BuildMessage hmac m c tid as key fp \<noteq> Fault"
proof (cases "\<exists>k. body_size_loop as ((if key = [] then 0 else 24) + (if fp then 8 else 0)) = Ok k")
  case True
  then obtain k where k: "body_size_loop as ((if key = [] then 0 else 24) + (if fp then 8 else 0)) = Ok k"
    by blast
  show ?thesis
  proof (cases "m > 0x0FFF \<or> c > 3 \<or> length key > 0x7FFFFFFF")
    case True
    then show ?thesis
      unfolding BuildMessage_def by simp
  next
    case False
    then show ?thesis
      using BuildMessage_eq [OF assms _ _ _ k, of m c hmac] by (auto simp: not_less split: option.split)
  qed
next
  case False
  have "body_size_loop as n \<noteq> Fault" for n
    by (induction as arbitrary: n) (simp_all add: Let_def)
  then show ?thesis
    using False by (auto simp: BuildMessage_def bind_Fault_iff split: if_splits)
qed

lemma ParseStunDatagram_txid: "ParseStunDatagram p = Ok m \<Longrightarrow> length (txid m) = 12"
  using ParseStunDatagramE(1,4) [of p m] Stun_ParseE(7,8) [of p True m p] by simp

lemma auth_ErrorResponse_cases:
  assumes "length (txid m) = 12"
  shows "\<exists>r ctx'. auth_ErrorResponse hmac ta gen m code reason ctx now = Ok (r, ctx') \<and> ar_status r \<in> {Response, InternalError}"
proof -
  have r: "\<exists>r ctx''. auth_response hmac m code as ctx' = Ok (r, ctx'') \<and> ar_status r \<in> {Response, InternalError}" for as ctx'
    using BuildMessage_safe [OF assms, of hmac "msg_method m" "class_code ErrorResponse" as "[]" True]
    by (auto simp: auth_response_def auth_internal_error_def split: outcome.split)
  show ?thesis
  proof (cases "code = 401 \<or> code = 438")
    case True
    then show ?thesis
      using r by (cases "EnsureNonce ta gen ctx now"; cases "fst (EnsureNonce ta gen ctx now)")
        (simp_all add: auth_ErrorResponse_def auth_internal_error_def Let_def)
  next
    case False
    then show ?thesis
      using r by (simp add: auth_ErrorResponse_def Let_def)
  qed
qed

lemma VerifyMessageIntegrity_Ok: "msg_inside m \<Longrightarrow> \<exists>ok. VerifyMessageIntegrity hmac m key = Ok ok"
  using VerifyMessageIntegrity_safe [of m hmac key]
  by (cases "VerifyMessageIntegrity hmac m key")
    (auto simp: VerifyMessageIntegrity_def rd_slice_def store_def Let_def split: option.splits if_splits)

lemma VerifyFingerprint_Ok: "msg_inside m \<Longrightarrow> \<exists>ok. VerifyFingerprint m = Ok ok"
  using VerifyFingerprint_safe [of m]
  by (cases "VerifyFingerprint m") (auto simp: VerifyFingerprint_def rd_simps rd_slice_def Let_def split: option.splits if_splits)

lemma AttrValue_found:
  assumes "msg_inside m" "FindAttr m t = Some a" "msg_raw m = Some p"
  shows "AttrValue m a = Ok (slice p (value_offset a) (av_len a))"
  using FindAttr_inside [OF assms(1,2)] assms(3) by (auto simp: AttrValue_def attr_inside_def)

lemma count_before_found:
  assumes "0 < count_attr ty (before_integrity as)"
  shows "find_attr (attr_code ty) as \<noteq> None"
  using assms by (induction as) (auto simp: count_attr_def before_integrity_def split: if_splits)

lemma found_attr_value_Ok:
  assumes "ParseStunDatagram p = Ok m" "0 < count_attr ty (before_integrity (attrs m))"
  obtains a where "FindAttr m (attr_code ty) = Some a" "found_attr_value m ty = Ok (slice p (value_offset a) (av_len a))"
proof -
  obtain a where a: "FindAttr m (attr_code ty) = Some a"
    using count_before_found [OF assms(2)] by (auto simp: FindAttr_def)
  then show thesis
    using that [OF a] AttrValue_found [OF ParseStunDatagramE(3) [OF assms(1)] a ParseStunDatagramE(4) [OF assms(1)]]
    by (simp add: found_attr_value_def)
qed

text \<open>The verdict of the last check: authorized exactly with the right key.\<close>

lemma auth_verify_cases:
  assumes "ParseStunDatagram p = Ok m" "IsConfigured ta"
  obtains r ctx' where "auth_verify hmac md5 ta gen m username ctx now = Ok (r, ctx')"
    "ar_status r = Authorized \<Longrightarrow> ctx' = ctx \<and> ar_username r = username \<and>
       (\<exists>lookup password. ta_lookup ta = Some lookup \<and> lookup username = Some password \<and>
         DerivePreparedLegacyKey md5 username (ta_realm ta) password = Some (ar_key r)) \<and>
       VerifyMessageIntegrity hmac m (ar_key r) = Ok True"
proof -
  obtain lookup where l: "ta_lookup ta = Some lookup"
    using assms(2) by (auto simp: IsConfigured_def)
  obtain e c where e: "auth_ErrorResponse hmac ta gen m 401 ''Unauthorized'' ctx now = Ok (e, c)" "ar_status e \<noteq> Authorized"
    using auth_ErrorResponse_cases [OF ParseStunDatagram_txid [OF assms(1)], of hmac ta gen 401 "''Unauthorized''" ctx now] by force
  consider "lookup username = None" | pw where "lookup username = Some pw" "\<not> ValidAsciiText pw 763 True \<or> DerivePreparedLegacyKey md5 username (ta_realm ta) pw = None"
    | pw key where "lookup username = Some pw" "ValidAsciiText pw 763 True" "DerivePreparedLegacyKey md5 username (ta_realm ta) pw = Some key"
    by (metis option.exhaust)
  then show thesis
  proof cases
    case 1
    then show thesis
      using l e by (intro that [of e c]) (simp_all add: auth_verify_def)
  next
    case 2
    then show thesis
      using l by (intro that [of auth_internal_error ctx]) (auto simp: auth_verify_def auth_internal_error_def)
  next
    case 3
    obtain ok where "VerifyMessageIntegrity hmac m key = Ok ok"
      using VerifyMessageIntegrity_Ok [OF ParseStunDatagramE(3) [OF assms(1)]] by blast
    then show thesis
      using 3 l e
      by (cases ok; intro that [of "if ok then TurnAuthResult_init\<lparr>ar_status := Authorized, ar_username := username, ar_key := key\<rparr> else e" "if ok then ctx else c"])
        (auto simp: auth_verify_def)
  qed
qed

text \<open>What an authorization rests on.\<close>

definition key_of :: "md5_fn \<Rightarrow> TurnAuth \<Rightarrow> bytes \<Rightarrow> bytes \<Rightarrow> bool" where
  "key_of md5 ta username key \<longleftrightarrow> (\<exists>lookup password. ta_lookup ta = Some lookup \<and> lookup username = Some password \<and>
     DerivePreparedLegacyKey md5 username (ta_realm ta) password = Some key)"

definition auth_evidence :: "hmac_fn \<Rightarrow> md5_fn \<Rightarrow> TurnAuth \<Rightarrow> TurnAuthContext \<Rightarrow> u64 \<Rightarrow> StunMessageInfo \<Rightarrow> bytes \<Rightarrow> bytes \<Rightarrow> bool" where
  "auth_evidence hmac md5 ta ctx now m username key \<longleftrightarrow>
     \<not> NonceExpired ta ctx now \<and> found_attr_value m USERNAME = Ok username \<and>
     found_attr_value m REALM = Ok (ta_realm ta) \<and> found_attr_value m NONCE = Ok (ctx_nonce ctx) \<and>
     ValidAsciiText username 512 False \<and> key_of md5 ta username key \<and> VerifyMessageIntegrity hmac m key = Ok True"

lemma auth_credentials_cases:
  assumes "ParseStunDatagram p = Ok m" "IsConfigured ta"
  shows "\<exists>r ctx'. auth_credentials hmac md5 ta gen m ctx now = Ok (r, ctx') \<and>
    (ar_status r = Authorized \<longrightarrow> ctx' = ctx \<and> auth_evidence hmac md5 ta ctx now m (ar_username r) (ar_key r))"
proof -
  have e: "\<exists>r ctx'. auth_ErrorResponse hmac ta gen m code reason ctx now = Ok (r, ctx') \<and>
      (ar_status r = Authorized \<longrightarrow> ctx' = ctx \<and> auth_evidence hmac md5 ta ctx now m (ar_username r) (ar_key r))" for code reason
    using auth_ErrorResponse_cases [OF ParseStunDatagram_txid [OF assms(1)], of hmac ta gen code reason ctx now] by force
  let ?n = "\<lambda>ty. count_attr ty (before_integrity (attrs m)) = 1"
  show ?thesis
  proof (cases "?n USERNAME \<and> ?n REALM \<and> ?n NONCE")
    case True
    obtain u where u: "found_attr_value m USERNAME = Ok u"
      using found_attr_value_Ok [OF assms(1), of USERNAME] True by auto
    obtain rl where rl: "found_attr_value m REALM = Ok rl"
      using found_attr_value_Ok [OF assms(1), of REALM] True by auto
    obtain n where n: "found_attr_value m NONCE = Ok n"
      using found_attr_value_Ok [OF assms(1), of NONCE] True by auto
    obtain r ctx' where v: "auth_verify hmac md5 ta gen m u ctx now = Ok (r, ctx')"
      "ar_status r = Authorized \<longrightarrow> ctx' = ctx \<and> ar_username r = u \<and> key_of md5 ta u (ar_key r) \<and>
         VerifyMessageIntegrity hmac m (ar_key r) = Ok True"
      by (rule auth_verify_cases [OF assms, of hmac md5 gen u ctx now]) (auto simp: key_of_def)
    show ?thesis
    proof (cases "ValidAsciiText u 512 False \<and> ValidAsciiText rl 127 False \<and> ValidAsciiText n 763 False \<and> rl = ta_realm ta \<and>
        \<not> NonceExpired ta ctx now \<and> n = ctx_nonce ctx")
      case t: True
      then have "auth_credentials hmac md5 ta gen m ctx now = Ok (r, ctx')"
        using True u rl n v(1) by (auto simp: auth_credentials_def)
      then show ?thesis
        using v(2) u rl n t by (auto simp: auth_evidence_def)
    next
      case False
      then show ?thesis
        using True u rl n by (auto simp: auth_credentials_def intro!: e)
    qed
  next
    case False
    then show ?thesis
      by (auto simp: auth_credentials_def Let_def intro!: e)
  qed
qed

lemma Authenticate_cases:
  "\<exists>r ctx'. Authenticate hmac md5 ta gen now p ctx = Ok (r, ctx') \<and>
    (ar_status r = Authorized \<longrightarrow> ctx' = ctx \<and>
      (\<exists>m. ParseStunDatagram p = Ok m \<and> SupportedRequest m \<and> IsConfigured ta \<and>
         auth_evidence hmac md5 ta ctx now m (ar_username r) (ar_key r)))"
proof (cases "ParseStunDatagram p")
  case (Ok m)
  have e: "\<exists>r ctx'. auth_ErrorResponse hmac ta gen m code reason ctx now = Ok (r, ctx') \<and>
      (ar_status r = Authorized \<longrightarrow> ctx' = ctx \<and> auth_evidence hmac md5 ta ctx now m (ar_username r) (ar_key r))" for code reason
    using auth_ErrorResponse_cases [OF ParseStunDatagram_txid [OF Ok], of hmac ta gen code reason ctx now] by force
  note f = VerifyFingerprint_Ok [OF ParseStunDatagramE(3) [OF Ok]]
  show ?thesis
  proof (cases "SupportedRequest m \<and> IsConfigured ta")
    case True
    let ?intact = "if count_attr FINGERPRINT (attrs m) = 0 then Ok True
      else if count_attr FINGERPRINT (attrs m) \<noteq> 1 then Ok False else VerifyFingerprint m"
    have "\<exists>intact. ?intact = Ok intact"
      using f by auto
    then obtain intact where i: "?intact = Ok intact"
      by blast
    let ?rest = "\<lambda>intact. if \<not> intact then Ok (TurnAuthResult_init, ctx)
        else if count_attr MESSAGE_INTEGRITY (attrs m) > 1 \<or> HasAttr m (attr_code MESSAGE_INTEGRITY_SHA256)
        then auth_ErrorResponse hmac ta gen m 400 ''Unsupported integrity attributes'' ctx now
        else case FindAttr m (attr_code MESSAGE_INTEGRITY) of
          None \<Rightarrow> auth_ErrorResponse hmac ta gen m 401 ''Unauthorized'' ctx now
        | Some integrity \<Rightarrow>
            if av_len integrity \<noteq> 20 then auth_ErrorResponse hmac ta gen m 400 ''Bad MESSAGE-INTEGRITY'' ctx now
            else auth_credentials hmac md5 ta gen m ctx now"
    have "\<exists>r ctx'. ?rest intact = Ok (r, ctx') \<and>
        (ar_status r = Authorized \<longrightarrow> ctx' = ctx \<and> auth_evidence hmac md5 ta ctx now m (ar_username r) (ar_key r))"
      using auth_credentials_cases [OF Ok, of ta hmac md5 gen ctx now] True
      by (auto simp: TurnAuthResult_init_def split: option.split intro!: e)
    moreover have "Authenticate hmac md5 ta gen now p ctx = bind_outcome ?intact ?rest"
      using Ok True by (simp add: Authenticate_def Let_def)
    ultimately have "\<exists>r ctx'. Authenticate hmac md5 ta gen now p ctx = Ok (r, ctx') \<and>
        (ar_status r = Authorized \<longrightarrow> ctx' = ctx \<and> auth_evidence hmac md5 ta ctx now m (ar_username r) (ar_key r))"
      unfolding i bind_outcome.simps by (simp only:)
    then show ?thesis
      using Ok True by blast
  next
    case False
    then show ?thesis
      using Ok by (auto simp: Authenticate_def TurnAuthResult_init_def auth_internal_error_def)
  qed
qed (simp_all add: Authenticate_def TurnAuthResult_init_def ParseStunDatagram_safe)

text \<open>
  C7: nobody is authorized without the credentials of the current nonce.  Every datagram gets a verdict, without a
  read outside it.  When the verdict is authorized, the datagram is one of the four TURN requests, the session's
  nonce is present and unexpired, and there is data \<open>d\<close> whose HMAC, under the key derived from the user's password,
  is the datagram's integrity value, such that the type, the transaction, the user name, the server's realm and the
  session's current nonce all stand in \<open>d\<close>, at the places where they are read in the datagram.
\<close>
theorem Authorized_only_with_credentials:
  assumes "Authenticate hmac md5 ta gen now p ctx = Ok (r, ctx')" "ar_status r = Authorized"
  shows "\<exists>m d. ParseStunDatagram p = Ok m \<and> SupportedRequest m \<and> ctx' = ctx \<and> \<not> NonceExpired ta ctx now \<and>
    key_of md5 ta (ar_username r) (ar_key r) \<and> hmac (ar_key r) d = Some (slice p (length d + 4) 20) \<and>
    dec16 d = type_raw m \<and> slice d 8 12 = txid m \<and>
    (\<forall>(ty, v) \<in> {(USERNAME, ar_username r), (REALM, ta_realm ta), (NONCE, ctx_nonce ctx)}.
       \<exists>a. FindAttr m (attr_code ty) = Some a \<and> value_offset a + av_len a \<le> length d \<and>
         slice d (value_offset a) (av_len a) = v \<and> slice p (value_offset a) (av_len a) = v)"
proof -
  obtain m where m: "ParseStunDatagram p = Ok m" "SupportedRequest m" "ctx' = ctx"
    and ev: "auth_evidence hmac md5 ta ctx now m (ar_username r) (ar_key r)"
    using Authenticate_cases [of hmac md5 ta gen now p ctx] assms by auto
  note pm = ParseStunDatagramE [OF m(1)]
  show ?thesis
  proof (rule integrity_covers [OF pm(1), of hmac "ar_key r"])
    show "VerifyMessageIntegrity hmac m (ar_key r) = Ok True"
      using ev by (simp add: auth_evidence_def)
  next
    fix d
    assume d: "hmac (ar_key r) d = Some (slice p (length d + 4) 20)" "dec16 d = type_raw m" "slice d 8 12 = txid m"
      and cov: "\<And>t a. FindAttr m t = Some a \<Longrightarrow> t \<noteq> attr_code MESSAGE_INTEGRITY \<Longrightarrow> t \<noteq> attr_code FINGERPRINT \<Longrightarrow>
        value_offset a + av_len a \<le> length d \<and> slice d (value_offset a) (av_len a) = slice p (value_offset a) (av_len a)"
    have "\<exists>a. FindAttr m (attr_code ty) = Some a \<and> value_offset a + av_len a \<le> length d \<and>
        slice d (value_offset a) (av_len a) = v \<and> slice p (value_offset a) (av_len a) = v"
      if f: "found_attr_value m ty = Ok v" and ty: "ty \<in> {USERNAME, REALM, NONCE}" for ty v
    proof -
      obtain a where a: "FindAttr m (attr_code ty) = Some a" "AttrValue m a = Ok v"
        using f by (auto simp: found_attr_value_def split: option.splits)
      then have "v = slice p (value_offset a) (av_len a)"
        using AttrValue_found [OF pm(3) a(1) pm(4)] by simp
      then show ?thesis
        using a(1) cov [OF a(1)] ty by auto
    qed
    note at = this [of USERNAME "ar_username r"] this [of REALM "ta_realm ta"] this [of NONCE "ctx_nonce ctx"]
    show ?thesis
      using m d ev at by (intro exI [of _ m] exI [of _ d]) (simp add: auth_evidence_def)
  qed
qed

section \<open>A client with the right password\<close>

lemma count_attr_views: "count_attr ty (views off as) = length (filter (\<lambda>a. fst a = attr_code ty) as)"
  by (induction as arbitrary: off) (simp_all add: count_attr_def)

lemma before_integrity_views:
  assumes "attr_code MESSAGE_INTEGRITY \<notin> fst ` set as"
  shows "before_integrity (views off (as @ (attr_code MESSAGE_INTEGRITY, v) # ys)) = views off as"
  using assms by (induction as arbitrary: off) (auto simp: before_integrity_def)

lemma find_behind_integrity:
  assumes "t \<notin> fst ` set as" "t \<noteq> attr_code MESSAGE_INTEGRITY" "t \<noteq> attr_code FINGERPRINT"
  shows "find_attr t (views off (as @ (attr_code MESSAGE_INTEGRITY, v) # ys)) = None"
  using assms by (induction as arbitrary: off) auto

lemma single_attr:
  assumes "filter (\<lambda>a. sa_type a = t) as = [\<lparr>sa_type = t, sa_value = v\<rparr>]" "length tid = 12"
    and "attr_code MESSAGE_INTEGRITY \<notin> sa_type ` set as"
  shows "\<exists>a. FindAttr (parsed_message ty tid (map attr_pair as @ ys)) t = Some a \<and>
    AttrValue (parsed_message ty tid (map attr_pair as @ ys)) a = Ok v"
proof -
  obtain us vs where us: "as = us @ \<lparr>sa_type = t, sa_value = v\<rparr> # vs" "\<forall>a \<in> set us. sa_type a \<noteq> t"
    using assms(1) by (auto simp: filter_eq_Cons_iff)
  let ?m = "parsed_message ty tid (map attr_pair as @ ys)"
  have "map attr_pair as @ ys = map attr_pair us @ (t, v) # (map attr_pair vs @ ys)" "t \<notin> fst ` set (map attr_pair us)"
      "attr_code MESSAGE_INTEGRITY \<notin> fst ` set (map attr_pair us) \<or> t = attr_code FINGERPRINT"
    using us assms(3) by (auto simp: image_image)
  note f = found_value [OF assms(2) this, of ty]
  then show ?thesis
    by (auto simp: AttrValue_def IsAttrInBounds_def)
qed

lemma right_password_authorized:
  assumes "IsConfigured ta" "ta_lookup ta = Some lookup" "lookup u = Some password" "ValidAsciiText u 512 False"
    and "ValidAsciiText password 763 True" "DerivePreparedLegacyKey md5 u (ta_realm ta) password = Some key"
    and "\<not> NonceExpired ta ctx now" "ValidAsciiText (ctx_nonce ctx) 763 False" "length tid = 12"
    and "mt \<in> {Allocate, Refresh, CreatePermission, ChannelBind}"
    and "filter (\<lambda>a. sa_type a = attr_code USERNAME) as = [TextAttribute USERNAME u]"
    and "filter (\<lambda>a. sa_type a = attr_code REALM) as = [TextAttribute REALM (ta_realm ta)]"
    and "filter (\<lambda>a. sa_type a = attr_code NONCE) as = [TextAttribute NONCE (ctx_nonce ctx)]"
    and "BuildMessage hmac (method_code mt) (class_code Request) tid as key fp = Ok p"
  shows "Authenticate hmac md5 ta gen now p ctx =
    Ok (TurnAuthResult_init\<lparr>ar_status := Authorized, ar_username := u, ar_key := key\<rparr>, ctx)"
proof (rule built_message [OF assms(9,14)])
  let ?ty = "EncodeType (method_code mt) (class_code Request)" and ?es = "map attr_pair as"
  fix mi all
  assume b: "integrity_of hmac key ?ty tid ?es = Some mi" "all = ?es @ mi @ fingerprint_of fp ?ty tid (?es @ mi)"
      "p = message ?ty tid all" "Stun_Parse p = Ok (True, parsed_message ?ty tid all)" "DecodeType ?ty = (method_code mt, class_code Request)"
    and no: "attr_code MESSAGE_INTEGRITY \<notin> sa_type ` set as" "attr_code MESSAGE_INTEGRITY_SHA256 \<notin> sa_type ` set as"
      "attr_code FINGERPRINT \<notin> sa_type ` set as"
    and v: "key \<noteq> [] \<Longrightarrow> VerifyMessageIntegrity hmac (parsed_message ?ty tid all) key = Ok True"
      "fp \<Longrightarrow> VerifyFingerprint (parsed_message ?ty tid all) = Ok True"
  let ?m = "parsed_message ?ty tid all"
  have key: "key \<noteq> []"
    using assms(6) by (auto simp: DerivePreparedLegacyKey_def split: if_splits option.splits)
  obtain mac where mac: "mi = [(attr_code MESSAGE_INTEGRITY, mac)]" "length mac = 20"
    using b(1) key by (auto simp: integrity_of_def ComputeMessageIntegrity_def split: option.splits if_splits)
  define fps where "fps = fingerprint_of fp ?ty tid (?es @ mi)"
  have all: "all = ?es @ (attr_code MESSAGE_INTEGRITY, mac) # fps"
    using b(2) mac(1) by (simp add: fps_def)
  have nes: "t \<notin> sa_type ` set as \<Longrightarrow> t \<notin> fst ` set ?es" for t
    by (simp add: image_image)
  have p: "ParseStunDatagram p = Ok ?m"
    using b(3,4) by (simp add: ParseStunDatagram_def)
  have sup: "SupportedRequest ?m"
    using b(5) assms(10) by (auto simp: SupportedRequest_def)
  have counts: "count_attr FINGERPRINT (attrs ?m) = (if fp then 1 else 0)" "count_attr MESSAGE_INTEGRITY (attrs ?m) = 1"
    using no by (auto simp: count_attr_views all filter_empty_conv fps_def fingerprint_of_def)
  have sha: "\<not> HasAttr ?m (attr_code MESSAGE_INTEGRITY_SHA256)"
    using find_behind_integrity [OF nes [OF no(2)]] by (simp add: HasAttr_def FindAttr_def all)
  have fi: "FindAttr ?m (attr_code MESSAGE_INTEGRITY) = Some \<lparr>av_type = attr_code MESSAGE_INTEGRITY, av_len = length mac, value_offset = 24 + length (body ?es)\<rparr>"
    using found_value(1) [OF assms(9) all nes [OF no(1)] disjI1 [OF nes [OF no(1)]]] .
  have before: "before_integrity (attrs ?m) = views 24 ?es"
    using before_integrity_views [OF nes [OF no(1)]] by (simp add: all)
  have one: "count_attr ty (before_integrity (attrs ?m)) = 1 \<and> found_attr_value ?m ty = Ok v"
    if f: "filter (\<lambda>a. sa_type a = attr_code ty) as = [TextAttribute ty v]" for ty v
  proof
    show "count_attr ty (before_integrity (attrs ?m)) = 1"
      unfolding before count_attr_views using arg_cong [OF f, of length] by (simp add: filter_map comp_def)
    show "found_attr_value ?m ty = Ok v"
      using single_attr [OF f [unfolded TextAttribute_def] assms(9) no(1), of ?ty "(attr_code MESSAGE_INTEGRITY, mac) # fps"]
      unfolding all found_attr_value_def by (auto simp del: attr_code.simps)
  qed
  note u = one [OF assms(11)] and r = one [OF assms(12)] and n = one [OF assms(13)]
  have "auth_verify hmac md5 ta gen ?m u ctx now = Ok (TurnAuthResult_init\<lparr>ar_status := Authorized, ar_username := u, ar_key := key\<rparr>, ctx)"
    using assms(2,3,5,6) v(1) [OF key] by (simp add: auth_verify_def)
  then have "auth_credentials hmac md5 ta gen ?m ctx now = Ok (TurnAuthResult_init\<lparr>ar_status := Authorized, ar_username := u, ar_key := key\<rparr>, ctx)"
    using u r n assms(1,4,7,8) by (simp add: auth_credentials_def IsConfigured_def del: parsed_message_simps)
  then show ?thesis
    using p sup counts sha fi mac(2) v(2) assms(1) by (simp add: Authenticate_def Let_def del: parsed_message_simps)
qed

text \<open>
  C8: a client with the right password gets in.  Whatever attributes the request carries besides, in whatever
  order, with or without a fingerprint: a request of one of the four TURN methods that names the user, the realm and
  the session's unexpired nonce once each, built with the key of the user's password, is authorized for this user.
\<close>
theorem Client_is_authorized:
  assumes "IsConfigured ta" "ta_lookup ta = Some lookup" "lookup u = Some password" "ValidAsciiText u 512 False"
    and "ValidAsciiText password 763 True" "DerivePreparedLegacyKey md5 u (ta_realm ta) password = Some key"
    and "\<not> NonceExpired ta ctx now" "ValidAsciiText (ctx_nonce ctx) 763 False" "length tid = 12"
    and "mt \<in> {Allocate, Refresh, CreatePermission, ChannelBind}"
    and "filter (\<lambda>a. sa_type a = attr_code USERNAME) as = [TextAttribute USERNAME u]"
    and "filter (\<lambda>a. sa_type a = attr_code REALM) as = [TextAttribute REALM (ta_realm ta)]"
    and "filter (\<lambda>a. sa_type a = attr_code NONCE) as = [TextAttribute NONCE (ctx_nonce ctx)]"
    and "BuildMessage hmac (method_code mt) (class_code Request) tid as key fp = Ok p"
  shows "Authenticate hmac md5 ta gen now p ctx =
    Ok (TurnAuthResult_init\<lparr>ar_status := Authorized, ar_username := u, ar_key := key\<rparr>, ctx)"
  using assms by (rule right_password_authorized)

section \<open>Examples\<close>

text \<open>A function in the place of MD5, and a server with one user.\<close>

definition toy_md5 :: md5_fn where
  "toy_md5 d = Some (take 16 (d @ replicate 16 0))"

definition toy_auth :: TurnAuth where
  "toy_auth = \<lparr>ta_realm = [114], ta_lookup = Some (\<lambda>u. if u = [117] then Some [112] else None), nonce_lifetime_ms = 1000\<rparr>"

lemma toy_integrity: "\<exists>mi. integrity_of toy_hmac key ty tid as = Some mi"
  by (auto simp: integrity_of_def ComputeMessageIntegrity_def toy_hmac_def min_def)

theorem Authorized_only_with_credentials_witness:
  "\<exists>r m d. Authenticate toy_hmac toy_md5 toy_auth None 5
      [0, 3, 0, 48, 33, 18, 164, 66, 1, 2, 3, 4, 5, 6, 7, 8, 9, 10, 11, 12, 0, 6, 0, 1, 117, 0, 0, 0, 0, 20, 0, 1, 114, 0, 0, 0,
       0, 21, 0, 1, 110, 0, 0, 0, 0, 8, 0, 20, 117, 58, 114, 58, 112, 0, 0, 0, 0, 0, 0, 0, 0, 0, 0, 0, 0, 3, 0, 48]
      \<lparr>ctx_nonce = [110], nonce_issued_ms = 0\<rparr> = Ok (r, \<lparr>ctx_nonce = [110], nonce_issued_ms = 0\<rparr>) \<and>
     SupportedRequest m \<and> key_of toy_md5 toy_auth [117] (ar_key r) \<and> toy_hmac (ar_key r) d \<noteq> None"
proof -
  let ?p = "[0, 3, 0, 48, 33, 18, 164, 66, 1, 2, 3, 4, 5, 6, 7, 8, 9, 10, 11, 12, 0, 6, 0, 1, 117, 0, 0, 0, 0, 20, 0, 1, 114, 0, 0, 0,
       0, 21, 0, 1, 110, 0, 0, 0, 0, 8, 0, 20, 117, 58, 114, 58, 112, 0, 0, 0, 0, 0, 0, 0, 0, 0, 0, 0, 0, 3, 0, 48] :: bytes"
  let ?ctx = "\<lparr>ctx_nonce = [110], nonce_issued_ms = 0\<rparr> :: TurnAuthContext"
  have "case Authenticate toy_hmac toy_md5 toy_auth None 5 ?p ?ctx of
      Ok (r, c) \<Rightarrow> ar_status r = Authorized \<and> ar_username r = [117] \<and> c = ?ctx | _ \<Rightarrow> False"
    by code_simp
  then obtain r where r: "Authenticate toy_hmac toy_md5 toy_auth None 5 ?p ?ctx = Ok (r, ?ctx)" "ar_status r = Authorized"
      "ar_username r = [117]"
    by (auto split: outcome.splits prod.splits)
  show ?thesis
    using Authorized_only_with_credentials [OF r(1,2)] r by auto
qed

theorem Client_is_authorized_witness:
  "\<exists>p. BuildMessage toy_hmac 3 0 (replicate 12 5) [TextAttribute USERNAME [117], TextAttribute REALM [114],
       RequestedTransportAttribute 17, TextAttribute NONCE [110]] (ascii ''u:r:p'' @ replicate 11 0) True = Ok p \<and>
     Authenticate toy_hmac toy_md5 toy_auth None 5 p \<lparr>ctx_nonce = [110], nonce_issued_ms = 0\<rparr> =
       Ok (TurnAuthResult_init\<lparr>ar_status := Authorized, ar_username := [117], ar_key := ascii ''u:r:p'' @ replicate 11 0\<rparr>,
           \<lparr>ctx_nonce = [110], nonce_issued_ms = 0\<rparr>)"
proof -
  let ?as = "[TextAttribute USERNAME [117], TextAttribute REALM [114], RequestedTransportAttribute 17, TextAttribute NONCE [110]]"
  let ?key = "ascii ''u:r:p'' @ replicate 11 0 :: bytes" and ?ctx = "\<lparr>ctx_nonce = [110], nonce_issued_ms = 0\<rparr> :: TurnAuthContext"
  let ?e = "map attr_pair ?as" and ?ty = "EncodeType 3 0" and ?tid = "replicate 12 5 :: bytes"
  obtain mi where mi: "integrity_of toy_hmac ?key ?ty ?tid ?e = Some mi"
    using toy_integrity by blast
  have "BuildMessage toy_hmac 3 0 ?tid ?as ?key True =
      (case integrity_of toy_hmac ?key ?ty ?tid ?e of
         None \<Rightarrow> Reject
       | Some mi \<Rightarrow> Ok (message ?ty ?tid (?e @ mi @ fingerprint_of True ?ty ?tid (?e @ mi))))"
    by (rule BuildMessage_eq [where k = 64]) (simp_all add: Pad4_def TextAttribute_def RequestedTransportAttribute_def ascii_def)
  then obtain p where p: "BuildMessage toy_hmac 3 0 ?tid ?as ?key True = Ok p"
    unfolding mi option.case by blast
  have "Authenticate toy_hmac toy_md5 toy_auth None 5 p ?ctx =
      Ok (TurnAuthResult_init\<lparr>ar_status := Authorized, ar_username := [117], ar_key := ?key\<rparr>, ?ctx)"
  proof (rule Client_is_authorized [where lookup = "\<lambda>u. if u = [117] then Some [112] else None" and mt = Allocate and password = "[112]" and tid = ?tid and as = ?as and fp = True])
    show "DerivePreparedLegacyKey toy_md5 [117] (ta_realm toy_auth) [112] = Some ?key"
      by (simp add: DerivePreparedLegacyKey_def toy_md5_def toy_auth_def ascii_def)
    show "BuildMessage toy_hmac (method_code Allocate) (class_code Request) ?tid ?as ?key True = Ok p"
      using p by simp
  qed (simp_all add: toy_auth_def IsConfigured_def ValidAsciiText_def IsPrintableAscii_def NonceExpired_def TextAttribute_def
      RequestedTransportAttribute_def)
  then show ?thesis
    using p by blast
qed

end
