(* ===== verification/Turn_Policy.thy ===== *)
theory Turn_Policy
  imports Turn_Auth
begin

text \<open>
  What the TURN server lets through (the unnamed namespace of \<open>src/protocol/turn/TurnServer.cpp\<close>): the default
  address policy for peers, deadlines that saturate, and which attributes a request may carry.
\<close>

section \<open>Addresses\<close>

definition UnicastV4 :: "u32 \<Rightarrow> bool" where
  "UnicastV4 host_ip \<longleftrightarrow> drop_bit 24 host_ip \<noteq> 0 \<and> drop_bit 28 host_ip < 14"

fun Unicast :: "SocketAddr \<Rightarrow> bool" where
  "Unicast NoAddr = False"
| "Unicast (Inet ip port) = UnicastV4 ip"
| "Unicast (Inet6 ip port scope) =
     (scope = 0 \<and> ip \<noteq> (0, 0, 0, 0) \<and> in6_bytes ip ! 0 \<noteq> 0xFF \<and> \<not> v4mapped ip)"

fun PublicPeer :: "SocketAddr \<Rightarrow> bool" where
  "PublicPeer (Inet6 ip port scope) =
     (let b = in6_bytes ip;
          site_local = (b ! 0 = 0xFE \<and> b ! 1 AND 0xC0 = 0xC0)
      in Unicast (Inet6 ip port scope) \<and> ip \<noteq> (0, 0, 0, 1) \<and> \<not> (b ! 0 = 0xFE \<and> b ! 1 AND 0xC0 = 0x80) \<and>
         b ! 0 AND 0xFE \<noteq> 0xFC \<and> \<not> site_local \<and> \<not> list_all (\<lambda>x. x = 0) (take 12 b))"
| "PublicPeer (Inet ip port) =
     (UnicastV4 ip \<and> drop_bit 24 ip \<noteq> 10 \<and> drop_bit 24 ip \<noteq> 127 \<and> ip AND 0xFFF00000 \<noteq> 0xAC100000 \<and>
      ip AND 0xFFFF0000 \<noteq> 0xC0A80000 \<and> ip AND 0xFFFF0000 \<noteq> 0xA9FE0000 \<and> ip AND 0xFFC00000 \<noteq> 0x64400000 \<and>
      ip AND 0xFFFE0000 \<noteq> 0xC6120000)"
| "PublicPeer NoAddr = False"

fun PeerIp :: "SocketAddr \<Rightarrow> SocketAddr" where
  "PeerIp (Inet ip port) = Inet ip 0"
| "PeerIp (Inet6 ip port scope) = Inet6 ip 0 scope"
| "PeerIp NoAddr = NoAddr"

definition Endpoint :: "SocketAddr \<Rightarrow> IpEndpoint" where
  "Endpoint addr =
     (let bs = (if IsV6 addr then IPv6Bytes addr else IPv4Bytes addr)
      in \<lparr>ep_family = (if IsV6 addr then IPv6 else IPv4), ep_port = Port addr, ep_ip = bs @ replicate (16 - length bs) 0\<rparr>)"

definition Deadline :: "u64 \<Rightarrow> u64 \<Rightarrow> u64" where
  "Deadline now duration = (if duration > 0xFFFFFFFFFFFFFFFF - now then 0xFFFFFFFFFFFFFFFF else now + duration)"

section \<open>Attributes\<close>

fun attribute_count :: "u16 \<Rightarrow> AttrView list \<Rightarrow> nat" where
  "attribute_count t [] = 0"
| "attribute_count t (a # as) =
     (if av_type a = t then 1 else 0) + (if av_type a = attr_code MESSAGE_INTEGRITY then 0 else attribute_count t as)"

definition AttributeCount :: "StunMessageInfo \<Rightarrow> AttrType \<Rightarrow> nat" where
  "AttributeCount m ty = attribute_count (attr_code ty) (attrs m)"

definition ValidFingerprint :: "StunMessageInfo \<Rightarrow> bool outcome" where
  "ValidFingerprint m =
     (let n = length (filter (\<lambda>a. av_type a = attr_code FINGERPRINT) (attrs m))
      in if n = 0 then Ok True else if n \<noteq> 1 then Ok False else VerifyFingerprint m)"

definition AllowedAttribute :: "u16 \<Rightarrow> u16 \<Rightarrow> bool" where
  "AllowedAttribute m raw =
     (let is = \<lambda>ty. raw = attr_code ty in
      if m = method_code Binding
      then list_ex is [MAPPED_ADDRESS, USERNAME, MESSAGE_INTEGRITY, MESSAGE_INTEGRITY_SHA256, ERROR_CODE, UNKNOWN_ATTRIBUTES,
             CHANNEL_NUMBER, LIFETIME, XOR_PEER_ADDRESS, DATA, REALM, NONCE, XOR_RELAYED_ADDRESS, REQUESTED_ADDRESS_FAMILY,
             REQUESTED_TRANSPORT, XOR_MAPPED_ADDRESS, PRIORITY, USE_CANDIDATE]
      else if m \<noteq> method_code Send \<and> list_ex is [USERNAME, REALM, NONCE] then True
      else if m = method_code Allocate then list_ex is [REQUESTED_TRANSPORT, LIFETIME, REQUESTED_ADDRESS_FAMILY]
      else if m = method_code Refresh then is LIFETIME
      else if m = method_code CreatePermission then is XOR_PEER_ADDRESS
      else if m = method_code ChannelBind then list_ex is [XOR_PEER_ADDRESS, CHANNEL_NUMBER]
      else if m = method_code Send then list_ex is [XOR_PEER_ADDRESS, DATA]
      else False)"

fun unknown_loop :: "u16 \<Rightarrow> AttrView list \<Rightarrow> u16 list \<Rightarrow> u16 list" where
  "unknown_loop m [] result = result"
| "unknown_loop m (a # as) result =
     (if av_type a = attr_code MESSAGE_INTEGRITY \<or>
         m = method_code Binding \<and> av_type a = attr_code MESSAGE_INTEGRITY_SHA256 then result
      else unknown_loop m as
        (if av_type a < 0x8000 \<and> \<not> AllowedAttribute m (av_type a) \<and> av_type a \<notin> set result
         then result @ [av_type a] else result))"

definition UnknownAttributes :: "StunMessageInfo \<Rightarrow> u16 list" where
  "UnknownAttributes m = unknown_loop (msg_method m) (attrs m) []"

section \<open>The default policy keeps private networks out\<close>

text \<open>A network of \<open>n\<close> leading bits.\<close>

definition in_net :: "u32 \<Rightarrow> u32 \<times> nat \<Rightarrow> bool" where
  "in_net ip net \<longleftrightarrow> drop_bit (32 - snd net) ip = drop_bit (32 - snd net) (fst net)"

definition blocked_nets :: "(u32 \<times> nat) list" where
  "blocked_nets =
     [(0x00000000, 8), (0x0A000000, 8), (0x7F000000, 8), (0xAC100000, 12), (0xC0A80000, 16), (0xA9FE0000, 16),
      (0x64400000, 10), (0xC6120000, 15), (0xE0000000, 3)]"

lemma masked_iff_shifted:
  fixes ip net :: u32
  assumes "m = push_bit k (mask (32 - k))" "net = push_bit k (drop_bit k net)" "k \<le> 32"
  shows "ip AND m = net \<longleftrightarrow> drop_bit k ip = drop_bit k net"
proof
  assume a: "ip AND m = net"
  show "drop_bit k ip = drop_bit k net"
  proof (rule bit_word_eqI)
    fix n assume "n < LENGTH(32)"
    have "bit net (k + n) = bit (ip AND m) (k + n)"
      using a by simp
    then show "bit (drop_bit k ip) n = bit (drop_bit k net) n"
      using assms(1) bit_imp_le_length [of ip "k + n"] by (auto simp: bit_simps)
  qed
next
  assume d: "drop_bit k ip = drop_bit k net"
  have "ip AND m = push_bit k (drop_bit k ip)"
    using assms(3) by (intro bit_word_eqI) (auto simp: assms(1) bit_simps)
  then show "ip AND m = net"
    using d assms(2) by simp
qed

lemma multicast_net: "\<not> drop_bit 28 ip < 14 \<longleftrightarrow> drop_bit 29 ip = (7 :: u32)"
proof -
  define x where "x = unat ip div 2 ^ 28"
  have "unat ip < 16 * 2 ^ 28"
    using unsigned_less [of ip, where 'a = nat] by simp
  then have "x < 16"
    unfolding x_def by (rule less_mult_imp_div_less)
  then have "\<not> x < 14 \<longleftrightarrow> x div 2 = 7"
    by linarith
  moreover have "x div 2 = unat ip div 2 ^ 29"
    unfolding x_def div_mult2_eq [symmetric] by simp
  ultimately have "\<not> unat ip div 2 ^ 28 < 14 \<longleftrightarrow> unat ip div 2 ^ 29 = 7"
    by (simp add: x_def)
  moreover have "unat (drop_bit 28 ip) = unat ip div 2 ^ 28" "unat (drop_bit 29 ip) = unat ip div 2 ^ 29"
    by (simp_all add: drop_bit_eq_div unat_div_distrib)
  ultimately show ?thesis
    by (simp add: word_less_nat_alt word_unat_eq_iff)
qed

lemma policy_masks:
  fixes ip :: u32
  shows "ip AND 0xFFF00000 = 0xAC100000 \<longleftrightarrow> drop_bit 20 ip = drop_bit 20 0xAC100000"
    "ip AND 0xFFFF0000 = 0xC0A80000 \<longleftrightarrow> drop_bit 16 ip = drop_bit 16 0xC0A80000"
    "ip AND 0xFFFF0000 = 0xA9FE0000 \<longleftrightarrow> drop_bit 16 ip = drop_bit 16 0xA9FE0000"
    "ip AND 0xFFC00000 = 0x64400000 \<longleftrightarrow> drop_bit 22 ip = drop_bit 22 0x64400000"
    "ip AND 0xFFFE0000 = 0xC6120000 \<longleftrightarrow> drop_bit 17 ip = drop_bit 17 0xC6120000"
  by (rule masked_iff_shifted; simp add: mask_eq_exp_minus_1)+

text \<open>
  C11: the default peer policy for IPv4 is exactly the list of networks it is meant to keep out: the octet and mask
  comparisons of the code accept an address if and only if it lies in none of the networks \<open>0/8\<close>, \<open>10/8\<close>, \<open>127/8\<close>,
  \<open>172.16/12\<close>, \<open>192.168/16\<close>, \<open>169.254/16\<close>, \<open>100.64/10\<close>, \<open>198.18/15\<close> and \<open>224/3\<close>.
\<close>
theorem PublicPeer_blocks_networks: "PublicPeer (Inet ip port) \<longleftrightarrow> \<not> list_ex (in_net ip) blocked_nets"
  by (auto simp: UnicastV4_def in_net_def blocked_nets_def policy_masks simp flip: multicast_net)

lemma unat_Deadline: "unat (Deadline now d) = min (unat now + unat d) (2 ^ 64 - 1)"
proof -
  have l: "unat now < 2 ^ 64" "unat d < 2 ^ 64"
    using unsigned_less [of now, where 'a = nat] unsigned_less [of d, where 'a = nat] by simp_all
  have "now \<le> 0xFFFFFFFFFFFFFFFF"
    using l by (simp add: word_le_nat_alt)
  then have "unat (0xFFFFFFFFFFFFFFFF - now) = 2 ^ 64 - 1 - unat now"
    by (simp add: unat_sub)
  then show ?thesis
    using l by (auto simp: Deadline_def word_less_nat_alt unat_word_ariths min_def)
qed

end
