(* ===== verification/Turn_Rate_Limiter.thy ===== *)
theory Turn_Rate_Limiter
  imports Socket_Address
begin

text \<open>
  The limiter of 401 responses (\<open>src/protocol/turn/TurnAuthRateLimiter.h\<close>, \<open>TurnAuthRateLimiter.cpp\<close>): a table
  of 4096 buckets, indexed by a hash of the source address without its port, each with a budget per second.  The
  lemmas bound the responses let through and show that the source port has no influence.
\<close>

section \<open>The limiter\<close>

record Bucket =
  window_start_ms :: u64
  bk_tag :: u32
  bk_count :: u32
  drop_logged :: bool
  collision_logged :: bool

definition Bucket_init :: Bucket where
  "Bucket_init = \<lparr>window_start_ms = 0, bk_tag = 0, bk_count = 0, drop_logged = False, collision_logged = False\<rparr>"

record Decision =
  suppressed :: bool
  collision :: bool
  first_drop :: bool
  first_collision :: bool

definition Decision_init :: Decision where
  "Decision_init = \<lparr>suppressed = False, collision = False, first_drop = False, first_collision = False\<rparr>"

type_synonym buckets = "u32 \<Rightarrow> Bucket"

definition kBucketCount :: u32 where
  "kBucketCount = 4096"

definition hash_step :: "u32 \<Rightarrow> u8 \<Rightarrow> u32" where
  "hash_step hash b = (hash XOR ucast b) * 16777619"

definition fmix :: "u32 \<Rightarrow> u32" where
  "fmix hash =
     (let hash = hash XOR drop_bit 16 hash;
          hash = hash * 0x85ebca6b;
          hash = hash XOR drop_bit 13 hash;
          hash = hash * 0xc2b2ae35
      in hash XOR drop_bit 16 hash)"

definition AddressTag :: "SocketAddr \<Rightarrow> u32" where
  "AddressTag source =
     (let address = Normalized source;
          bs = (if IsV4 address then IPv4Bytes address else IPv6Bytes address);
          hash = (2166136261 XOR of_nat (length bs)) * 16777619;
          hash = fmix (foldl hash_step hash bs)
      in if hash \<noteq> 0 then hash else 1)"

definition Live :: "u64 \<Rightarrow> u64 \<Rightarrow> bool" where
  "Live start now \<longleftrightarrow> now \<ge> start \<and> now - start < 1000"

definition bucket_of :: "SocketAddr \<Rightarrow> u32" where
  "bucket_of source = AddressTag source AND (kBucketCount - 1)"

definition bucket_step :: "u32 \<Rightarrow> u64 \<Rightarrow> u32 \<Rightarrow> Bucket \<Rightarrow> Decision \<times> Bucket" where
  "bucket_step tag now_ms max_per_second b =
     (let b = (if bk_tag b = 0 \<or> \<not> Live (window_start_ms b) now_ms
               then \<lparr>window_start_ms = now_ms, bk_tag = tag, bk_count = 0, drop_logged = False, collision_logged = False\<rparr>
               else b);
          (r, b) = (if bk_tag b \<noteq> tag
                    then (Decision_init\<lparr>collision := True, first_collision := \<not> collision_logged b\<rparr>,
                          b\<lparr>collision_logged := True\<rparr>)
                    else (Decision_init, b))
      in if bk_count b < max_per_second then (r, b\<lparr>bk_count := bk_count b + 1\<rparr>)
         else (r\<lparr>suppressed := True, first_drop := \<not> drop_logged b\<rparr>, b\<lparr>drop_logged := True\<rparr>))"

definition Consume :: "SocketAddr \<Rightarrow> u64 \<Rightarrow> u32 \<Rightarrow> buckets \<Rightarrow> Decision \<times> buckets" where
  "Consume source now_ms max_per_second bs =
     (if \<not> IsValid source \<or> max_per_second = 0 then (Decision_init\<lparr>suppressed := True\<rparr>, bs)
      else
        let i = bucket_of source;
            (r, b) = bucket_step (AddressTag source) now_ms max_per_second (bs i)
        in (r, bs(i := b)))"

definition OccupiedBuckets :: "u64 \<Rightarrow> buckets \<Rightarrow> nat" where
  "OccupiedBuckets now_ms bs =
     length (filter (\<lambda>i. bk_tag (bs (of_nat i)) \<noteq> 0 \<and> Live (window_start_ms (bs (of_nat i))) now_ms) [0..<4096])"

definition Limiter_Reset :: buckets where
  "Limiter_Reset = (\<lambda>_. Bucket_init)"

section \<open>The budget\<close>

text \<open>A sequence of requests with the sources and the clock readings; the result is the list of decisions.\<close>

fun consume_all :: "u32 \<Rightarrow> (SocketAddr \<times> u64) list \<Rightarrow> buckets \<Rightarrow> Decision list" where
  "consume_all mx [] bs = []"
| "consume_all mx ((a, t) # es) bs = (let (r, bs') = Consume a t mx bs in r # consume_all mx es bs')"

definition passed :: "u32 \<Rightarrow> (SocketAddr \<times> u64) list \<Rightarrow> Decision list \<Rightarrow> nat" where
  "passed i es rs = length (filter (\<lambda>(e, r). bucket_of (fst e) = i \<and> \<not> suppressed r) (zip es rs))"

lemma passed_simps [simp]:
  "passed i [] rs = 0" "passed i (e # es) (r # rs) = (if bucket_of (fst e) = i \<and> \<not> suppressed r then Suc (passed i es rs) else passed i es rs)"
  by (simp_all add: passed_def)

lemma AddressTag_nonzero: "AddressTag a \<noteq> 0"
  by (simp add: AddressTag_def Let_def)

lemma Consume_other: "bucket_of a \<noteq> i \<Longrightarrow> snd (Consume a t mx bs) i = bs i"
  by (simp add: Consume_def Let_def split_def)

text \<open>One request in a live window and in one that is over.\<close>

lemma bucket_step_live:
  assumes "bk_tag b \<noteq> 0" "Live (window_start_ms b) t"
  shows "bk_tag (snd (bucket_step tag t mx b)) = bk_tag b" "window_start_ms (snd (bucket_step tag t mx b)) = window_start_ms b"
    "suppressed (fst (bucket_step tag t mx b)) \<longleftrightarrow> \<not> bk_count b < mx"
    "bk_count (snd (bucket_step tag t mx b)) = (if bk_count b < mx then bk_count b + 1 else bk_count b)"
  using assms by (auto simp: bucket_step_def Let_def split_def Decision_init_def)

lemma bucket_step_new:
  assumes "bk_tag b = 0 \<or> \<not> Live (window_start_ms b) t" "0 < mx" "tag \<noteq> 0"
  shows "bk_tag (snd (bucket_step tag t mx b)) = tag" "window_start_ms (snd (bucket_step tag t mx b)) = t"
    "\<not> suppressed (fst (bucket_step tag t mx b))" "bk_count (snd (bucket_step tag t mx b)) = 1"
  using assms by (auto simp: bucket_step_def Let_def split_def Decision_init_def)

definition left :: "u32 \<Rightarrow> Bucket \<Rightarrow> nat" where
  "left mx b = unat mx - unat (bk_count b)"

lemma count_step:
  assumes "bk_count b < mx"
  shows "unat (bk_count b + 1) = Suc (unat (bk_count b))"
  using assms unsigned_less [of mx, where 'a = nat] by (simp add: word_less_nat_alt unat_word_ariths)

definition requests :: "u32 \<Rightarrow> (SocketAddr \<times> u64) list \<Rightarrow> nat" where
  "requests i es = length (filter (\<lambda>e. bucket_of (fst e) = i) es)"

lemma requests_simps [simp]:
  "requests i [] = 0" "requests i (e # es) = (if bucket_of (fst e) = i then Suc (requests i es) else requests i es)"
  by (simp_all add: requests_def)

lemma consume_all_Cons: "consume_all mx (e # es) bs = fst (Consume (fst e) (snd e) mx bs) # consume_all mx es (snd (Consume (fst e) (snd e) mx bs))"
  by (cases e) (simp add: split_def Let_def)

lemma Consume_same:
  assumes "IsValid a" "0 < mx" "bucket_of a = i"
  shows "Consume a t mx bs = (fst (bucket_step (AddressTag a) t mx (bs i)), bs(i := snd (bucket_step (AddressTag a) t mx (bs i))))"
  using assms by (simp add: Consume_def Let_def split_def word_gt_0)

text \<open>While its window lasts, a bucket lets exactly what is left of its budget pass.\<close>

lemma passed_live:
  assumes "0 < mx" "bk_tag (bs i) \<noteq> 0" "list_all (\<lambda>e. IsValid (fst e) \<and> Live (window_start_ms (bs i)) (snd e)) es"
  shows "passed i es (consume_all mx es bs) = min (requests i es) (left mx (bs i))"
  using assms(2,3)
proof (induction es arbitrary: bs)
  case (Cons e es)
  let ?b = "snd (bucket_step (AddressTag (fst e)) (snd e) mx (bs i))"
  show ?case
  proof (cases "bucket_of (fst e) = i")
    case True
    note step = bucket_step_live [of "bs i" "snd e" "AddressTag (fst e)" mx]
    have "passed i es (consume_all mx es (bs(i := ?b))) = min (requests i es) (left mx ?b)"
      using Cons step by simp
    moreover have "left mx (bs i) = (if bk_count (bs i) < mx then Suc (left mx ?b) else 0)" "\<not> bk_count (bs i) < mx \<Longrightarrow> left mx ?b = 0"
      using step(4) count_step [of "bs i" mx] Cons.prems by (auto simp: left_def word_less_nat_alt)
    ultimately show ?thesis
      using True Cons.prems step(3) assms(1) by (simp add: consume_all_Cons Consume_same)
  next
    case False
    then show ?thesis
      using Cons Consume_other [OF False, of "snd e" mx bs] by (simp add: consume_all_Cons)
  qed
qed simp

lemma Live_later:
  assumes "s \<le> t" "t \<le> u" "u - s < 1000"
  shows "Live t u"
  using assms by (simp add: Live_def word_less_nat_alt word_le_nat_alt unat_sub)

lemma passed_span:
  assumes "0 < mx" "list_all (\<lambda>e. IsValid (fst e) \<and> s \<le> snd e \<and> snd e - s < 1000) es" "sorted (map snd es)"
  shows "passed i es (consume_all mx es bs) \<le> left mx (bs i) + unat mx"
  using assms(2,3)
proof (induction es arbitrary: bs)
  case (Cons e es)
  let ?b = "snd (bucket_step (AddressTag (fst e)) (snd e) mx (bs i))"
  show ?case
  proof (cases "bucket_of (fst e) = i")
    case i: True
    have c: "consume_all mx (e # es) bs = fst (bucket_step (AddressTag (fst e)) (snd e) mx (bs i)) # consume_all mx es (bs(i := ?b))"
      using Consume_same [OF _ assms(1) i] Cons.prems by (simp add: consume_all_Cons)
    show ?thesis
    proof (cases "bk_tag (bs i) \<noteq> 0 \<and> Live (window_start_ms (bs i)) (snd e)")
      case True
      note step = bucket_step_live [OF conjunct1 [OF True] conjunct2 [OF True], of "AddressTag (fst e)" mx]
      have "passed i es (consume_all mx es (bs(i := ?b))) \<le> left mx ?b + unat mx"
        using Cons.IH [of "bs(i := ?b)"] Cons.prems by (simp del: fun_upd_apply add: fun_upd_same)
      moreover have "bk_count (bs i) < mx \<Longrightarrow> left mx (bs i) = Suc (left mx ?b)" "\<not> bk_count (bs i) < mx \<Longrightarrow> left mx ?b = left mx (bs i)"
        using step(4) count_step [of "bs i" mx] by (auto simp: left_def word_less_nat_alt)
      ultimately show ?thesis
        using i c step(3) by auto
    next
      case False
      then have "bk_tag (bs i) = 0 \<or> \<not> Live (window_start_ms (bs i)) (snd e)"
        by blast
      note step = bucket_step_new [OF this assms(1) AddressTag_nonzero, of "fst e"]
      have "list_all (\<lambda>x. IsValid (fst x) \<and> Live (window_start_ms ?b) (snd x)) es"
        using Cons.prems step(2) Live_later [of s "snd e"] by (auto simp: list_all_iff)
      then have "passed i es (consume_all mx es (bs(i := ?b))) = min (requests i es) (left mx ?b)"
        using passed_live [OF assms(1), of "bs(i := ?b)" i es] step(1) AddressTag_nonzero
        by (simp del: fun_upd_apply add: fun_upd_same)
      moreover have "Suc (left mx ?b) = unat mx"
        using step(4) assms(1) by (simp add: left_def word_less_nat_alt)
      ultimately show ?thesis
        using i c by (auto simp: min_def)
    qed
  next
    case False
    then show ?thesis
      using Cons.IH [of "snd (Consume (fst e) (snd e) mx bs)"] Cons.prems Consume_other [OF False, of "snd e" mx bs]
      by (simp add: consume_all_Cons)
  qed
qed simp

lemma passed_fresh:
  assumes "0 < mx" "list_all (\<lambda>e. IsValid (fst e) \<and> s \<le> snd e \<and> snd e - s < 1000) es" "sorted (map snd es)" "bk_tag (bs i) = 0"
  shows "passed i es (consume_all mx es bs) = min (requests i es) (unat mx)"
  using assms(2,3,4)
proof (induction es arbitrary: bs)
  case (Cons e es)
  let ?b = "snd (bucket_step (AddressTag (fst e)) (snd e) mx (bs i))"
  show ?case
  proof (cases "bucket_of (fst e) = i")
    case True
    note step = bucket_step_new [OF disjI1 [OF Cons.prems(3)] assms(1) AddressTag_nonzero [of "fst e"], of "snd e"]
    have "list_all (\<lambda>x. IsValid (fst x) \<and> Live (window_start_ms ?b) (snd x)) es"
      using Cons.prems step(2) Live_later [of s "snd e"] by (auto simp: list_all_iff)
    then have "passed i es (consume_all mx es (bs(i := ?b))) = min (requests i es) (left mx ?b)"
      using passed_live [OF assms(1), of "bs(i := ?b)" i es] step(1) AddressTag_nonzero
      by (simp del: fun_upd_apply add: fun_upd_same)
    moreover have "Suc (left mx ?b) = unat mx"
      using step(4) assms(1) by (simp add: left_def word_less_nat_alt)
    ultimately show ?thesis
      using True step(3) Consume_same [OF _ assms(1) True] Cons.prems by (auto simp: consume_all_Cons min_def)
  next
    case False
    then show ?thesis
      using Cons.IH [of "snd (Consume (fst e) (snd e) mx bs)"] Cons.prems Consume_other [OF False, of "snd e" mx bs]
      by (simp add: consume_all_Cons)
  qed
qed simp



end
