(* ===== verification/Turn_Server.thy ===== *)
theory Turn_Server
  imports Turn_Policy Turn_Rate_Limiter "HOL-Library.AList"
begin

text \<open>
  The TURN server (\<open>src/protocol/turn/TurnServer.h\<close>, \<open>TurnServer.cpp\<close>) as a state machine.  Its steps are a
  datagram on the control socket, a datagram on a relay socket, and the timer.  The hash maps of the code are
  association lists with distinct keys, in the order the map is walked.  What the code asks of its surroundings
  during a step is an argument of the step: the readings of the clock, one field for each place that reads it, the
  nonce generator, the random transaction identifier, which relay ports can be opened, and whether a send succeeds.
  HMAC, MD5 and \<open>inet_pton\<close> are the fields of \<open>externals\<close>.  A relay socket is known by its local port; destroying
  an allocation closes it.  Datagrams handed to a socket are the outputs.  The handlers for a failed memory
  allocation are not modelled.
\<close>

section \<open>State\<close>

record externals =
  ex_hmac :: hmac_fn
  ex_md5 :: md5_fn
  ex_pton4 :: "bytes \<Rightarrow> u32 option"
  ex_pton6 :: "bytes \<Rightarrow> in6_addr option"

record turn_io =
  io_now :: u64
  io_now_auth :: u64
  io_now_request :: u64
  io_now_permission :: u64
  io_now_send :: u64
  io_nonce :: "bytes option"
  io_start :: "bytes \<Rightarrow> u16 \<Rightarrow> u16 option"
  io_sent :: bool
  io_txid :: "bytes option"

record TurnServerOptions =
  listen_ip :: bytes
  listen_port :: u16
  dual_stack :: bool
  relay_bind_ip :: bytes
  advertised_ip :: bytes
  relay_bind_ip_v6 :: bytes
  advertised_ip_v6 :: bytes
  relay_port_min :: u16
  relay_port_max :: u16
  max_sessions :: nat
  max_allocations :: nat
  max_allocations_per_user :: nat
  max_permissions :: nat
  max_channels :: nat
  unauthorized_ratelimit :: bool
  unauthorized_ratelimit_rps :: u32
  allow_peer :: "(SocketAddr \<Rightarrow> bool) option"

record Channel =
  ch_peer :: SocketAddr
  ch_expires :: u64

record Allocation =
  al_relay :: u16
  al_advertised :: SocketAddr
  al_username :: bytes
  al_transaction :: bytes
  al_request :: bytes
  al_generation :: nat
  al_expires :: u64
  al_permissions :: "(SocketAddr \<times> u64) list"
  al_channels :: "(u16 \<times> Channel) list"

record CachedResponse =
  cr_transaction :: bytes
  cr_request :: bytes
  cr_response :: bytes
  cr_expires :: u64
  cr_unauthorized :: bool

record Session =
  ss_auth :: TurnAuthContext
  ss_allocation :: "Allocation option"
  ss_cache :: "CachedResponse list"
  last_activity :: u64

definition Session_init :: Session where
  "Session_init = \<lparr>ss_auth = TurnAuthContext_init, ss_allocation = None, ss_cache = [], last_activity = 0\<rparr>"

record Stats =
  client_to_peer :: nat
  peer_to_client :: nat
  unauthorized_401_requests :: nat
  unauthorized_401_responses :: nat
  unauthorized_401_dropped :: nat
  ratelimit_hash_collisions :: nat

record TurnServer =
  sv_options :: TurnServerOptions
  sv_auth :: TurnAuth
  sv_sessions :: "(SocketAddr \<times> Session) list"
  sv_next_port :: u32
  sv_generation :: nat
  sv_stats :: Stats
  sv_limiter :: buckets
  sv_started :: bool

datatype turn_out = ToClient SocketAddr bytes | ToPeer SocketAddr nat SocketAddr bytes

definition TurnServer_new :: "TurnServerOptions \<Rightarrow> TurnAuth \<Rightarrow> TurnServer" where
  "TurnServer_new options auth =
     \<lparr>sv_options = options, sv_auth = auth, sv_sessions = [], sv_next_port = ucast (relay_port_min options), sv_generation = 0,
      sv_stats = \<lparr>client_to_peer = 0, peer_to_client = 0, unauthorized_401_requests = 0, unauthorized_401_responses = 0,
        unauthorized_401_dropped = 0, ratelimit_hash_collisions = 0\<rparr>,
      sv_limiter = Limiter_Reset, sv_started = False\<rparr>"

section \<open>Expiry\<close>

definition PeerAllowed :: "TurnServerOptions \<Rightarrow> SocketAddr \<Rightarrow> bool \<Rightarrow> bool" where
  "PeerAllowed opts peer require_port \<longleftrightarrow>
     Unicast peer \<and> (\<not> require_port \<or> Port peer \<noteq> 0) \<and>
     (case allow_peer opts of Some f \<Rightarrow> f peer | None \<Rightarrow> PublicPeer peer)"

definition prune_allocation :: "u64 \<Rightarrow> Allocation \<Rightarrow> Allocation" where
  "prune_allocation now al =
     al\<lparr>al_permissions := filter (\<lambda>e. now < snd e) (al_permissions al),
        al_channels := filter (\<lambda>e. now < ch_expires (snd e)) (al_channels al)\<rparr>"

definition prune_session :: "u64 \<Rightarrow> Session \<Rightarrow> Session" where
  "prune_session now s =
     s\<lparr>ss_cache := dropWhile (\<lambda>c. now \<ge> cr_expires c) (ss_cache s),
       ss_allocation := (case ss_allocation s of
          None \<Rightarrow> None
        | Some al \<Rightarrow> if now \<ge> al_expires al then None else Some (prune_allocation now al))\<rparr>"

definition session_idle :: "u64 \<Rightarrow> Session \<Rightarrow> bool" where
  "session_idle now s \<longleftrightarrow> ss_allocation s = None \<and> now \<ge> last_activity s \<and> now - last_activity s \<ge> 60000"

definition Prune :: "u64 \<Rightarrow> TurnServer \<Rightarrow> TurnServer" where
  "Prune now sv =
     sv\<lparr>sv_sessions := filter (\<lambda>e. \<not> session_idle now (snd e)) (map (\<lambda>(c, s). (c, prune_session now s)) (sv_sessions sv))\<rparr>"

definition AllocationCount :: "TurnServer \<Rightarrow> bytes \<Rightarrow> nat" where
  "AllocationCount sv username =
     length (filter (\<lambda>e. case ss_allocation (snd e) of
       None \<Rightarrow> False
     | Some al \<Rightarrow> username = [] \<or> al_username al = username) (sv_sessions sv))"

definition HasPermission :: "u64 \<Rightarrow> Allocation \<Rightarrow> SocketAddr \<Rightarrow> bool" where
  "HasPermission now al peer \<longleftrightarrow>
     (case map_of (al_permissions al) (PeerIp peer) of None \<Rightarrow> False | Some expires \<Rightarrow> now < expires)"

section \<open>Responses\<close>

text \<open>The result of a failed builder is an empty vector.\<close>

definition built :: "bytes outcome \<Rightarrow> bytes outcome" where
  "built r = (case r of Reject \<Rightarrow> Ok [] | _ \<Rightarrow> r)"

definition turn_Success :: "hmac_fn \<Rightarrow> StunMessageInfo \<Rightarrow> bytes \<Rightarrow> StunAttribute list \<Rightarrow> bytes outcome" where
  "turn_Success hmac m key attributes =
     built (BuildMessage hmac (msg_method m) (class_code SuccessResponse) (txid m) attributes key True)"

definition turn_Error :: "hmac_fn \<Rightarrow> StunMessageInfo \<Rightarrow> u16 \<Rightarrow> bytes \<Rightarrow> u16 list \<Rightarrow> bytes outcome" where
  "turn_Error hmac m code key unknown =
     (let err = \<lparr>sa_type = attr_code ERROR_CODE, sa_value = [0, 0, ucast (code div 100), ucast (code mod 100)]\<rparr>;
          unk = (if unknown = [] then []
                 else [\<lparr>sa_type = attr_code UNKNOWN_ATTRIBUTES, sa_value = concat (map enc16 unknown)\<rparr>])
      in built (BuildMessage hmac (msg_method m) (class_code ErrorResponse) (txid m) (err # unk) key True))"

definition DecodePeer :: "TurnServerOptions \<Rightarrow> StunMessageInfo \<Rightarrow> AttrView \<Rightarrow> Allocation \<Rightarrow> (u16 \<times> SocketAddr) outcome" where
  "DecodePeer opts m attr al =
     (case DecodeXorAddress (m\<lparr>attrs := [attr]\<rparr>) XOR_PEER_ADDRESS of
        Fault \<Rightarrow> Fault
      | Reject \<Rightarrow> Ok (400, NoAddr)
      | Ok decoded \<Rightarrow>
          if xa_is_ipv6 decoded \<noteq> IsV6 (al_advertised al) then Ok (443, NoAddr)
          else
            let peer = (if xa_is_ipv6 decoded then Inet6 (in6_of (xa_ip decoded)) (xa_port decoded) 0
                        else Inet (dec32 (xa_ip decoded)) (xa_port decoded))
            in Ok (if PeerAllowed opts peer (msg_method m \<noteq> method_code CreatePermission) then 0 else 403, peer))"

definition SendResponse :: "turn_io \<Rightarrow> SocketAddr \<Rightarrow> bytes \<Rightarrow> bool \<Rightarrow> TurnServer \<Rightarrow> TurnServer \<times> turn_out list" where
  "SendResponse io client response unauthorized sv =
     (let st = sv_stats sv;
          st = (if unauthorized then st\<lparr>unauthorized_401_requests := unauthorized_401_requests st + 1\<rparr> else st);
          limited = (unauthorized \<and> unauthorized_ratelimit (sv_options sv));
          (d, bs) = (if limited then Consume client (io_now_send io) (unauthorized_ratelimit_rps (sv_options sv)) (sv_limiter sv)
                     else (Decision_init, sv_limiter sv));
          st = (if collision d then st\<lparr>ratelimit_hash_collisions := ratelimit_hash_collisions st + 1\<rparr> else st)
      in if suppressed d
         then (sv\<lparr>sv_stats := st\<lparr>unauthorized_401_dropped := unauthorized_401_dropped st + 1\<rparr>, sv_limiter := bs\<rparr>, [])
         else (sv\<lparr>sv_stats := (if io_sent io \<and> unauthorized
                 then st\<lparr>unauthorized_401_responses := unauthorized_401_responses st + 1\<rparr> else st), sv_limiter := bs\<rparr>,
               [ToClient client response]))"

section \<open>Requests\<close>

fun open_loop :: "(u16 \<Rightarrow> u16 option) \<Rightarrow> TurnServerOptions \<Rightarrow> nat \<Rightarrow> u32 \<Rightarrow> u16 option \<times> u32" where
  "open_loop start opts 0 next_port = (None, next_port)"
| "open_loop start opts (Suc n) next_port =
     (let port = ucast next_port;
          next_port = (if relay_port_min opts \<noteq> 0
                       then if next_port = ucast (relay_port_max opts) then ucast (relay_port_min opts) else next_port + 1
                       else next_port)
      in case start port of
           Some local_port \<Rightarrow> (Some local_port, next_port)
         | None \<Rightarrow> open_loop start opts n next_port)"

definition relay_attempts :: "TurnServerOptions \<Rightarrow> nat" where
  "relay_attempts opts =
     (if relay_port_min opts = 0 then 1 else unat (ucast (relay_port_max opts) - ucast (relay_port_min opts) + 1 :: u32))"

definition OpenRelay :: "turn_io \<Rightarrow> u8 \<Rightarrow> TurnServer \<Rightarrow> u16 option \<times> TurnServer" where
  "OpenRelay io family sv =
     (let opts = sv_options sv;
          bind_ip = (if family = IPv6 then relay_bind_ip_v6 opts else relay_bind_ip opts);
          (relay, np) = open_loop (io_start io bind_ip) opts (relay_attempts opts) (sv_next_port sv)
      in (relay, sv\<lparr>sv_next_port := np\<rparr>))"

definition set_session :: "SocketAddr \<Rightarrow> Session \<Rightarrow> TurnServer \<Rightarrow> TurnServer" where
  "set_session client s sv = sv\<lparr>sv_sessions := AList.update client s (sv_sessions sv)\<rparr>"

definition clamp_lifetime :: "u32 \<Rightarrow> u32" where
  "clamp_lifetime lifetime = (if lifetime < 600 then 600 else if 3600 < lifetime then 3600 else lifetime)"

text \<open>The lifetime a request asks for; \<open>Reject\<close> is the answer 400.\<close>

definition request_lifetime :: "StunMessageInfo \<Rightarrow> u32 outcome" where
  "request_lifetime m =
     (if AttributeCount m LIFETIME > 1 then Reject
      else if AttributeCount m LIFETIME \<noteq> 0 then DecodeUInt32 m LIFETIME
      else Ok 600)"

definition handle_refresh :: "externals \<Rightarrow> turn_io \<Rightarrow> SocketAddr \<Rightarrow> Session \<Rightarrow> StunMessageInfo \<Rightarrow> bytes \<Rightarrow> u32 \<Rightarrow>
    TurnServer \<Rightarrow> (bytes \<times> TurnServer) outcome" where
  "handle_refresh ex io client s m key lifetime sv =
     (case ss_allocation s of
        None \<Rightarrow> bind_outcome (turn_Error (ex_hmac ex) m 437 key []) (\<lambda>r. Ok (r, sv))
      | Some al \<Rightarrow>
          let lifetime = (if lifetime \<noteq> 0 then clamp_lifetime lifetime else lifetime) in
          bind_outcome (turn_Success (ex_hmac ex) m key [UInt32Attribute LIFETIME lifetime]) (\<lambda>response.
            if response = [] then Ok ([], sv)
            else
              let al' = (if lifetime = 0 then None
                         else Some (al\<lparr>al_expires := Deadline (io_now_request io) (ucast lifetime * 1000)\<rparr>))
              in Ok (response, set_session client (s\<lparr>ss_allocation := al'\<rparr>) sv)))"

text \<open>The family a request asks for; \<open>Reject\<close> is the answer 400.\<close>

definition requested_family :: "StunMessageInfo \<Rightarrow> u8 outcome" where
  "requested_family m =
     (if AttributeCount m REQUESTED_ADDRESS_FAMILY > 1 then Reject
      else case FindAttr m (attr_code REQUESTED_ADDRESS_FAMILY) of
        None \<Rightarrow> Ok IPv4
      | Some a \<Rightarrow>
          if av_len a \<noteq> 4 then Reject
          else rd8 (raw_bytes m) (value_offset a) (\<lambda>v.
            if v \<noteq> 0x01 \<and> v \<noteq> 0x02 then Reject else Ok (if v = 0x02 then IPv6 else IPv4)))"

definition allocate_answer :: "externals \<Rightarrow> SocketAddr \<Rightarrow> StunMessageInfo \<Rightarrow> bytes \<Rightarrow> Allocation \<Rightarrow> u32 \<Rightarrow> bytes outcome" where
  "allocate_answer ex client m key al lifetime =
     built (bind_outcome (XorAddressAttribute XOR_RELAYED_ADDRESS (Endpoint (al_advertised al)) (txid m)) (\<lambda>relay.
            bind_outcome (XorAddressAttribute XOR_MAPPED_ADDRESS (Endpoint client) (txid m)) (\<lambda>mapped.
              turn_Success (ex_hmac ex) m key [relay, mapped, UInt32Attribute LIFETIME lifetime])))"

definition handle_new_allocation :: "externals \<Rightarrow> turn_io \<Rightarrow> SocketAddr \<Rightarrow> Session \<Rightarrow> StunMessageInfo \<Rightarrow> TurnAuthResult \<Rightarrow>
    bytes \<Rightarrow> u8 \<Rightarrow> bytes \<Rightarrow> u32 \<Rightarrow> TurnServer \<Rightarrow> (bytes \<times> TurnServer) outcome" where
  "handle_new_allocation ex io client s m auth p family public_ip lifetime sv =
     (let key = ar_key auth in
      if AllocationCount sv [] \<ge> max_allocations (sv_options sv) \<or>
         AllocationCount sv (ar_username auth) \<ge> max_allocations_per_user (sv_options sv)
      then bind_outcome (turn_Error (ex_hmac ex) m 486 key []) (\<lambda>r. Ok (r, sv))
      else case OpenRelay io family sv of
        (None, sv) \<Rightarrow> bind_outcome (turn_Error (ex_hmac ex) m 508 key []) (\<lambda>r. Ok (r, sv))
      | (Some port, sv) \<Rightarrow>
          let gen = sv_generation sv + 1;
              sv = sv\<lparr>sv_generation := gen\<rparr>;
              pending = \<lparr>al_relay = port, al_advertised = FromIPPort (ex_pton4 ex) (ex_pton6 ex) public_ip port,
                al_username = ar_username auth, al_transaction = txid m, al_request = p, al_generation = gen,
                al_expires = Deadline (io_now_request io) (ucast lifetime * 1000), al_permissions = [], al_channels = []\<rparr>
          in bind_outcome (allocate_answer ex client m key pending lifetime) (\<lambda>response.
               Ok (response, if response \<noteq> [] then set_session client (s\<lparr>ss_allocation := Some pending\<rparr>) sv else sv)))"

definition handle_allocate :: "externals \<Rightarrow> turn_io \<Rightarrow> SocketAddr \<Rightarrow> Session \<Rightarrow> StunMessageInfo \<Rightarrow> TurnAuthResult \<Rightarrow>
    bytes \<Rightarrow> u32 \<Rightarrow> TurnServer \<Rightarrow> (bytes \<times> TurnServer) outcome" where
  "handle_allocate ex io client s m auth p lifetime sv =
     (let key = ar_key auth;
          fail = \<lambda>code. bind_outcome (turn_Error (ex_hmac ex) m code key []) (\<lambda>r. Ok (r, sv))
      in if AttributeCount m REQUESTED_TRANSPORT \<noteq> 1 then fail 400
         else case DecodeRequestedTransport m of
           Fault \<Rightarrow> Fault
         | Reject \<Rightarrow> fail 400
         | Ok transport \<Rightarrow>
             if transport \<noteq> 17 then fail 442
             else case requested_family m of
               Fault \<Rightarrow> Fault
             | Reject \<Rightarrow> fail 400
             | Ok family \<Rightarrow>
                 let public_ip = (if family = IPv6 then advertised_ip_v6 (sv_options sv) else advertised_ip (sv_options sv)) in
                 if public_ip = [] then fail 440
                 else case ss_allocation s of
                   Some al \<Rightarrow>
                     if al_transaction al \<noteq> txid m then fail 437
                     else if al_request al \<noteq> p then fail 400
                     else bind_outcome (allocate_answer ex client m key al
                            (ucast ((al_expires al - io_now_request io + 999) div 1000))) (\<lambda>response. Ok (response, sv))
                 | None \<Rightarrow> handle_new_allocation ex io client s m auth p family public_ip (clamp_lifetime lifetime) sv)"

fun peers_loop :: "TurnServerOptions \<Rightarrow> StunMessageInfo \<Rightarrow> Allocation \<Rightarrow> AttrView list \<Rightarrow> (u16 + SocketAddr list) outcome" where
  "peers_loop opts m al [] = Ok (Inr [])"
| "peers_loop opts m al (a # as) =
     (if av_type a = attr_code MESSAGE_INTEGRITY then Ok (Inr [])
      else if av_type a \<noteq> attr_code XOR_PEER_ADDRESS then peers_loop opts m al as
      else bind_outcome (DecodePeer opts m a al) (\<lambda>(err, peer).
        if err \<noteq> 0 then Ok (Inl err)
        else bind_outcome (peers_loop opts m al as) (\<lambda>r. Ok (map_sum id (Cons peer) r))))"

definition grant :: "u64 \<Rightarrow> SocketAddr list \<Rightarrow> (SocketAddr \<times> u64) list \<Rightarrow> (SocketAddr \<times> u64) list" where
  "grant expires peers perms = fold (\<lambda>peer. AList.update (PeerIp peer) expires) peers perms"

definition handle_channel_bind :: "externals \<Rightarrow> turn_io \<Rightarrow> SocketAddr \<Rightarrow> Session \<Rightarrow> Allocation \<Rightarrow> StunMessageInfo \<Rightarrow> bytes \<Rightarrow>
    SocketAddr \<Rightarrow> (SocketAddr \<times> u64) list \<Rightarrow> TurnServer \<Rightarrow> (bytes \<times> TurnServer) outcome" where
  "handle_channel_bind ex io client s al m key peer permissions sv =
     (let fail = \<lambda>code. bind_outcome (turn_Error (ex_hmac ex) m code key []) (\<lambda>r. Ok (r, sv)) in
      if AttributeCount m CHANNEL_NUMBER \<noteq> 1 then fail 400
      else case DecodeChannelNumber m of
        Fault \<Rightarrow> Fault
      | Reject \<Rightarrow> fail 400
      | Ok channel \<Rightarrow>
          if (case map_of (al_channels al) channel of None \<Rightarrow> False | Some c \<Rightarrow> \<not> addr_eq (ch_peer c) peer) then fail 400
          else if list_ex (\<lambda>(n, c). n \<noteq> channel \<and> addr_eq (ch_peer c) peer) (al_channels al) then fail 400
          else
            let channels = AList.update channel \<lparr>ch_peer = peer, ch_expires = Deadline (io_now_request io) 600000\<rparr> (al_channels al) in
            if length channels > max_channels (sv_options sv) then fail 508
            else bind_outcome (turn_Success (ex_hmac ex) m key []) (\<lambda>response.
              if response = [] then Ok ([], sv)
              else Ok (response, set_session client
                (s\<lparr>ss_allocation := Some (al\<lparr>al_permissions := permissions, al_channels := channels\<rparr>)\<rparr>) sv)))"

definition handle_peers :: "externals \<Rightarrow> turn_io \<Rightarrow> SocketAddr \<Rightarrow> Session \<Rightarrow> StunMessageInfo \<Rightarrow> bytes \<Rightarrow>
    TurnServer \<Rightarrow> (bytes \<times> TurnServer) outcome" where
  "handle_peers ex io client s m key sv =
     (let fail = \<lambda>code. bind_outcome (turn_Error (ex_hmac ex) m code key []) (\<lambda>r. Ok (r, sv)) in
      case ss_allocation s of
        None \<Rightarrow> fail 437
      | Some al \<Rightarrow>
          bind_outcome (peers_loop (sv_options sv) m al (attrs m)) (\<lambda>r. case r of
            Inl err \<Rightarrow> fail err
          | Inr peers \<Rightarrow>
              if peers = [] then fail 400
              else if msg_method m = method_code ChannelBind \<and> length peers \<noteq> 1 then fail 400
              else
                let permissions = grant (Deadline (io_now_request io) 300000) peers (al_permissions al) in
                if length permissions > max_permissions (sv_options sv) then fail 508
                else if msg_method m = method_code ChannelBind
                then handle_channel_bind ex io client s al m key (hd peers) permissions sv
                else bind_outcome (turn_Success (ex_hmac ex) m key []) (\<lambda>response.
                  Ok (response, if response \<noteq> []
                    then set_session client (s\<lparr>ss_allocation := Some (al\<lparr>al_permissions := permissions\<rparr>)\<rparr>) sv else sv))))"

definition HandleRequest :: "externals \<Rightarrow> turn_io \<Rightarrow> SocketAddr \<Rightarrow> Session \<Rightarrow> StunMessageInfo \<Rightarrow> TurnAuthResult \<Rightarrow>
    bytes \<Rightarrow> TurnServer \<Rightarrow> (bytes \<times> TurnServer) outcome" where
  "HandleRequest ex io client s m auth p sv =
     (let key = ar_key auth;
          fail = \<lambda>code unknown. bind_outcome (turn_Error (ex_hmac ex) m code key unknown) (\<lambda>r. Ok (r, sv))
      in if (case ss_allocation s of None \<Rightarrow> False | Some al \<Rightarrow> al_username al \<noteq> ar_username auth)
         then fail (if msg_method m = method_code Allocate then 437 else 441) []
         else if UnknownAttributes m \<noteq> [] then fail 420 (UnknownAttributes m)
         else if msg_method m = method_code Allocate \<or> msg_method m = method_code Refresh
         then (case request_lifetime m of
                 Fault \<Rightarrow> Fault
               | Reject \<Rightarrow> fail 400 []
               | Ok lifetime \<Rightarrow>
                   if msg_method m = method_code Refresh then handle_refresh ex io client s m key lifetime sv
                   else handle_allocate ex io client s m auth p lifetime sv)
         else handle_peers ex io client s m key sv)"

section \<open>Datagrams\<close>

definition count_client_to_peer :: "turn_io \<Rightarrow> TurnServer \<Rightarrow> TurnServer" where
  "count_client_to_peer io sv =
     (if io_sent io then sv\<lparr>sv_stats := (sv_stats sv)\<lparr>client_to_peer := client_to_peer (sv_stats sv) + 1\<rparr>\<rparr> else sv)"

definition count_peer_to_client :: "turn_io \<Rightarrow> TurnServer \<Rightarrow> TurnServer" where
  "count_peer_to_client io sv =
     (if io_sent io then sv\<lparr>sv_stats := (sv_stats sv)\<lparr>peer_to_client := peer_to_client (sv_stats sv) + 1\<rparr>\<rparr> else sv)"

definition client_allocation :: "TurnServer \<Rightarrow> SocketAddr \<Rightarrow> Allocation option" where
  "client_allocation sv client = (case map_of (sv_sessions sv) client of None \<Rightarrow> None | Some s \<Rightarrow> ss_allocation s)"

definition on_channel_data :: "turn_io \<Rightarrow> SocketAddr \<Rightarrow> TurnChannelDataView \<Rightarrow> TurnServer \<Rightarrow> TurnServer \<times> turn_out list" where
  "on_channel_data io client v sv =
     (case client_allocation sv client of
        None \<Rightarrow> (sv, [])
      | Some al \<Rightarrow> (case map_of (al_channels al) (cd_channel v) of
          None \<Rightarrow> (sv, [])
        | Some c \<Rightarrow>
            if \<not> PeerAllowed (sv_options sv) (ch_peer c) True then (sv, [])
            else (count_client_to_peer io sv, [ToPeer client (al_generation al) (ch_peer c) (cd_data v)])))"

definition on_binding :: "externals \<Rightarrow> SocketAddr \<Rightarrow> StunMessageInfo \<Rightarrow> nat \<Rightarrow> TurnServer \<Rightarrow> (TurnServer \<times> turn_out list) outcome" where
  "on_binding ex client m len sv =
     (if \<not> IsBindingRequest m \<or> len > 4096 then Ok (sv, [])
      else
        let send = \<lambda>response. Ok (sv, if response \<noteq> [] then [ToClient client response] else []) in
        if UnknownAttributes m \<noteq> [] then bind_outcome (turn_Error (ex_hmac ex) m 420 [] (UnknownAttributes m)) send
        else case XorAddressAttribute XOR_MAPPED_ADDRESS (Endpoint client) (txid m) of
          Fault \<Rightarrow> Fault
        | Reject \<Rightarrow> Ok (sv, [])
        | Ok mapped \<Rightarrow> bind_outcome (turn_Success (ex_hmac ex) m [] [mapped]) send)"

definition on_send :: "turn_io \<Rightarrow> SocketAddr \<Rightarrow> StunMessageInfo \<Rightarrow> TurnServer \<Rightarrow> (TurnServer \<times> turn_out list) outcome" where
  "on_send io client m sv =
     (case client_allocation sv client of
        None \<Rightarrow> Ok (sv, [])
      | Some al \<Rightarrow>
          if UnknownAttributes m \<noteq> [] \<or> AttributeCount m XOR_PEER_ADDRESS \<noteq> 1 \<or> AttributeCount m DATA \<noteq> 1 then Ok (sv, [])
          else case FindAttr m (attr_code XOR_PEER_ADDRESS) of
            None \<Rightarrow> Fault
          | Some attr \<Rightarrow>
              bind_outcome (DecodePeer (sv_options sv) m attr al) (\<lambda>(err, peer).
                if err \<noteq> 0 \<or> \<not> HasPermission (io_now_permission io) al peer then Ok (sv, [])
                else bind_outcome (found_attr_value m DATA) (\<lambda>payload.
                  Ok (count_client_to_peer io sv, [ToPeer client (al_generation al) peer payload]))))"

text \<open>The answer to a request that is not in the cache, and the cache of the last eight answers.\<close>

definition request_response :: "externals \<Rightarrow> turn_io \<Rightarrow> SocketAddr \<Rightarrow> Session \<Rightarrow> StunMessageInfo \<Rightarrow> TurnAuthResult \<Rightarrow> bytes \<Rightarrow>
    TurnServer \<Rightarrow> (bytes \<times> TurnServer) outcome" where
  "request_response ex io client s m auth p sv =
     (if ar_status auth = Response then Ok (ar_response auth, sv)
      else if ar_status auth = Authorized then HandleRequest ex io client s m auth p sv
      else Ok ([], sv))"

definition push_cache :: "CachedResponse \<Rightarrow> Session \<Rightarrow> Session" where
  "push_cache entry s =
     (let cache = ss_cache s @ [entry] in s\<lparr>ss_cache := (if length cache > 8 then tl cache else cache)\<rparr>)"

definition cache_response :: "SocketAddr \<Rightarrow> CachedResponse \<Rightarrow> TurnServer \<Rightarrow> TurnServer" where
  "cache_response client entry sv =
     (case map_of (sv_sessions sv) client of None \<Rightarrow> sv | Some s \<Rightarrow> set_session client (push_cache entry s) sv)"

definition on_request :: "externals \<Rightarrow> turn_io \<Rightarrow> SocketAddr \<Rightarrow> StunMessageInfo \<Rightarrow> bytes \<Rightarrow> TurnServer \<Rightarrow>
    (TurnServer \<times> turn_out list) outcome" where
  "on_request ex io client m p sv =
     (if map_of (sv_sessions sv) client = None \<and> length (sv_sessions sv) \<ge> max_sessions (sv_options sv) then Ok (sv, [])
      else
        let s = (case map_of (sv_sessions sv) client of None \<Rightarrow> Session_init | Some s \<Rightarrow> s)\<lparr>last_activity := io_now io\<rparr>;
            sv = set_session client s sv
        in case find (\<lambda>c. cr_transaction c = txid m) (ss_cache s) of
             Some cached \<Rightarrow> Ok (if cr_request cached = p then SendResponse io client (cr_response cached) (cr_unauthorized cached) sv
                               else (sv, []))
           | None \<Rightarrow>
               bind_outcome (Authenticate (ex_hmac ex) (ex_md5 ex) (sv_auth sv) (io_nonce io) (io_now_auth io) p (ss_auth s)) (\<lambda>(auth, ctx).
               bind_outcome (request_response ex io client (s\<lparr>ss_auth := ctx\<rparr>) m auth p (set_session client (s\<lparr>ss_auth := ctx\<rparr>) sv)) (\<lambda>(response, sv).
                 if response = [] then Ok (sv, [])
                 else
                   let unauthorized = (ar_status auth = Response \<and> ar_error_code auth = 401)
                   in Ok (SendResponse io client response unauthorized
                        (cache_response client \<lparr>cr_transaction = txid m, cr_request = p, cr_response = response,
                           cr_expires = Deadline (io_now io) 40000, cr_unauthorized = unauthorized\<rparr> sv)))))"

definition OnControl :: "externals \<Rightarrow> turn_io \<Rightarrow> SocketAddr \<Rightarrow> bytes \<Rightarrow> TurnServer \<Rightarrow> (TurnServer \<times> turn_out list) outcome" where
  "OnControl ex io client p sv =
     (if \<not> sv_started sv \<or> p = [] \<or> length p > 65507 \<or> \<not> IsValid client then Ok (sv, [])
      else
        let sv = Prune (io_now io) sv in
        case ParseChannelDataDatagram p of
          Fault \<Rightarrow> Fault
        | Ok v \<Rightarrow> Ok (on_channel_data io client v sv)
        | Reject \<Rightarrow> (case ParseStunDatagram p of
            Fault \<Rightarrow> Fault
          | Reject \<Rightarrow> Ok (sv, [])
          | Ok m \<Rightarrow> bind_outcome (ValidFingerprint m) (\<lambda>valid.
              if \<not> valid then Ok (sv, [])
              else if msg_method m = method_code Binding then on_binding ex client m (length p) sv
              else if msg_method m = method_code Send \<and> msg_klass m = class_code Indication then on_send io client m sv
              else if msg_klass m \<noteq> class_code Request \<or> length p > 4096 \<or>
                (msg_method m \<noteq> method_code Allocate \<and> msg_method m \<noteq> method_code Refresh \<and>
                 msg_method m \<noteq> method_code CreatePermission \<and> msg_method m \<noteq> method_code ChannelBind) then Ok (sv, [])
              else on_request ex io client m p sv)))"

definition OnRelay :: "externals \<Rightarrow> turn_io \<Rightarrow> SocketAddr \<Rightarrow> nat \<Rightarrow> SocketAddr \<Rightarrow> bytes \<Rightarrow> TurnServer \<Rightarrow>
    (TurnServer \<times> turn_out list) outcome" where
  "OnRelay ex io client gen peer d sv =
     (if \<not> sv_started sv \<or> \<not> PeerAllowed (sv_options sv) peer True then Ok (sv, [])
      else
        let sv = Prune (io_now io) sv in
        case client_allocation sv client of
          None \<Rightarrow> Ok (sv, [])
        | Some al \<Rightarrow>
            if al_generation al \<noteq> gen \<or> \<not> HasPermission (io_now_permission io) al peer then Ok (sv, [])
            else case find (\<lambda>(n, c). addr_eq (ch_peer c) peer) (al_channels al) of
              Some (n, c) \<Rightarrow> (case BuildChannelData n d False of
                  Fault \<Rightarrow> Fault
                | Reject \<Rightarrow> Ok (sv, [])
                | Ok packet \<Rightarrow> Ok (count_peer_to_client io sv, [ToClient client packet]))
            | None \<Rightarrow> (case io_txid io of
                None \<Rightarrow> Ok (sv, [])
              | Some tid \<Rightarrow> (case XorAddressAttribute XOR_PEER_ADDRESS (Endpoint peer) tid of
                  Fault \<Rightarrow> Fault
                | Reject \<Rightarrow> Ok (sv, [])
                | Ok address \<Rightarrow> (case BuildMessage (ex_hmac ex) (method_code Data) (class_code Indication) tid
                      [address, \<lparr>sa_type = attr_code DATA, sa_value = d\<rparr>] [] False of
                    Fault \<Rightarrow> Fault
                  | Reject \<Rightarrow> Ok (sv, [])
                  | Ok packet \<Rightarrow> Ok (count_peer_to_client io sv, [ToClient client packet])))))"

section \<open>Life cycle\<close>

definition RelayConfigValid :: "externals \<Rightarrow> bytes \<Rightarrow> bytes \<Rightarrow> bool \<Rightarrow> bool" where
  "RelayConfigValid ex bind_ip public_ip v6 =
     (if bind_ip = [] \<and> public_ip = [] then True
      else
        let bind = FromIPPort (ex_pton4 ex) (ex_pton6 ex) bind_ip 0;
            advertised = FromIPPort (ex_pton4 ex) (ex_pton6 ex) public_ip 0
        in IsValid bind \<and> (if v6 then IsV6 bind else IsV4 bind) \<and> (if v6 then IsV6 advertised else IsV4 advertised) \<and>
           Unicast advertised \<and> (case bind of Inet6 ip port scope \<Rightarrow> \<not> v4mapped ip | _ \<Rightarrow> True))"

definition StartValid :: "externals \<Rightarrow> TurnServer \<Rightarrow> bool" where
  "StartValid ex sv =
     (let opts = sv_options sv;
          listen = FromIPPort (ex_pton4 ex) (ex_pton6 ex) (listen_ip opts) (listen_port opts)
      in \<not> sv_started sv \<and> IsConfigured (sv_auth sv) \<and> IsValid listen \<and>
         (dual_stack opts \<longrightarrow> (case listen of Inet6 ip port scope \<Rightarrow> ip = (0, 0, 0, 0) | _ \<Rightarrow> False)) \<and>
         RelayConfigValid ex (relay_bind_ip opts) (advertised_ip opts) False \<and>
         RelayConfigValid ex (relay_bind_ip_v6 opts) (advertised_ip_v6 opts) True \<and>
         \<not> (advertised_ip opts = [] \<and> advertised_ip_v6 opts = []) \<and>
         (if relay_port_min opts = 0 then relay_port_max opts = 0 else relay_port_min opts \<le> relay_port_max opts) \<and>
         max_sessions opts \<noteq> 0 \<and> max_allocations opts \<noteq> 0 \<and> max_allocations_per_user opts \<noteq> 0 \<and>
         max_permissions opts \<noteq> 0 \<and> max_channels opts \<noteq> 0 \<and> unauthorized_ratelimit_rps opts \<noteq> 0)"

definition TurnServer_Stop :: "TurnServer \<Rightarrow> TurnServer" where
  "TurnServer_Stop sv = sv\<lparr>sv_started := False, sv_sessions := [], sv_limiter := Limiter_Reset\<rparr>"

text \<open>Whether the control socket and the timer could be started are arguments.\<close>

definition TurnServer_Start :: "externals \<Rightarrow> bool \<Rightarrow> bool \<Rightarrow> TurnServer \<Rightarrow> bool \<times> TurnServer" where
  "TurnServer_Start ex socket_ok timer_ok sv =
     (if \<not> StartValid ex sv \<or> \<not> socket_ok then (False, sv)
      else if \<not> timer_ok then (False, TurnServer_Stop sv)
      else (True, sv\<lparr>sv_started := True\<rparr>))"

datatype turn_event =
    Control turn_io SocketAddr bytes
  | Relayed turn_io SocketAddr nat SocketAddr bytes
  | Tick u64
  | Start bool bool
  | Stop

fun turn_step :: "externals \<Rightarrow> TurnServer \<Rightarrow> turn_event \<Rightarrow> (TurnServer \<times> turn_out list) outcome" where
  "turn_step ex sv (Control io client p) = OnControl ex io client p sv"
| "turn_step ex sv (Relayed io client gen peer d) = OnRelay ex io client gen peer d sv"
| "turn_step ex sv (Tick now) = Ok (Prune now sv, [])"
| "turn_step ex sv (Start socket_ok timer_ok) = Ok (snd (TurnServer_Start ex socket_ok timer_ok sv), [])"
| "turn_step ex sv Stop = Ok (TurnServer_Stop sv, [])"

end
