(* ===== verification/Turn_Allocation.thy ===== *)
theory Turn_Allocation
  imports Turn_Server
begin

text \<open>
  What the requests of the TURN server may do to an allocation, as an abstract step relation, and the proof that
  the request handler refines it.  An allocation is created empty for the user who asked, refreshed or released by
  this user, and gains permissions and channels within its limits, for peers the policy allows and of its own
  address family; a channel is never moved to another peer and a peer never gets a second channel.
\<close>

section \<open>The abstract machine\<close>

inductive allocation_step :: "TurnServerOptions \<Rightarrow> u64 \<Rightarrow> bytes \<Rightarrow> nat \<Rightarrow> Allocation option \<Rightarrow> Allocation option \<Rightarrow> bool"
  for opts now user gen where
  keep: "allocation_step opts now user gen x x"
| create: "allocation_step opts now user gen None (Some al)"
    if "al_username al = user" "al_generation al = Suc gen" "al_permissions al = []" "al_channels al = []"
      "al_expires al = Deadline now (ucast l * 1000)" "600 \<le> l" "l \<le> (3600 :: u32)"
| refresh: "allocation_step opts now user gen (Some al) (Some (al\<lparr>al_expires := Deadline now (ucast l * 1000)\<rparr>))"
    if "al_username al = user" "600 \<le> l" "l \<le> (3600 :: u32)"
| release: "allocation_step opts now user gen (Some al) None"
    if "al_username al = user"
| permit: "allocation_step opts now user gen (Some al) (Some (al\<lparr>al_permissions := perms\<rparr>))"
    if "al_username al = user" "perms = grant (Deadline now 300000) peers (al_permissions al)" "length perms \<le> max_permissions opts"
      "\<forall>q \<in> set peers. PeerAllowed opts q False \<and> IsV6 q = IsV6 (al_advertised al)"
| bind: "allocation_step opts now user gen (Some al) (Some (al\<lparr>al_permissions := perms, al_channels := chans\<rparr>))"
    if "al_username al = user" "perms = grant (Deadline now 300000) [peer] (al_permissions al)" "length perms \<le> max_permissions opts"
      "PeerAllowed opts peer True" "IsV6 peer = IsV6 (al_advertised al)" "ValidChannel n"
      "\<And>c. map_of (al_channels al) n = Some c \<Longrightarrow> ch_peer c = peer"
      "\<And>k c. (k, c) \<in> set (al_channels al) \<Longrightarrow> ch_peer c = peer \<Longrightarrow> k = n"
      "chans = AList.update n \<lparr>ch_peer = peer, ch_expires = Deadline now 600000\<rparr> (al_channels al)" "length chans \<le> max_channels opts"

text \<open>The state after a request: the session with its new allocation, and what opening a relay moved on.\<close>

definition after_request :: "SocketAddr \<Rightarrow> Session \<Rightarrow> Allocation option \<Rightarrow> u32 \<Rightarrow> nat \<Rightarrow> TurnServer \<Rightarrow> TurnServer" where
  "after_request client s x np g sv = set_session client (s\<lparr>ss_allocation := x\<rparr>) (sv\<lparr>sv_next_port := np, sv_generation := g\<rparr>)"

section \<open>Association lists\<close>

lemma update_same: "map_of xs k = Some v \<Longrightarrow> AList.update k v xs = xs"
  by (induction xs) (auto split: if_splits)

lemma length_filter_update:
  "length (filter P (AList.update k v xs)) + (if \<exists>v0. map_of xs k = Some v0 \<and> P (k, v0) then 1 else 0) =
     length (filter P xs) + (if P (k, v) then 1 else 0)"
  by (induction xs) (auto split: if_splits)

lemma after_request_same:
  assumes "map_of (sv_sessions sv) client = Some s"
  shows "after_request client s (ss_allocation s) np g sv = sv\<lparr>sv_next_port := np, sv_generation := g\<rparr>"
proof -
  have "s\<lparr>ss_allocation := ss_allocation s\<rparr> = s"
    by (cases s) simp
  then show ?thesis
    using update_same [OF assms] by (simp add: after_request_def set_session_def)
qed

lemma after_request_same' [simp]:
  assumes "map_of (sv_sessions sv) client = Some s"
  shows "after_request client s (ss_allocation s) (sv_next_port sv) (sv_generation sv) sv = sv"
  using after_request_same [OF assms] by (cases sv) simp

section \<open>Peers\<close>

lemma DecodePeer_allowed:
  assumes "DecodePeer opts m a al = Ok (0, peer)"
  shows "PeerAllowed opts peer (msg_method m \<noteq> method_code CreatePermission) \<and> IsV6 peer = IsV6 (al_advertised al)"
  using assms by (auto simp: DecodePeer_def Let_def split: outcome.splits if_splits)

lemma PeerAllowed_any_port: "PeerAllowed opts peer b \<Longrightarrow> PeerAllowed opts peer False"
  by (auto simp: PeerAllowed_def)

lemma peers_loop_allowed:
  assumes "peers_loop opts m al as = Ok (Inr peers)" "q \<in> set peers"
  shows "PeerAllowed opts q (msg_method m \<noteq> method_code CreatePermission) \<and> IsV6 q = IsV6 (al_advertised al)"
  using assms
proof (induction as arbitrary: peers)
  case (Cons a as)
  show ?case
  proof (cases "av_type a = attr_code XOR_PEER_ADDRESS")
    case True
    then obtain peer ps where p: "DecodePeer opts m a al = Ok (0, peer)" "peers_loop opts m al as = Ok (Inr ps)" "peers = peer # ps"
      using Cons.prems(1) by (auto simp: bind_outcome_Ok_iff split: if_splits sum.splits) (metis sum.exhaust map_sum.simps sum.distinct(1) sum.inject(2))
    then show ?thesis
      using DecodePeer_allowed [OF p(1)] Cons.IH [OF p(2)] Cons.prems(2) by auto
  next
    case False
    then show ?thesis
      using Cons by (auto split: if_splits)
  qed
qed simp

section \<open>Every request is a step\<close>

definition refines :: "TurnServerOptions \<Rightarrow> u64 \<Rightarrow> bytes \<Rightarrow> SocketAddr \<Rightarrow> Session \<Rightarrow> TurnServer \<Rightarrow> bytes \<Rightarrow> TurnServer \<Rightarrow> bool" where
  "refines opts now user client s sv resp sv' \<longleftrightarrow>
     (\<exists>x np g. sv' = after_request client s x np g sv \<and> allocation_step opts now user (sv_generation sv) (ss_allocation s) x \<and>
        (x \<noteq> ss_allocation s \<longrightarrow> resp \<noteq> []) \<and> sv_generation sv \<le> g \<and>
        (ss_allocation s = None \<and> x \<noteq> None \<longrightarrow> g = Suc (sv_generation sv) \<and>
           AllocationCount sv [] < max_allocations opts \<and> AllocationCount sv user < max_allocations_per_user opts))"

lemma refines_keep:
  assumes "map_of (sv_sessions sv) client = Some s" "sv_generation sv \<le> g"
  shows "refines opts now user client s sv resp (sv\<lparr>sv_next_port := np, sv_generation := g\<rparr>)"
  unfolding refines_def
  using assms after_request_same [OF assms(1)]
  by (intro exI [of _ "ss_allocation s"] exI [of _ np] exI [of _ g]) (auto simp: allocation_step.keep)

lemma refines_refl:
  assumes "map_of (sv_sessions sv) client = Some s"
  shows "refines opts now user client s sv resp sv"
proof -
  have "sv\<lparr>sv_next_port := sv_next_port sv, sv_generation := sv_generation sv\<rparr> = sv"
    by (cases sv) simp
  then show ?thesis
    using refines_keep [OF assms, of "sv_generation sv" opts now user resp "sv_next_port sv"] by simp
qed

lemma refines_change:
  assumes "allocation_step opts now user (sv_generation sv) (Some al) x" "ss_allocation s = Some al" "resp \<noteq> []"
  shows "refines opts now user client s sv resp (set_session client (s\<lparr>ss_allocation := x\<rparr>) sv)"
proof -
  have "set_session client (s\<lparr>ss_allocation := x\<rparr>) sv = after_request client s x (sv_next_port sv) (sv_generation sv) sv"
    by (cases sv) (simp add: after_request_def set_session_def)
  then show ?thesis
    using assms unfolding refines_def by (intro exI [of _ x] exI [of _ "sv_next_port sv"] exI [of _ "sv_generation sv"]) simp
qed

lemma fail_keeps:
  assumes "bind_outcome r (\<lambda>r. Ok (r, sv)) = Ok (resp, sv')" "map_of (sv_sessions sv) client = Some s"
  shows "refines opts now user client s sv resp sv'"
  using assms(1) refines_refl [OF assms(2)] by (auto simp: bind_outcome_Ok_iff)

lemma clamp_lifetime_bounds: "600 \<le> clamp_lifetime l" "clamp_lifetime l \<le> 3600"
  by (auto simp: clamp_lifetime_def not_less)

lemma handle_refresh_refines:
  assumes "handle_refresh ex io client s m key lifetime sv = Ok (resp, sv')" "map_of (sv_sessions sv) client = Some s"
    and "\<And>al. ss_allocation s = Some al \<Longrightarrow> al_username al = user"
  shows "refines (sv_options sv) (io_now_request io) user client s sv resp sv'"
proof (cases "ss_allocation s")
  case None
  then show ?thesis
    using assms(1) fail_keeps [OF _ assms(2)] by (simp add: handle_refresh_def)
next
  case (Some al)
  consider "sv' = sv" | "resp \<noteq> []" "sv' = set_session client (s\<lparr>ss_allocation := None\<rparr>) sv"
    | "resp \<noteq> []" "sv' = set_session client (s\<lparr>ss_allocation := Some (al\<lparr>al_expires := Deadline (io_now_request io) (ucast (clamp_lifetime lifetime) * 1000)\<rparr>)\<rparr>) sv"
    using assms(1) Some by (auto simp: handle_refresh_def bind_outcome_Ok_iff Let_def split: if_splits)
  then show ?thesis
  proof cases
    case 1
    then show ?thesis
      using refines_refl [OF assms(2)] by simp
  next
    case 2
    then show ?thesis
      using refines_change [OF allocation_step.release Some] assms(3) [OF Some] by simp
  next
    case 3
    then show ?thesis
      using refines_change [OF allocation_step.refresh [OF assms(3) [OF Some] clamp_lifetime_bounds] Some] by simp
  qed
qed

lemma OpenRelay_frame:
  assumes "OpenRelay io family sv = (r, sv')"
  obtains np where "sv' = sv\<lparr>sv_next_port := np\<rparr>"
  using assms by (auto simp: OpenRelay_def Let_def split: prod.splits)

lemma handle_new_allocation_refines:
  assumes "handle_new_allocation ex io client s m auth p family public_ip lifetime sv = Ok (resp, sv')"
    and "map_of (sv_sessions sv) client = Some s" "ss_allocation s = None" "600 \<le> lifetime" "lifetime \<le> 3600"
  shows "refines (sv_options sv) (io_now_request io) (ar_username auth) client s sv resp sv'"
proof (cases "AllocationCount sv [] \<ge> max_allocations (sv_options sv) \<or>
    AllocationCount sv (ar_username auth) \<ge> max_allocations_per_user (sv_options sv)")
  case True
  then show ?thesis
    using assms(1) fail_keeps [OF _ assms(2)] by (simp add: handle_new_allocation_def)
next
  case False
  obtain r sv1 where o: "OpenRelay io family sv = (r, sv1)"
    by fastforce
  obtain np where sv1: "sv1 = sv\<lparr>sv_next_port := np\<rparr>"
    by (rule OpenRelay_frame [OF o])
  show ?thesis
  proof (cases r)
    case None
    have "sv1 = sv\<lparr>sv_next_port := np, sv_generation := sv_generation sv\<rparr>"
      unfolding sv1 by (cases sv) simp
    moreover have "sv' = sv1"
      using assms(1) False o None by (auto simp: handle_new_allocation_def bind_outcome_Ok_iff)
    ultimately show ?thesis
      using refines_keep [OF assms(2), of "sv_generation sv"] by simp
  next
    case (Some port)
    define pending where "pending = \<lparr>al_relay = port, al_advertised = FromIPPort (ex_pton4 ex) (ex_pton6 ex) public_ip port,
      al_username = ar_username auth, al_transaction = txid m, al_request = p, al_generation = sv_generation sv + 1,
      al_expires = Deadline (io_now_request io) (ucast lifetime * 1000), al_permissions = [], al_channels = []\<rparr>"
    let ?sv = "sv\<lparr>sv_next_port := np, sv_generation := Suc (sv_generation sv)\<rparr>"
    have c: "sv' = (if resp \<noteq> [] then after_request client s (Some pending) np (Suc (sv_generation sv)) sv else ?sv)"
      using assms(1) False o Some
      by (auto simp: handle_new_allocation_def bind_outcome_Ok_iff sv1 pending_def Let_def after_request_def)
    show ?thesis
    proof (cases "resp = []")
      case True
      then show ?thesis
        using c refines_keep [OF assms(2), of "Suc (sv_generation sv)"] by simp
    next
      case r: False
      have "allocation_step (sv_options sv) (io_now_request io) (ar_username auth) (sv_generation sv) None (Some pending)"
        using assms(4,5) by (intro allocation_step.create [of _ _ _ _ lifetime]) (simp_all add: pending_def)
      then show ?thesis
        using c r False assms(3) unfolding refines_def
        by (intro exI [of _ "Some pending"] exI [of _ np] exI [of _ "Suc (sv_generation sv)"]) simp
    qed
  qed
qed

lemma handle_allocate_refines:
  assumes "handle_allocate ex io client s m auth p lifetime sv = Ok (resp, sv')" "map_of (sv_sessions sv) client = Some s"
  shows "refines (sv_options sv) (io_now_request io) (ar_username auth) client s sv resp sv'"
proof -
  have fk: "bind_outcome r (\<lambda>r. Ok (r, sv)) = Ok (resp, sv') \<Longrightarrow> ?thesis" for r
    by (rule fail_keeps [OF _ assms(2)])
  have new: "handle_new_allocation ex io client s m auth p family ip (clamp_lifetime lifetime) sv = Ok (resp, sv') \<Longrightarrow>
      ss_allocation s = None \<Longrightarrow> ?thesis" for family ip
    using handle_new_allocation_refines [OF _ assms(2)] clamp_lifetime_bounds by blast
  show ?thesis
    using assms(1) unfolding handle_allocate_def Let_def
    by (auto split: outcome.splits if_splits option.splits intro: fk new)
qed

lemma handle_channel_bind_refines:
  assumes "handle_channel_bind ex io client s al m key peer perms sv = Ok (resp, sv')" "map_of (sv_sessions sv) client = Some s"
    and "ss_allocation s = Some al" "al_username al = user" "PeerAllowed (sv_options sv) peer True" "IsV6 peer = IsV6 (al_advertised al)"
    and "perms = grant (Deadline (io_now_request io) 300000) [peer] (al_permissions al)" "length perms \<le> max_permissions (sv_options sv)"
  shows "refines (sv_options sv) (io_now_request io) user client s sv resp sv'"
proof (cases "\<exists>n. AttributeCount m CHANNEL_NUMBER = 1 \<and> DecodeChannelNumber m = Ok n")
  case False
  then show ?thesis
    using assms(1) fail_keeps [OF _ assms(2)]
    by (auto simp: handle_channel_bind_def Let_def split: outcome.splits if_splits)
next
  case True
  then obtain n where n: "AttributeCount m CHANNEL_NUMBER = 1" "DecodeChannelNumber m = Ok n"
    by blast
  define chans where "chans = AList.update n \<lparr>ch_peer = peer, ch_expires = Deadline (io_now_request io) 600000\<rparr> (al_channels al)"
  let ?old = "case map_of (al_channels al) n of None \<Rightarrow> False | Some c \<Rightarrow> \<not> addr_eq (ch_peer c) peer"
  let ?two = "list_ex (\<lambda>(k, c). k \<noteq> n \<and> addr_eq (ch_peer c) peer) (al_channels al)"
  show ?thesis
  proof (cases "?old \<or> ?two \<or> length chans > max_channels (sv_options sv)")
    case True
    then show ?thesis
      using assms(1) n fail_keeps [OF _ assms(2)] by (auto simp: handle_channel_bind_def Let_def chans_def split: if_splits)
  next
    case guards: False
    have v: "ValidChannel n"
      using n(2) by (auto simp: DecodeChannelNumber_def bind_outcome_Ok_iff rd_simps split: option.splits if_splits)
    have "sv' = sv \<or> resp \<noteq> [] \<and> sv' = set_session client (s\<lparr>ss_allocation := Some (al\<lparr>al_permissions := perms, al_channels := chans\<rparr>)\<rparr>) sv"
      using assms(1) n guards by (auto simp: handle_channel_bind_def bind_outcome_Ok_iff Let_def chans_def split: if_splits)
    moreover have "IsValid peer"
      using assms(5) by (cases peer) (simp_all add: PeerAllowed_def IsValid_def)
    then have "allocation_step (sv_options sv) (io_now_request io) user (sv_generation sv) (Some al)
        (Some (al\<lparr>al_permissions := perms, al_channels := chans\<rparr>))"
      using guards assms(4-8) v
      by (intro allocation_step.bind [where peer = peer and n = n])
        (auto simp: addr_eq_iff chans_def list_ex_iff split: option.splits)
    ultimately show ?thesis
      using refines_refl [OF assms(2)] refines_change [OF _ assms(3)] by auto
  qed
qed

lemma handle_peers_refines:
  assumes "handle_peers ex io client s m key sv = Ok (resp, sv')" "map_of (sv_sessions sv) client = Some s"
    and "\<And>al. ss_allocation s = Some al \<Longrightarrow> al_username al = user"
  shows "refines (sv_options sv) (io_now_request io) user client s sv resp sv'"
proof (cases "ss_allocation s")
  case None
  then show ?thesis
    using assms(1) fail_keeps [OF _ assms(2)] by (simp add: handle_peers_def)
next
  case (Some al)
  let ?perms = "\<lambda>peers. grant (Deadline (io_now_request io) 300000) peers (al_permissions al)"
  let ?bind = "msg_method m = method_code ChannelBind"
  obtain r where r: "peers_loop (sv_options sv) m al (attrs m) = Ok r"
    using assms(1) Some by (auto simp: handle_peers_def bind_outcome_Ok_iff)
  show ?thesis
  proof (cases "\<exists>peers. r = Inr peers \<and> peers \<noteq> [] \<and> (?bind \<longrightarrow> length peers = 1) \<and>
      length (?perms peers) \<le> max_permissions (sv_options sv)")
    case False
    then show ?thesis
      using assms(1) Some r fail_keeps [OF _ assms(2)]
      by (auto simp: handle_peers_def Let_def not_le split: sum.splits if_splits)
  next
    case True
    then obtain peers where peers: "r = Inr peers" "peers \<noteq> []" "?bind \<Longrightarrow> length peers = 1"
        "length (?perms peers) \<le> max_permissions (sv_options sv)"
      by blast
    have q: "\<forall>q \<in> set peers. PeerAllowed (sv_options sv) q (msg_method m \<noteq> method_code CreatePermission) \<and> IsV6 q = IsV6 (al_advertised al)"
      using peers_loop_allowed r peers(1) by blast
    show ?thesis
    proof (cases ?bind)
      case True
      then obtain peer where peer: "peers = [peer]"
        using peers(3) by (cases peers) auto
      have "handle_channel_bind ex io client s al m key peer (?perms [peer]) sv = Ok (resp, sv')"
        using assms(1) Some r peers peer True by (simp add: handle_peers_def)
      then show ?thesis
        using handle_channel_bind_refines [OF _ assms(2) Some assms(3) [OF Some] _ _ refl] q peers(4) peer True by simp
    next
      case False
      then have c: "sv' = sv \<or> resp \<noteq> [] \<and> sv' = set_session client (s\<lparr>ss_allocation := Some (al\<lparr>al_permissions := ?perms peers\<rparr>)\<rparr>) sv"
        using assms(1) Some r peers by (auto simp: handle_peers_def bind_outcome_Ok_iff Let_def split: if_splits)
      have "allocation_step (sv_options sv) (io_now_request io) user (sv_generation sv) (Some al) (Some (al\<lparr>al_permissions := ?perms peers\<rparr>))"
        using q peers(4) PeerAllowed_any_port by (intro allocation_step.permit [OF assms(3) [OF Some] refl]) blast+
      then show ?thesis
        using c refines_refl [OF assms(2)] refines_change [OF _ Some] by blast
    qed
  qed
qed

lemma HandleRequest_refines:
  assumes "HandleRequest ex io client s m auth p sv = Ok (resp, sv')" "map_of (sv_sessions sv) client = Some s"
  shows "refines (sv_options sv) (io_now_request io) (ar_username auth) client s sv resp sv'"
proof (cases "case ss_allocation s of None \<Rightarrow> False | Some al \<Rightarrow> al_username al \<noteq> ar_username auth")
  case True
  then show ?thesis
    using assms(1) fail_keeps [OF _ assms(2)] by (simp add: HandleRequest_def)
next
  case False
  then have u: "ss_allocation s = Some al \<Longrightarrow> al_username al = ar_username auth" for al
    by simp
  have fk: "bind_outcome r (\<lambda>r. Ok (r, sv)) = Ok (resp, sv') \<Longrightarrow> ?thesis" for r
    by (rule fail_keeps [OF _ assms(2)])
  show ?thesis
    using assms(1) False unfolding HandleRequest_def Let_def
    by (auto split: outcome.splits if_splits
        intro: fk handle_refresh_refines [OF _ assms(2) u] handle_allocate_refines [OF _ assms(2)] handle_peers_refines [OF _ assms(2) u])
qed

end
