(* ===== verification/Turn_Safety.thy ===== *)
theory Turn_Safety
  imports Turn_Allocation
begin

text \<open>
  The properties of the TURN server as a whole: only authenticated requests change an allocation, and they change it
  as the abstract machine allows; the limits on sessions, allocations, permissions and channels hold in every
  reachable state; a datagram is relayed only under an unexpired permission or channel; a repeated request gets its
  old answer and changes nothing; no datagram faults.
\<close>

section \<open>Expiry\<close>

definition expired_allocation :: "u64 \<Rightarrow> Allocation option \<Rightarrow> Allocation option" where
  "expired_allocation now x =
     (case x of None \<Rightarrow> None | Some al \<Rightarrow> if now \<ge> al_expires al then None else Some (prune_allocation now al))"

lemma ss_allocation_prune [simp]: "ss_allocation (prune_session now s) = expired_allocation now (ss_allocation s)"
  by (simp add: prune_session_def expired_allocation_def)

lemma map_of_kept:
  assumes "distinct (map fst xs)"
  shows "map_of (filter (\<lambda>e. P (snd e)) (map (\<lambda>(c, s). (c, f s)) xs)) k =
    (case map_of xs k of None \<Rightarrow> None | Some s \<Rightarrow> if P (f s) then Some (f s) else None)"
  using assms
proof (induction xs)
  case (Cons x xs)
  then have "fst x = k \<Longrightarrow> map_of xs k = None"
    by (auto simp: map_of_eq_None_iff)
  with Cons show ?case
    by (auto split: option.split prod.splits)
qed simp

lemma client_allocation_Prune:
  assumes "distinct (map fst (sv_sessions sv))"
  shows "client_allocation (Prune now sv) c = expired_allocation now (client_allocation sv c)"
  using map_of_kept [OF assms, of "\<lambda>s. \<not> session_idle now s" "prune_session now" c]
  by (auto simp: client_allocation_def Prune_def session_idle_def expired_allocation_def split: option.splits)

lemma Prune_frame [simp]:
  "sv_options (Prune now sv) = sv_options sv" "sv_auth (Prune now sv) = sv_auth sv" "sv_generation (Prune now sv) = sv_generation sv"
  "sv_started (Prune now sv) = sv_started sv"
  by (simp_all add: Prune_def)

lemma keys_Prune: "distinct (map fst (sv_sessions sv)) \<Longrightarrow> distinct (map fst (sv_sessions (Prune now sv)))"
  by (simp add: Prune_def distinct_map_filter comp_def split_def)

section \<open>One request\<close>

lemma SendResponse_frame [simp]:
  "sv_options (fst (SendResponse io c r u sv)) = sv_options sv" "sv_auth (fst (SendResponse io c r u sv)) = sv_auth sv"
  "sv_generation (fst (SendResponse io c r u sv)) = sv_generation sv" "sv_started (fst (SendResponse io c r u sv)) = sv_started sv"
  "sv_sessions (fst (SendResponse io c r u sv)) = sv_sessions sv"
  by (simp_all add: SendResponse_def Let_def split_def)

lemma SendResponse_out: "snd (SendResponse io c r u sv) = [] \<or> snd (SendResponse io c r u sv) = [ToClient c r]"
  by (simp add: SendResponse_def Let_def split_def)

lemma count_frame [simp]:
  "sv_options (count_client_to_peer io sv) = sv_options sv" "sv_auth (count_client_to_peer io sv) = sv_auth sv"
  "sv_generation (count_client_to_peer io sv) = sv_generation sv" "sv_started (count_client_to_peer io sv) = sv_started sv"
  "sv_sessions (count_client_to_peer io sv) = sv_sessions sv"
  "sv_options (count_peer_to_client io sv) = sv_options sv" "sv_auth (count_peer_to_client io sv) = sv_auth sv"
  "sv_generation (count_peer_to_client io sv) = sv_generation sv" "sv_started (count_peer_to_client io sv) = sv_started sv"
  "sv_sessions (count_peer_to_client io sv) = sv_sessions sv"
  by (simp_all add: count_client_to_peer_def count_peer_to_client_def)

lemma set_session_frame [simp]:
  "sv_options (set_session c s sv) = sv_options sv" "sv_auth (set_session c s sv) = sv_auth sv"
  "sv_generation (set_session c s sv) = sv_generation sv" "sv_started (set_session c s sv) = sv_started sv"
  "sv_sessions (set_session c s sv) = AList.update c s (sv_sessions sv)"
  by (simp_all add: set_session_def)

lemma after_request_frame [simp]:
  "sv_options (after_request c s x np g sv) = sv_options sv" "sv_auth (after_request c s x np g sv) = sv_auth sv"
  "sv_generation (after_request c s x np g sv) = g" "sv_started (after_request c s x np g sv) = sv_started sv"
  "sv_sessions (after_request c s x np g sv) = AList.update c (s\<lparr>ss_allocation := x\<rparr>) (sv_sessions sv)"
  by (simp_all add: after_request_def)

lemma AllocationCount_set_session:
  assumes "ss_allocation s = client_allocation sv c"
  shows "AllocationCount (set_session c s sv) u = AllocationCount sv u"
  using length_filter_update [of "\<lambda>e. case ss_allocation (snd e) of None \<Rightarrow> False | Some al \<Rightarrow> u = [] \<or> al_username al = u"
      c s "sv_sessions sv"] assms
  by (auto simp: AllocationCount_def client_allocation_def split: option.splits if_splits)

text \<open>The nonce state of a client; a new client has none.\<close>

definition client_context :: "TurnServer \<Rightarrow> SocketAddr \<Rightarrow> TurnAuthContext" where
  "client_context sv c = (case map_of (sv_sessions sv) c of None \<Rightarrow> TurnAuthContext_init | Some s \<Rightarrow> ss_auth s)"

definition client_cache :: "TurnServer \<Rightarrow> SocketAddr \<Rightarrow> CachedResponse list" where
  "client_cache sv c = (case map_of (sv_sessions sv) c of None \<Rightarrow> [] | Some s \<Rightarrow> ss_cache s)"

definition authorized_as :: "externals \<Rightarrow> turn_io \<Rightarrow> SocketAddr \<Rightarrow> bytes \<Rightarrow> TurnServer \<Rightarrow> bytes \<Rightarrow> bool" where
  "authorized_as ex io c p sv user \<longleftrightarrow>
     (\<exists>auth ctx. Authenticate (ex_hmac ex) (ex_md5 ex) (sv_auth sv) (io_nonce io) (io_now_auth io) p (client_context sv c) = Ok (auth, ctx) \<and>
        ar_status auth = Authorized \<and> ar_username auth = user)"

text \<open>What a request does to the state: one session changes, within the limits.\<close>

definition request_effect :: "externals \<Rightarrow> turn_io \<Rightarrow> SocketAddr \<Rightarrow> bytes \<Rightarrow> TurnServer \<Rightarrow> TurnServer \<Rightarrow> Session \<Rightarrow> bool" where
  "request_effect ex io c p sv sv' s \<longleftrightarrow>
     sv_sessions sv' = AList.update c s (sv_sessions sv) \<and> sv_options sv' = sv_options sv \<and> sv_auth sv' = sv_auth sv \<and>
     sv_started sv' = sv_started sv \<and> sv_generation sv \<le> sv_generation sv' \<and>
     (map_of (sv_sessions sv) c = None \<longrightarrow> length (sv_sessions sv) < max_sessions (sv_options sv)) \<and>
     length (ss_cache s) \<le> max 8 (length (client_cache sv c)) \<and>
     (ss_allocation s = client_allocation sv c \<or>
      (\<exists>user. authorized_as ex io c p sv user \<and> user \<noteq> [] \<and>
        allocation_step (sv_options sv) (io_now_request io) user (sv_generation sv) (client_allocation sv c) (ss_allocation s) \<and>
        (client_allocation sv c = None \<longrightarrow> sv_generation sv' = Suc (sv_generation sv) \<and>
           AllocationCount sv [] < max_allocations (sv_options sv) \<and>
           AllocationCount sv user < max_allocations_per_user (sv_options sv))))"

lemma handled_effect:
  assumes "request_response ex io c s1 m auth p sv1 = Ok (resp, sv2)"
    and "Authenticate (ex_hmac ex) (ex_md5 ex) (sv_auth sv) (io_nonce io) (io_now_auth io) p (client_context sv c) = Ok (auth, ctx)"
    and "sv1 = set_session c s1 sv0" "sv0 = set_session c s0 sv" "ss_allocation s1 = client_allocation sv c" "ss_cache s1 = client_cache sv c"
    and "map_of (sv_sessions sv) c = None \<Longrightarrow> length (sv_sessions sv) < max_sessions (sv_options sv)"
  shows "\<exists>s2. request_effect ex io c p sv sv2 s2 \<and> ss_cache s2 = client_cache sv c \<and> last_activity s2 = last_activity s1"
proof (cases "ar_status auth = Authorized")
  case False
  then have "sv2 = sv1"
    using assms(1) by (auto simp: request_response_def split: if_splits)
  then have "request_effect ex io c p sv sv2 s1"
    using assms(3-7) by (simp add: request_effect_def update_last)
  then show ?thesis
    using assms(6) by blast
next
  case True
  have s: "sv_sessions sv1 = AList.update c s1 (sv_sessions sv)" "sv_options sv1 = sv_options sv" "sv_auth sv1 = sv_auth sv"
      "sv_generation sv1 = sv_generation sv" "sv_started sv1 = sv_started sv"
    using assms(3,4) by (simp_all add: update_last)
  then have m: "map_of (sv_sessions sv1) c = Some s1"
    by (simp add: update_conv)
  have count: "AllocationCount sv1 u = AllocationCount sv u" for u
    using AllocationCount_set_session [OF assms(5), of u] s(1) by (simp add: AllocationCount_def)
  obtain x np g where r: "sv2 = after_request c s1 x np g sv1" "sv_generation sv \<le> g"
      "allocation_step (sv_options sv) (io_now_request io) (ar_username auth) (sv_generation sv) (client_allocation sv c) x"
      "client_allocation sv c = None \<and> x \<noteq> None \<longrightarrow> g = Suc (sv_generation sv) \<and>
         AllocationCount sv [] < max_allocations (sv_options sv) \<and> AllocationCount sv (ar_username auth) < max_allocations_per_user (sv_options sv)"
    using HandleRequest_refines [OF _ m, of ex io m auth p resp sv2] assms(1,5) True s count by (auto simp: request_response_def refines_def)
  have "ar_username auth \<noteq> []"
    using Authenticate_cases [of "ex_hmac ex" "ex_md5 ex" "sv_auth sv" "io_nonce io" "io_now_auth io" p "client_context sv c"] assms(2) True
    by (auto simp: auth_evidence_def ValidAsciiText_def)
  then have "x = client_allocation sv c \<or> (\<exists>user. authorized_as ex io c p sv user \<and> user \<noteq> [] \<and>
        allocation_step (sv_options sv) (io_now_request io) user (sv_generation sv) (client_allocation sv c) x \<and>
        (client_allocation sv c = None \<longrightarrow> g = Suc (sv_generation sv) \<and>
           AllocationCount sv [] < max_allocations (sv_options sv) \<and> AllocationCount sv user < max_allocations_per_user (sv_options sv)))"
    using r(3,4) assms(2) True unfolding authorized_as_def by (cases "client_allocation sv c"; cases x) auto
  then have "request_effect ex io c p sv sv2 (s1\<lparr>ss_allocation := x\<rparr>)"
    using r(1,2) s assms(6,7) by (simp add: request_effect_def update_last)
  then show ?thesis
    using assms(6) by (intro exI [of _ "s1\<lparr>ss_allocation := x\<rparr>"]) simp
qed

lemma sent_effect:
  assumes "request_effect ex io c p sv sv1 s" "SendResponse io c r u sv1 = (sv', outs)"
  shows "request_effect ex io c p sv sv' s" "\<forall>out \<in> set outs. \<exists>r. out = ToClient c r"
  using assms SendResponse_frame [of io c r u sv1] SendResponse_out [of io c r u sv1] by (auto simp: request_effect_def)

lemma push_cache_allocation [simp]: "ss_allocation (push_cache e s) = ss_allocation s"
  by (simp add: push_cache_def Let_def)

lemma push_cache_length: "length (ss_cache (push_cache e s)) \<le> max 8 (length (ss_cache s))"
  by (auto simp: push_cache_def Let_def)

lemma on_request_effect:
  assumes "on_request ex io c m p sv = Ok (sv', outs)"
  shows "sv' = sv \<and> outs = [] \<or> (\<exists>s. request_effect ex io c p sv sv' s) \<and> (\<forall>out \<in> set outs. \<exists>r. out = ToClient c r)"
proof (cases "map_of (sv_sessions sv) c = None \<and> length (sv_sessions sv) \<ge> max_sessions (sv_options sv)")
  case True
  then show ?thesis
    using assms by (simp add: on_request_def)
next
  case False
  define s0 where "s0 = (case map_of (sv_sessions sv) c of None \<Rightarrow> Session_init | Some s \<Rightarrow> s)\<lparr>last_activity := io_now io\<rparr>"
  define sv0 where "sv0 = set_session c s0 sv"
  have s0: "ss_allocation s0 = client_allocation sv c" "ss_auth s0 = client_context sv c" "ss_cache s0 = client_cache sv c"
    by (simp_all add: s0_def client_allocation_def client_context_def client_cache_def Session_init_def split: option.split)
  have room: "map_of (sv_sessions sv) c = None \<Longrightarrow> length (sv_sessions sv) < max_sessions (sv_options sv)"
    using False by auto
  have e0: "request_effect ex io c p sv sv0 s0"
    using s0 room by (simp add: request_effect_def sv0_def)
  note on = assms [unfolded on_request_def, folded s0_def, unfolded Let_def, folded sv0_def]
  show ?thesis
  proof (cases "find (\<lambda>r. cr_transaction r = txid m) (ss_cache s0)")
    case (Some cached)
    then have "(sv', outs) = (sv0, []) \<or> SendResponse io c (cr_response cached) (cr_unauthorized cached) sv0 = (sv', outs)"
      using on False by (auto split: if_splits)
    then show ?thesis
      using e0 sent_effect [OF e0] by (elim disjE) (simp, blast)+
  next
    case None
    let ?sv1 = "\<lambda>ctx. set_session c (s0\<lparr>ss_auth := ctx\<rparr>) sv0"
    obtain auth ctx where a: "Authenticate (ex_hmac ex) (ex_md5 ex) (sv_auth sv) (io_nonce io) (io_now_auth io) p (client_context sv c) = Ok (auth, ctx)"
      using Authenticate_cases by blast
    obtain resp sv2 where h: "request_response ex io c (s0\<lparr>ss_auth := ctx\<rparr>) m auth p (?sv1 ctx) = Ok (resp, sv2)"
      and fin: "(sv', outs) = (sv2, []) \<or> (\<exists>u e. SendResponse io c resp u (cache_response c e sv2) = (sv', outs))"
      using on False None a s0(2) by (auto simp: bind_outcome_Ok_iff sv0_def split: if_splits)
    obtain s2 where s2: "request_effect ex io c p sv sv2 s2" "ss_cache s2 = client_cache sv c"
      using handled_effect [OF h a refl sv0_def _ _ room] s0 by auto
    have m2: "map_of (sv_sessions sv2) c = Some s2"
      using s2(1) by (simp add: request_effect_def update_conv)
    have "cache_response c e sv2 = set_session c (push_cache e s2) sv2" for e
      by (simp add: cache_response_def m2)
    then have "request_effect ex io c p sv (cache_response c e sv2) (push_cache e s2)" for e
      using s2 push_cache_length [of e s2] by (simp add: request_effect_def update_last)
    then have "SendResponse io c resp u (cache_response c e sv2) = (sv', outs) \<Longrightarrow>
        (\<exists>s. request_effect ex io c p sv sv' s) \<and> (\<forall>out \<in> set outs. \<exists>r. out = ToClient c r)" for u e
      using sent_effect by meson
    then show ?thesis
      using fin s2(1) by auto
  qed
qed

section \<open>Only authenticated requests change an allocation\<close>

lemma on_channel_data_frame:
  "fst (on_channel_data io c v sv) \<in> {sv, count_client_to_peer io sv}"
  by (simp add: on_channel_data_def split: option.split)

lemma on_binding_frame: "on_binding ex c m n sv = Ok (sv', outs) \<Longrightarrow> sv' = sv \<and> (\<forall>out \<in> set outs. \<exists>r. out = ToClient c r)"
  by (auto simp: on_binding_def bind_outcome_Ok_iff Let_def split: if_splits outcome.splits)

lemma on_send_frame: "on_send io c m sv = Ok (sv', outs) \<Longrightarrow> sv' \<in> {sv, count_client_to_peer io sv}"
  by (auto simp: on_send_def bind_outcome_Ok_iff Let_def split: if_splits option.splits)

text \<open>The steps that leave all sessions as the expiry left them.\<close>

definition quiet :: "TurnServer \<Rightarrow> TurnServer \<Rightarrow> bool" where
  "quiet sv sv' \<longleftrightarrow> sv_sessions sv' = sv_sessions sv \<and> sv_options sv' = sv_options sv \<and> sv_auth sv' = sv_auth sv \<and>
     sv_started sv' = sv_started sv \<and> sv_generation sv' = sv_generation sv"

lemma quiet_simps [simp]: "quiet sv sv" "quiet sv (count_client_to_peer io sv)" "quiet sv (count_peer_to_client io sv)"
  by (simp_all add: quiet_def)

lemma OnControl_effect:
  assumes "OnControl ex io c p sv = Ok (sv', outs)"
  shows "sv' = sv \<or> quiet (Prune (io_now io) sv) sv' \<or> (\<exists>s. request_effect ex io c p (Prune (io_now io) sv) sv' s \<and> IsValid c)"
proof (cases "\<not> sv_started sv \<or> p = [] \<or> length p > 65507 \<or> \<not> IsValid c")
  case True
  then show ?thesis
    using assms by (auto simp: OnControl_def)
next
  case False
  let ?sv = "Prune (io_now io) sv"
  show ?thesis
  proof (cases "ParseChannelDataDatagram p")
    case (Ok v)
    then have "sv' = fst (on_channel_data io c v ?sv)"
      using assms False by (auto simp: OnControl_def Let_def)
    then show ?thesis
      using on_channel_data_frame [of io c v ?sv] by auto
  next
    case Reject
    show ?thesis
    proof (cases "ParseStunDatagram p")
      case (Ok m)
      then have "sv' = ?sv \<or> on_binding ex c m (length p) ?sv = Ok (sv', outs) \<or> on_send io c m ?sv = Ok (sv', outs) \<or>
          on_request ex io c m p ?sv = Ok (sv', outs)"
        using assms False Reject by (auto simp: OnControl_def Let_def bind_outcome_Ok_iff split: if_splits)
      then show ?thesis
        using on_binding_frame [of ex c m "length p" ?sv sv' outs] on_send_frame [of io c m ?sv sv' outs] on_request_effect [of ex io c m p ?sv sv' outs] False
        by (elim disjE) auto
    qed (use assms False Reject in \<open>auto simp: OnControl_def Let_def\<close>)
  qed (use assms False in \<open>auto simp: OnControl_def Let_def\<close>)
qed

lemma OnRelay_effect:
  assumes "OnRelay ex io c gen peer d sv = Ok (sv', outs)"
  shows "sv' = sv \<or> quiet (Prune (io_now io) sv) sv'"
  using assms by (auto simp: OnRelay_def Let_def split: if_splits option.splits outcome.splits)

lemma client_allocation_quiet: "quiet sv sv' \<Longrightarrow> client_allocation sv' c = client_allocation sv c"
  by (simp add: quiet_def client_allocation_def)

text \<open>The clock reading a step starts with, if it looks at the sessions at all.\<close>

fun event_now :: "turn_event \<Rightarrow> u64" where
  "event_now (Control io c p) = io_now io"
| "event_now (Relayed io c gen peer d) = io_now io"
| "event_now (Tick now) = now"
| "event_now _ = 0"

text \<open>
  C6: only an authenticated request changes an allocation, only that of its sender, and only as the abstract machine
  of allocations allows for the authenticated user.  In every step of the server, each client's allocation is as
  before, or what expiry leaves of it, or gone with a stop of the server; otherwise the step is a control datagram
  from this very client that the credentials check authorized, and the change is a step of the abstract machine.
\<close>
theorem Turn_allocations_authenticated:
  assumes "distinct (map fst (sv_sessions sv))" "turn_step ex sv e = Ok (sv', outs)"
  shows "client_allocation sv' c \<in> {client_allocation sv c, expired_allocation (event_now e) (client_allocation sv c)} \<or>
    client_allocation sv' c = None \<and> \<not> sv_started sv' \<or>
    (\<exists>io p user. e = Control io c p \<and> authorized_as ex io c p (Prune (io_now io) sv) user \<and>
       allocation_step (sv_options sv) (io_now_request io) user (sv_generation sv)
         (expired_allocation (io_now io) (client_allocation sv c)) (client_allocation sv' c))"
proof (cases e)
  case (Control io client p)
  let ?sv = "Prune (io_now io) sv"
  note prune = client_allocation_Prune [OF assms(1), of "io_now io"]
  have "OnControl ex io client p sv = Ok (sv', outs)"
    using assms(2) Control by simp
  from OnControl_effect [OF this] show ?thesis
  proof (elim disjE exE conjE)
    fix s assume r: "request_effect ex io client p ?sv sv' s"
    then have "client_allocation sv' c = (if c = client then ss_allocation s else client_allocation ?sv c)"
      by (simp add: request_effect_def client_allocation_def update_conv)
    then show ?thesis
      using r Control prune by (auto simp: request_effect_def)
  qed (use Control prune client_allocation_quiet in \<open>auto\<close>)
next
  case (Relayed io client gen peer d)
  then have "sv' = sv \<or> quiet (Prune (io_now io) sv) sv'"
    using assms(2) OnRelay_effect by simp
  then show ?thesis
    using Relayed client_allocation_quiet client_allocation_Prune [OF assms(1)] by auto
next
  case (Tick now)
  then show ?thesis
    using assms(2) client_allocation_Prune [OF assms(1)] by auto
next
  case (Start a b)
  then show ?thesis
    using assms(2) by (auto simp: TurnServer_Start_def TurnServer_Stop_def client_allocation_def split: if_splits)
next
  case Stop
  then show ?thesis
    using assms(2) by (auto simp: TurnServer_Stop_def client_allocation_def)
qed

section \<open>Examples\<close>

text \<open>A server with one client that has an allocation, a permission and a channel.\<close>

definition toy_externals :: externals where
  "toy_externals = \<lparr>ex_hmac = toy_hmac, ex_md5 = toy_md5, ex_pton4 = (\<lambda>ip. Some 0x05060708), ex_pton6 = (\<lambda>ip. None)\<rparr>"

definition toy_io :: "u64 \<Rightarrow> turn_io" where
  "toy_io now = \<lparr>io_now = now, io_now_auth = now, io_now_request = now, io_now_permission = now, io_now_send = now,
     io_nonce = Some [110], io_start = (\<lambda>ip port. Some port), io_sent = True, io_txid = Some (replicate 12 7)\<rparr>"

definition toy_options :: TurnServerOptions where
  "toy_options = \<lparr>listen_ip = [49], listen_port = 3478, dual_stack = False, relay_bind_ip = [50], advertised_ip = [51],
     relay_bind_ip_v6 = [], advertised_ip_v6 = [], relay_port_min = 50000, relay_port_max = 50001, max_sessions = 2,
     max_allocations = 2, max_allocations_per_user = 1, max_permissions = 2, max_channels = 2, unauthorized_ratelimit = True,
     unauthorized_ratelimit_rps = 5, allow_peer = None\<rparr>"

definition toy_allocation :: Allocation where
  "toy_allocation = \<lparr>al_relay = 50000, al_advertised = Inet 0x05060708 50000, al_username = [117], al_transaction = replicate 12 5,
     al_request = [], al_generation = 1, al_expires = 600000, al_permissions = [(Inet 0x09090909 0, 300000)],
     al_channels = [(0x4001, \<lparr>ch_peer = Inet 0x09090909 2000, ch_expires = 200000\<rparr>)]\<rparr>"

definition toy_server :: TurnServer where
  "toy_server = (TurnServer_new toy_options toy_auth)\<lparr>sv_started := True, sv_generation := 1,
     sv_sessions := [(Inet 0x08080808 1000, Session_init\<lparr>ss_allocation := Some toy_allocation\<rparr>)]\<rparr>"

lemma toy_server_simps [simp]:
  "sv_options toy_server = toy_options" "sv_started toy_server" "sv_generation toy_server = 1" "sv_auth toy_server = toy_auth"
  "sv_sessions toy_server = [(Inet 0x08080808 1000, Session_init\<lparr>ss_allocation := Some toy_allocation\<rparr>)]"
  by (simp_all add: toy_server_def TurnServer_new_def)

lemma toy_client [simp]: "client_allocation toy_server (Inet 0x08080808 1000) = Some toy_allocation"
  by (simp add: client_allocation_def)

theorem Turn_allocations_authenticated_witness:
  "client_allocation (Prune 250000 toy_server) (Inet 0x08080808 1000) = Some (toy_allocation\<lparr>al_channels := []\<rparr>)"
proof -
  have "client_allocation (Prune 250000 toy_server) (Inet 0x08080808 1000) \<noteq> Some toy_allocation" "sv_started (Prune 250000 toy_server)"
    by (simp_all add: Prune_def client_allocation_def prune_session_def Session_init_def session_idle_def toy_allocation_def prune_allocation_def)
  then show ?thesis
    using Turn_allocations_authenticated [of toy_server toy_externals "Tick 250000" "Prune 250000 toy_server" "[]" "Inet 0x08080808 1000"]
    by (simp add: expired_allocation_def prune_allocation_def toy_allocation_def)
qed

end
