(* ===== verification/Turn_Limits.thy ===== *)
theory Turn_Limits
  imports Turn_Safety
begin

text \<open>
  The invariant of the TURN server: its limits, and what every allocation, permission and channel in it satisfies.
  It is kept by every step of the abstract machine of allocations, by expiry, and so by every step of the server.
\<close>

section \<open>Allocations\<close>

definition alloc_ok :: "TurnServerOptions \<Rightarrow> nat \<Rightarrow> Allocation \<Rightarrow> bool" where
  "alloc_ok opts g al \<longleftrightarrow>
     distinct (map fst (al_permissions al)) \<and> length (al_permissions al) \<le> max_permissions opts \<and>
     distinct (map fst (al_channels al)) \<and> length (al_channels al) \<le> max_channels opts \<and>
     distinct (map (\<lambda>e. ch_peer (snd e)) (al_channels al)) \<and>
     (\<forall>(n, c) \<in> set (al_channels al). ValidChannel n \<and> PeerAllowed opts (ch_peer c) True \<and> IsV6 (ch_peer c) = IsV6 (al_advertised al)) \<and>
     (\<forall>(a, t) \<in> set (al_permissions al). \<exists>q. a = PeerIp q \<and> PeerAllowed opts q False \<and> IsV6 q = IsV6 (al_advertised al)) \<and>
     al_username al \<noteq> [] \<and> al_generation al \<le> g"

lemma distinct_grant: "distinct (map fst perms) \<Longrightarrow> distinct (map fst (grant t peers perms))"
  unfolding grant_def by (induction peers arbitrary: perms) (auto simp: distinct_update)

lemma set_update: "set (AList.update k v xs) \<subseteq> insert (k, v) (set xs)"
  by (induction xs) auto

lemma set_grant: "e \<in> set (grant t peers perms) \<Longrightarrow> e \<in> set perms \<or> (\<exists>q \<in> set peers. fst e = PeerIp q)"
proof (induction peers arbitrary: perms)
  case (Cons q peers)
  have "e \<in> set (grant t peers (AList.update (PeerIp q) t perms))"
    using Cons.prems by (simp add: grant_def)
  then have "e \<in> set (AList.update (PeerIp q) t perms) \<or> (\<exists>q \<in> set peers. fst e = PeerIp q)"
    by (rule Cons.IH)
  then show ?case
    using set_update [of "PeerIp q" t perms] by auto
qed (simp add: grant_def)

lemma distinct_bound_peers:
  assumes "distinct (map fst xs)" "distinct (map (\<lambda>e. ch_peer (snd e)) xs)" "\<And>k c. (k, c) \<in> set xs \<Longrightarrow> ch_peer c = ch_peer v \<Longrightarrow> k = n"
  shows "distinct (map (\<lambda>e. ch_peer (snd e)) (AList.update n v xs))"
  using assms
proof (induction xs)
  case (Cons x xs)
  show ?case
  proof (cases "fst x = n")
    case True
    then have "ch_peer (snd e) \<noteq> ch_peer v" if "e \<in> set xs" for e
      using Cons.prems(1) Cons.prems(3) [of "fst e" "snd e"] that by force
    then show ?thesis
      using True Cons.prems(2) by force
  next
    case False
    have "ch_peer (snd x) \<noteq> ch_peer v"
      using Cons.prems(3) [of "fst x" "snd x"] False by auto
    then have "ch_peer (snd x) \<notin> (\<lambda>e. ch_peer (snd e)) ` set (AList.update n v xs)"
      using Cons.prems(2) image_mono [OF set_update [of n v xs], of "\<lambda>e. ch_peer (snd e)"] by auto
    then show ?thesis
      using Cons False by (cases x) auto
  qed
qed simp

lemma alloc_ok_prune: "alloc_ok opts g al \<Longrightarrow> alloc_ok opts g (prune_allocation now al)"
  unfolding alloc_ok_def prune_allocation_def
  by (auto simp: distinct_map_filter intro: order_trans [OF length_filter_le])

lemma alloc_ok_mono: "alloc_ok opts g al \<Longrightarrow> g \<le> h \<Longrightarrow> alloc_ok opts h al"
  by (auto simp: alloc_ok_def)

lemma alloc_ok_permit:
  assumes "alloc_ok opts g al" "perms = grant t peers (al_permissions al)" "length perms \<le> max_permissions opts"
    and "\<forall>q \<in> set peers. PeerAllowed opts q False \<and> IsV6 q = IsV6 (al_advertised al)"
  shows "alloc_ok opts g (al\<lparr>al_permissions := perms\<rparr>)"
proof -
  have "\<exists>q. fst e = PeerIp q \<and> PeerAllowed opts q False \<and> IsV6 q = IsV6 (al_advertised al)" if "e \<in> set perms" for e
    using set_grant [of e t peers "al_permissions al"] assms that by (fastforce simp: alloc_ok_def)
  then show ?thesis
    using assms distinct_grant [of "al_permissions al" t peers] by (auto simp: alloc_ok_def)
qed

lemma alloc_ok_step:
  assumes "allocation_step opts now user g x (Some al')" "\<And>al. x = Some al \<Longrightarrow> alloc_ok opts g al" "user \<noteq> []"
  shows "alloc_ok opts (Suc g) al'"
  using assms(1)
proof cases
  case keep
  then show ?thesis
    using assms(2) alloc_ok_mono by (metis le_SucI order_refl)
next
  case create
  then show ?thesis
    using assms(3) by (auto simp: alloc_ok_def)
next
  case (refresh al l)
  then show ?thesis
    using assms(2) [of al] by (auto simp: alloc_ok_def)
next
  case (permit al peers perms)
  then show ?thesis
    using alloc_ok_mono [OF alloc_ok_permit [OF assms(2)]] by (metis le_SucI order_refl)
next
  case (bind al perms peer n chans)
  have ok: "alloc_ok opts (Suc g) (al\<lparr>al_permissions := perms\<rparr>)"
    using bind alloc_ok_mono [OF alloc_ok_permit [OF assms(2)], of al perms "Deadline now 300000" "[peer]" "Suc g"]
      PeerAllowed_any_port by auto
  have "distinct (map (\<lambda>e. ch_peer (snd e)) chans)"
    unfolding bind(11) using ok bind by (intro distinct_bound_peers) (auto simp: alloc_ok_def)
  moreover have "distinct (map fst chans)"
    unfolding bind(11) using ok by (simp add: alloc_ok_def distinct_update)
  moreover have "ValidChannel (fst e) \<and> PeerAllowed opts (ch_peer (snd e)) True \<and> IsV6 (ch_peer (snd e)) = IsV6 (al_advertised al)"
    if "e \<in> set chans" for e
    using that bind set_update [of n "\<lparr>ch_peer = peer, ch_expires = Deadline now 600000\<rparr>" "al_channels al"] ok
    by (fastforce simp: alloc_ok_def)
  ultimately show ?thesis
    using ok bind by (auto simp: alloc_ok_def)
qed

section \<open>The server\<close>

definition session_ok :: "TurnServerOptions \<Rightarrow> nat \<Rightarrow> Session \<Rightarrow> bool" where
  "session_ok opts g s \<longleftrightarrow> length (ss_cache s) \<le> 8 \<and> (\<forall>al. ss_allocation s = Some al \<longrightarrow> alloc_ok opts g al)"

definition server_ok :: "TurnServer \<Rightarrow> bool" where
  "server_ok sv \<longleftrightarrow>
     distinct (map fst (sv_sessions sv)) \<and> length (sv_sessions sv) \<le> max_sessions (sv_options sv) \<and>
     (\<forall>(c, s) \<in> set (sv_sessions sv). IsValid c \<and> session_ok (sv_options sv) (sv_generation sv) s) \<and>
     AllocationCount sv [] \<le> max_allocations (sv_options sv) \<and>
     (\<forall>u. u \<noteq> [] \<longrightarrow> AllocationCount sv u \<le> max_allocations_per_user (sv_options sv)) \<and>
     (\<forall>c c' al al'. client_allocation sv c = Some al \<longrightarrow> client_allocation sv c' = Some al' \<longrightarrow>
        al_generation al = al_generation al' \<longrightarrow> c = c')"

lemma session_ok_prune: "session_ok opts g s \<Longrightarrow> session_ok opts g (prune_session now s)"
  using length_dropWhile_le [of "\<lambda>c. now \<ge> cr_expires c" "ss_cache s"]
  by (auto simp: session_ok_def expired_allocation_def alloc_ok_prune prune_session_def split: option.splits if_splits)

lemma expired_SomeD: "expired_allocation now x = Some al \<Longrightarrow> \<exists>al0. x = Some al0 \<and> al_generation al = al_generation al0 \<and> al_username al = al_username al0"
  by (auto simp: expired_allocation_def prune_allocation_def split: option.splits if_splits)

lemma length_filter_sub:
  "(\<And>c s. P (c, f s) \<Longrightarrow> P (c, s)) \<Longrightarrow> length (filter P (filter Q (map (\<lambda>(c, s). (c, f s)) xs))) \<le> length (filter P xs)"
  by (induction xs) (auto simp: le_SucI)

lemma AllocationCount_Prune: "AllocationCount (Prune now sv) u \<le> AllocationCount sv u"
proof -
  let ?P = "\<lambda>e. case ss_allocation (snd e) of None \<Rightarrow> False | Some al \<Rightarrow> u = [] \<or> al_username al = u"
  have "?P (c, prune_session now s) \<Longrightarrow> ?P (c, s)" for c :: SocketAddr and s
    using expired_SomeD [of now "ss_allocation s"] by (fastforce split: option.splits)
  then show ?thesis
    using length_filter_sub [where P = ?P and f = "prune_session now" and Q = "\<lambda>e. \<not> session_idle now (snd e)" and xs = "sv_sessions sv"]
    by (simp add: AllocationCount_def Prune_def)
qed

lemma server_ok_Prune:
  assumes "server_ok sv"
  shows "server_ok (Prune now sv)"
proof -
  have d: "distinct (map fst (sv_sessions sv))"
    using assms by (simp add: server_ok_def)
  have "length (sv_sessions (Prune now sv)) \<le> length (sv_sessions sv)"
    using length_filter_le [of "\<lambda>e. \<not> session_idle now (snd e)" "map (\<lambda>(c, s). (c, prune_session now s)) (sv_sessions sv)"] by (simp add: Prune_def)
  moreover have "\<forall>(c, s) \<in> set (sv_sessions (Prune now sv)). IsValid c \<and> session_ok (sv_options sv) (sv_generation sv) s"
    using assms session_ok_prune by (fastforce simp: server_ok_def Prune_def)
  moreover have "c = c'" if h: "client_allocation (Prune now sv) c = Some al" "client_allocation (Prune now sv) c' = Some al'"
      "al_generation al = al_generation al'" for c c' al al'
  proof -
    obtain a where a: "client_allocation sv c = Some a" "al_generation al = al_generation a"
      using expired_SomeD [OF h(1) [unfolded client_allocation_Prune [OF d]]] by blast
    obtain a' where a': "client_allocation sv c' = Some a'" "al_generation al' = al_generation a'"
      using expired_SomeD [OF h(2) [unfolded client_allocation_Prune [OF d]]] by blast
    show ?thesis
      using assms a a' h(3) by (simp add: server_ok_def)
  qed
  ultimately show ?thesis
    using assms keys_Prune [OF d] order_trans [OF AllocationCount_Prune [of now sv]] unfolding server_ok_def Prune_frame
    by simp
qed

lemma server_ok_quiet:
  assumes "server_ok sv" "quiet sv sv'"
  shows "server_ok sv'"
proof -
  have "AllocationCount sv' u = AllocationCount sv u" for u
    using assms(2) by (simp add: AllocationCount_def quiet_def)
  moreover have "client_allocation sv' c = client_allocation sv c" for c
    using client_allocation_quiet [OF assms(2)] .
  ultimately show ?thesis
    using assms unfolding server_ok_def quiet_def by simp
qed

lemma step_username:
  assumes "allocation_step opts now user g x (Some al)" "x = Some al0"
  shows "al_username al = al_username al0" "al_generation al = al_generation al0"
  using assms by (auto elim: allocation_step.cases)

definition counted :: "bytes \<Rightarrow> Allocation option \<Rightarrow> bool" where
  "counted u x = (case x of None \<Rightarrow> False | Some al \<Rightarrow> u = [] \<or> al_username al = u)"

lemma AllocationCount_update:
  assumes "sv_sessions sv' = AList.update c s (sv_sessions sv)"
  shows "AllocationCount sv' u + (if counted u (client_allocation sv c) then 1 else 0) =
    AllocationCount sv u + (if counted u (ss_allocation s) then 1 else 0)"
proof -
  have "(\<exists>v. map_of (sv_sessions sv) c = Some v \<and> counted u (ss_allocation v)) \<longleftrightarrow> counted u (client_allocation sv c)"
    by (cases "map_of (sv_sessions sv) c") (simp_all add: client_allocation_def counted_def)
  moreover have "AllocationCount x u = length (filter (\<lambda>e. counted u (ss_allocation (snd e))) (sv_sessions x))" for x
    by (simp add: AllocationCount_def counted_def)
  ultimately show ?thesis
    using length_filter_update [of "\<lambda>e. counted u (ss_allocation (snd e))" c s "sv_sessions sv"] assms by simp
qed

lemma length_update: "length (AList.update k v xs) = (if map_of xs k = None then Suc (length xs) else length xs)"
  by (induction xs) auto

lemma client_allocation_ok:
  assumes "server_ok sv" "client_allocation sv c = Some al"
  shows "alloc_ok (sv_options sv) (sv_generation sv) al"
  using assms by (auto simp: server_ok_def client_allocation_def session_ok_def split: option.splits dest!: map_of_SomeD)

lemma client_cache_ok: "server_ok sv \<Longrightarrow> length (client_cache sv c) \<le> 8"
  by (auto simp: server_ok_def client_cache_def session_ok_def split: option.splits dest!: map_of_SomeD)

lemma server_ok_request:
  assumes ok: "server_ok sv" and r: "request_effect ex io c p sv sv' s" and "IsValid c"
  shows "server_ok sv'"
proof -
  have f: "sv_sessions sv' = AList.update c s (sv_sessions sv)" "sv_options sv' = sv_options sv" "sv_generation sv \<le> sv_generation sv'"
    and room: "map_of (sv_sessions sv) c = None \<longrightarrow> length (sv_sessions sv) < max_sessions (sv_options sv)"
    using r by (simp_all add: request_effect_def)
  have change: "ss_allocation s = client_allocation sv c \<or>
      (\<exists>user. authorized_as ex io c p sv user \<and> user \<noteq> [] \<and>
        allocation_step (sv_options sv) (io_now_request io) user (sv_generation sv) (client_allocation sv c) (ss_allocation s) \<and>
        (client_allocation sv c = None \<longrightarrow> sv_generation sv' = Suc (sv_generation sv) \<and>
           AllocationCount sv [] < max_allocations (sv_options sv) \<and> AllocationCount sv user < max_allocations_per_user (sv_options sv)))"
    using r unfolding request_effect_def by (elim conjE) assumption
  have old: "client_allocation sv c = Some al \<Longrightarrow> alloc_ok (sv_options sv) (sv_generation sv) al" for al
    by (rule client_allocation_ok [OF ok])
  have oc: "AllocationCount sv [] \<le> max_allocations (sv_options sv)" "u \<noteq> [] \<Longrightarrow> AllocationCount sv u \<le> max_allocations_per_user (sv_options sv)" for u
    using ok by (simp_all add: server_ok_def)
  have new: "ss_allocation s = client_allocation sv c \<or> (\<exists>al. client_allocation sv c = Some al) \<or>
      (\<exists>user al. user \<noteq> [] \<and> client_allocation sv c = None \<and> ss_allocation s = Some al \<and> al_username al = user \<and>
        al_generation al = sv_generation sv' \<and> sv_generation sv' = Suc (sv_generation sv) \<and>
        AllocationCount sv [] < max_allocations (sv_options sv) \<and> AllocationCount sv user < max_allocations_per_user (sv_options sv))"
    using change by (auto elim: allocation_step.cases)
  have kept: "al_username al = al_username al0 \<and> al_generation al = al_generation al0"
    if "ss_allocation s = Some al" "client_allocation sv c = Some al0" for al al0
    using change that step_username by auto
  have alloc: "alloc_ok (sv_options sv) (sv_generation sv') al" if al: "ss_allocation s = Some al" for al
  proof (cases "client_allocation sv c")
    case None
    then show ?thesis
      using change al alloc_ok_step [of "sv_options sv" _ _ "sv_generation sv" None al] by auto
  next
    case (Some al0)
    have "alloc_ok (sv_options sv) (Suc (sv_generation sv)) al"
      using change al alloc_ok_step [of "sv_options sv" _ _ "sv_generation sv" "Some al0" al] old Some alloc_ok_mono [OF old [OF Some], of "Suc (sv_generation sv)"] by auto
    moreover have "al_generation al \<le> sv_generation sv'"
      using kept [OF al Some] old [OF Some] f(3) by (simp add: alloc_ok_def)
    ultimately show ?thesis
      by (simp add: alloc_ok_def)
  qed
  have cnt: "AllocationCount sv' u \<le> (if u = [] then max_allocations (sv_options sv) else max_allocations_per_user (sv_options sv))" for u
  proof (cases "counted u (ss_allocation s) \<and> \<not> counted u (client_allocation sv c)")
    case False
    then show ?thesis
      using AllocationCount_update [OF f(1), of u] oc(1) oc(2) [of u] by (auto split: if_splits)
  next
    case True
    then obtain al where al: "ss_allocation s = Some al" "u = [] \<or> al_username al = u"
      by (auto simp: counted_def split: option.splits)
    have none: "client_allocation sv c = None"
    proof (cases "client_allocation sv c")
      case (Some al0)
      then show ?thesis
        using kept [OF al(1) Some] True al by (simp add: counted_def)
    qed
    then have "AllocationCount sv [] < max_allocations (sv_options sv)" "AllocationCount sv (al_username al) < max_allocations_per_user (sv_options sv)"
      using new al(1) by auto
    then show ?thesis
      using AllocationCount_update [OF f(1), of u] True al(2) by auto
  qed
  have ca: "client_allocation sv' k = (if k = c then ss_allocation s else client_allocation sv k)" for k
    by (simp add: client_allocation_def f(1) update_conv)
  have fresh: "k \<noteq> c \<Longrightarrow> ss_allocation s = Some al \<Longrightarrow> client_allocation sv k = Some al' \<Longrightarrow> al_generation al \<noteq> al_generation al'" for k al al'
  proof (cases "client_allocation sv c")
    case None
    assume a: "ss_allocation s = Some al" "client_allocation sv k = Some al'"
    have "al_generation al = Suc (sv_generation sv)"
      using new a(1) None by auto
    then show ?thesis
      using client_allocation_ok [OF ok a(2)] by (simp add: alloc_ok_def)
  next
    case (Some al0)
    assume a: "k \<noteq> c" "ss_allocation s = Some al" "client_allocation sv k = Some al'"
    show ?thesis
      using kept [OF a(2) Some] ok a(1,3) Some unfolding server_ok_def by fastforce
  qed
  have gen: "k = k'" if "client_allocation sv' k = Some al" "client_allocation sv' k' = Some al'" "al_generation al = al_generation al'" for k k' al al'
    using that fresh ok unfolding ca server_ok_def by (metis option.inject)
  have "session_ok (sv_options sv) (sv_generation sv') s"
    using r alloc client_cache_ok [OF ok, of c] by (simp add: session_ok_def request_effect_def)
  moreover have "session_ok (sv_options sv) (sv_generation sv') s'" if "session_ok (sv_options sv) (sv_generation sv) s'" for s'
    using that f(3) alloc_ok_mono by (auto simp: session_ok_def)
  ultimately have "\<forall>(k, s) \<in> set (sv_sessions sv'). IsValid k \<and> session_ok (sv_options sv) (sv_generation sv') s"
    using set_update [of c s "sv_sessions sv"] ok assms(3) unfolding f(1) server_ok_def by fast
  moreover have "distinct (map fst (sv_sessions sv'))"
    using ok unfolding f(1) server_ok_def by (simp add: distinct_update)
  moreover have "AllocationCount sv' [] \<le> max_allocations (sv_options sv)"
      "\<forall>u. u \<noteq> [] \<longrightarrow> AllocationCount sv' u \<le> max_allocations_per_user (sv_options sv)"
    using cnt [of "[]"] cnt by (simp, metis)
  moreover have "length (sv_sessions sv') \<le> max_sessions (sv_options sv)"
    using room ok unfolding f(1) length_update by (simp add: server_ok_def Suc_le_eq)
  ultimately show ?thesis
    using gen f(2) unfolding server_ok_def by simp
qed

section \<open>Every reachable state\<close>

inductive turn_reach :: "externals \<Rightarrow> TurnServerOptions \<Rightarrow> TurnAuth \<Rightarrow> TurnServer \<Rightarrow> bool" for ex opts auth where
  new: "turn_reach ex opts auth (TurnServer_new opts auth)"
| step: "turn_reach ex opts auth sv'" if "turn_reach ex opts auth sv" "turn_step ex sv e = Ok (sv', outs)"

lemma server_ok_Stop: "server_ok (TurnServer_Stop sv)"
  by (simp add: server_ok_def TurnServer_Stop_def AllocationCount_def client_allocation_def)

lemma server_ok_step:
  assumes "server_ok sv" "turn_step ex sv e = Ok (sv', outs)"
  shows "server_ok sv'"
proof (cases e)
  case (Control io c p)
  then have "OnControl ex io c p sv = Ok (sv', outs)"
    using assms(2) by simp
  from OnControl_effect [OF this] show ?thesis
    using assms(1) server_ok_quiet [OF server_ok_Prune [OF assms(1)]] server_ok_request [OF server_ok_Prune [OF assms(1)]] by blast
next
  case (Relayed io c gen peer d)
  then show ?thesis
    using assms OnRelay_effect [of ex io c gen peer d sv sv' outs] server_ok_quiet [OF server_ok_Prune [OF assms(1)]] by auto
next
  case (Tick now)
  then show ?thesis
    using assms server_ok_Prune by auto
next
  case (Start a b)
  have "server_ok (sv\<lparr>sv_started := True\<rparr>)"
    using assms(1) by (simp add: server_ok_def AllocationCount_def client_allocation_def)
  then show ?thesis
    using Start assms server_ok_Stop by (auto simp: TurnServer_Start_def split: if_splits)
next
  case Stop
  then show ?thesis
    using assms server_ok_Stop by auto
qed

lemma reach_server_ok: "turn_reach ex opts auth sv \<Longrightarrow> server_ok sv"
proof (induction rule: turn_reach.induct)
  case new
  then show ?case
    by (simp add: server_ok_def TurnServer_new_def AllocationCount_def client_allocation_def)
next
  case (step sv e sv' outs)
  then show ?case
    using server_ok_step by blast
qed

lemma step_options: "turn_step ex sv e = Ok (sv', outs) \<Longrightarrow> sv_options sv' = sv_options sv"
  using OnControl_effect [of ex _ _ _ sv sv' outs] OnRelay_effect [of ex _ _ _ _ _ sv sv' outs]
  by (cases e) (fastforce simp: quiet_def request_effect_def TurnServer_Start_def TurnServer_Stop_def split: if_splits)+

lemma reach_options: "turn_reach ex opts auth sv \<Longrightarrow> sv_options sv = opts"
  by (induction rule: turn_reach.induct) (auto simp: TurnServer_new_def step_options)

text \<open>
  C0: the limits of the configuration hold in every state the server can reach, whatever datagrams arrive: on the
  sessions, the allocations, the allocations of each user, the answers cached per session, and the permissions and
  channels of each allocation.  In each allocation a channel number stands for one peer and a peer has one channel,
  the numbers are in the range of channels, and every peer bound or permitted passed the peer policy and has the
  address family of the relay.  No two allocations share a generation, so a late datagram of a closed relay is never
  taken for one of its successor.
\<close>
theorem Turn_limits_hold:
  assumes "turn_reach ex opts auth sv" "client_allocation sv c = Some al"
  shows "length (sv_sessions sv) \<le> max_sessions opts \<and> AllocationCount sv [] \<le> max_allocations opts \<and>
    AllocationCount sv (al_username al) \<le> max_allocations_per_user opts \<and> length (client_cache sv c) \<le> 8 \<and>
    length (al_permissions al) \<le> max_permissions opts \<and> length (al_channels al) \<le> max_channels opts \<and>
    distinct (map fst (al_channels al)) \<and> distinct (map (\<lambda>e. ch_peer (snd e)) (al_channels al)) \<and>
    (\<forall>(n, ch) \<in> set (al_channels al). ValidChannel n \<and> PeerAllowed opts (ch_peer ch) True \<and> IsV6 (ch_peer ch) = IsV6 (al_advertised al)) \<and>
    (\<forall>(a, t) \<in> set (al_permissions al). \<exists>q. a = PeerIp q \<and> PeerAllowed opts q False \<and> IsV6 q = IsV6 (al_advertised al)) \<and>
    (\<forall>c' al'. client_allocation sv c' = Some al' \<longrightarrow> al_generation al' = al_generation al \<longrightarrow> c' = c)"
proof -
  have ok: "server_ok sv" and opts: "sv_options sv = opts"
    using assms(1) by (rule reach_server_ok, rule reach_options)
  have al: "alloc_ok opts (sv_generation sv) al"
    using client_allocation_ok [OF ok assms(2)] opts by simp
  show ?thesis
    using ok al opts client_cache_ok [OF ok, of c] assms(2) unfolding server_ok_def alloc_ok_def by blast
qed

end
