(* ===== verification/Turn_Relay.thy ===== *)
theory Turn_Relay
  imports Turn_Limits
begin

text \<open>
  What the TURN server sends: relayed datagrams need a live permission or channel, repeated requests get their old
  answer, and no datagram makes the server read outside it.
\<close>

section \<open>Relaying\<close>

text \<open>A grant that is alive: the allocation, and the permission or channel in it.\<close>

definition may_relay :: "TurnServerOptions \<Rightarrow> turn_io \<Rightarrow> Allocation \<Rightarrow> SocketAddr \<Rightarrow> bool" where
  "may_relay opts io al peer \<longleftrightarrow> io_now io < al_expires al \<and> PeerAllowed opts peer True \<and>
     ((\<exists>n ch. (n, ch) \<in> set (al_channels al) \<and> ch_peer ch = peer \<and> io_now io < ch_expires ch) \<or>
      (\<exists>t. map_of (al_permissions al) (PeerIp peer) = Some t \<and> io_now_permission io < t \<and> io_now io < t))"

lemma expired_allocationE:
  assumes "expired_allocation now x = Some al"
  obtains al0 where "x = Some al0" "now < al_expires al0" "al = prune_allocation now al0"
  using assms by (auto simp: expired_allocation_def not_le split: option.splits if_splits)

lemma prune_allocation_simps [simp]:
  "al_generation (prune_allocation now al) = al_generation al" "al_advertised (prune_allocation now al) = al_advertised al"
  "al_permissions (prune_allocation now al) = filter (\<lambda>e. now < snd e) (al_permissions al)"
  "al_channels (prune_allocation now al) = filter (\<lambda>e. now < ch_expires (snd e)) (al_channels al)"
  by (simp_all add: prune_allocation_def)

lemma map_of_filter_value:
  assumes "distinct (map fst xs)" "map_of (filter (\<lambda>e. P (snd e)) xs) k = Some v"
  shows "map_of xs k = Some v \<and> P v"
proof -
  have "(k, v) \<in> set (filter (\<lambda>e. P (snd e)) xs)"
    using assms(2) by (rule map_of_SomeD)
  then show ?thesis
    using assms(1) by (simp add: map_of_is_SomeI)
qed

lemma HasPermission_pruned:
  assumes "HasPermission t (prune_allocation now al) peer" "distinct (map fst (al_permissions al))"
  shows "\<exists>e. map_of (al_permissions al) (PeerIp peer) = Some e \<and> t < e \<and> now < e"
proof -
  obtain e where e: "map_of (filter (\<lambda>e. now < snd e) (al_permissions al)) (PeerIp peer) = Some e" "t < e"
    using assms(1) by (auto simp: HasPermission_def split: option.splits)
  show ?thesis
    using map_of_filter_value [OF assms(2) e(1)] e(2) by blast
qed

lemma no_relay: "ToPeer k g peer d \<in> set outs \<Longrightarrow> \<not> (\<forall>out \<in> set outs. \<exists>r. out = ToClient c r)"
  by blast

lemma OnControl_relays:
  assumes "OnControl ex io c p sv = Ok (sv', outs)" "ToPeer k g peer d \<in> set outs"
  shows "(\<exists>v. ParseChannelDataDatagram p = Ok v \<and> ToPeer k g peer d \<in> set (snd (on_channel_data io c v (Prune (io_now io) sv)))) \<or>
    (\<exists>m. ParseStunDatagram p = Ok m \<and> msg_method m = method_code Send \<and> on_send io c m (Prune (io_now io) sv) = Ok (sv', outs))"
proof (cases "\<not> sv_started sv \<or> p = [] \<or> length p > 65507 \<or> \<not> IsValid c")
  case True
  then show ?thesis
    using assms by (auto simp: OnControl_def)
next
  case False
  let ?sv = "Prune (io_now io) sv"
  show ?thesis
  proof (cases "ParseChannelDataDatagram p")
    case (Ok v)
    then show ?thesis
      using assms False by (auto simp: OnControl_def Let_def)
  next
    case Reject
    show ?thesis
    proof (cases "ParseStunDatagram p")
      case (Ok m)
      then have "outs = [] \<or> on_binding ex c m (length p) ?sv = Ok (sv', outs) \<or> msg_method m = method_code Send \<and> on_send io c m ?sv = Ok (sv', outs) \<or>
          on_request ex io c m p ?sv = Ok (sv', outs)"
        using assms False Reject by (auto simp: OnControl_def Let_def bind_outcome_Ok_iff split: if_splits)
      then show ?thesis
        using no_relay [OF assms(2), of c] on_binding_frame [of ex c m "length p" ?sv sv' outs]
          on_request_effect [of ex io c m p ?sv sv' outs] assms(2) Ok
        by (elim disjE) auto
    qed (use assms False Reject in \<open>auto simp: OnControl_def Let_def\<close>)
  qed (use assms False in \<open>auto simp: OnControl_def Let_def\<close>)
qed

lemma relays_granted:
  assumes "server_ok sv" "OnControl ex io c p sv = Ok (sv', outs)" "ToPeer k g peer d \<in> set outs"
  shows "k = c \<and> (\<exists>al. client_allocation sv c = Some al \<and> al_generation al = g \<and> may_relay (sv_options sv) io al peer)"
proof -
  let ?sv = "Prune (io_now io) sv"
  have dist: "distinct (map fst (sv_sessions sv))"
    using assms(1) by (simp add: server_ok_def)
  have live: thesis if a: "client_allocation ?sv c = Some al" and th: "\<And>al0. client_allocation sv c = Some al0 \<Longrightarrow> io_now io < al_expires al0 \<Longrightarrow>
      al = prune_allocation (io_now io) al0 \<Longrightarrow> distinct (map fst (al_permissions al0)) \<Longrightarrow> distinct (map fst (al_channels al0)) \<Longrightarrow> thesis" for al thesis
    using a client_allocation_ok [OF assms(1)] unfolding client_allocation_Prune [OF dist]
    by (elim expired_allocationE) (auto intro!: th simp: alloc_ok_def)
  from OnControl_relays [OF assms(2,3)] show ?thesis
  proof (elim disjE exE conjE)
    fix v assume v: "ToPeer k g peer d \<in> set (snd (on_channel_data io c v ?sv))"
    then obtain al ch where al: "client_allocation ?sv c = Some al" "map_of (al_channels al) (cd_channel v) = Some ch"
        "PeerAllowed (sv_options sv) (ch_peer ch) True" "k = c" "g = al_generation al" "peer = ch_peer ch"
      by (auto simp: on_channel_data_def split: option.splits if_splits)
    show ?thesis
      using al map_of_SomeD [OF al(2)] by (rule_tac live [OF al(1)]) (auto simp: may_relay_def)
  next
    fix m assume m: "on_send io c m ?sv = Ok (sv', outs)" and ms: "msg_method m = method_code Send"
    obtain al a where al: "client_allocation ?sv c = Some al" "DecodePeer (sv_options sv) m a al = Ok (0, peer)"
        "HasPermission (io_now_permission io) al peer" "k = c" "g = al_generation al"
      using m assms(3) by (auto simp: on_send_def bind_outcome_Ok_iff split: option.splits if_splits)
    show ?thesis
      using al DecodePeer_allowed [OF al(2)] ms HasPermission_pruned [of "io_now_permission io" "io_now io" _ peer]
      by (rule_tac live [OF al(1)]) (auto simp: may_relay_def)
  qed
qed

lemma passes_granted:
  assumes "server_ok sv" "OnRelay ex io c g peer d sv = Ok (sv', outs)" "outs \<noteq> []"
  shows "\<exists>al t packet. outs = [ToClient c packet] \<and> client_allocation sv c = Some al \<and> al_generation al = g \<and>
    io_now io < al_expires al \<and> PeerAllowed (sv_options sv) peer True \<and>
    map_of (al_permissions al) (PeerIp peer) = Some t \<and> io_now_permission io < t"
proof -
  let ?sv = "Prune (io_now io) sv"
  have dist: "distinct (map fst (sv_sessions sv))"
    using assms(1) by (simp add: server_ok_def)
  obtain al packet where al: "client_allocation ?sv c = Some al" "al_generation al = g" "HasPermission (io_now_permission io) al peer"
      "outs = [ToClient c packet]" "PeerAllowed (sv_options sv) peer True"
    using assms(2,3) by (auto simp: OnRelay_def Let_def split: option.splits if_splits outcome.splits)
  obtain al0 where al0: "client_allocation sv c = Some al0" "io_now io < al_expires al0" "al = prune_allocation (io_now io) al0"
    using al(1) unfolding client_allocation_Prune [OF dist] by (rule expired_allocationE)
  have "distinct (map fst (al_permissions al0))"
    using client_allocation_ok [OF assms(1) al0(1)] by (simp add: alloc_ok_def)
  then show ?thesis
    using HasPermission_pruned al al0 by fastforce
qed

text \<open>
  C5: nothing is relayed without a live grant.  A datagram leaves for a peer only in a step for a control datagram
  of a client, from this client's own allocation, which has not expired; the peer passes the policy now; and either
  a channel of the allocation that has not expired is bound to exactly this peer, or a permission for the peer's
  address has not expired.  A peer's datagram is passed on
  only to the client whose relay received it, and only under an unexpired permission for the peer's address.
\<close>
theorem Turn_relays_only_granted:
  assumes "server_ok sv" "turn_step ex sv e = Ok (sv', outs)"
  shows "(ToPeer c g peer d \<in> set outs \<longrightarrow> (\<exists>io p al. e = Control io c p \<and> client_allocation sv c = Some al \<and> al_generation al = g \<and>
      may_relay (sv_options sv) io al peer)) \<and>
    (\<forall>io c' g' peer' d'. e = Relayed io c' g' peer' d' \<and> outs \<noteq> [] \<longrightarrow> (\<exists>al t packet. outs = [ToClient c' packet] \<and>
      client_allocation sv c' = Some al \<and> al_generation al = g' \<and> io_now io < al_expires al \<and>
      PeerAllowed (sv_options sv) peer' True \<and> map_of (al_permissions al) (PeerIp peer') = Some t \<and> io_now_permission io < t))"
proof (intro conjI impI allI)
  assume o: "ToPeer c g peer d \<in> set outs"
  have rel: "OnRelay ex io k gen q x sv = Ok (sv', outs) \<Longrightarrow> False" for io k gen q x
    using passes_granted [OF assms(1), of ex io k gen q x sv' outs] o by (cases outs) auto
  show "\<exists>io p al. e = Control io c p \<and> client_allocation sv c = Some al \<and> al_generation al = g \<and> may_relay (sv_options sv) io al peer"
  proof (cases e)
    case (Control io k p)
    then show ?thesis
      using relays_granted [OF assms(1) _ o, of ex io k p sv'] assms(2) by auto
  qed (use assms(2) o rel in auto)
next
  fix io c' g' peer' d'
  assume "e = Relayed io c' g' peer' d' \<and> outs \<noteq> []"
  then show "\<exists>al t packet. outs = [ToClient c' packet] \<and> client_allocation sv c' = Some al \<and> al_generation al = g' \<and> io_now io < al_expires al \<and>
      PeerAllowed (sv_options sv) peer' True \<and> map_of (al_permissions al) (PeerIp peer') = Some t \<and> io_now_permission io < t"
    using passes_granted [OF assms(1)] assms(2) by simp
qed

lemma toy_server_ok: "server_ok toy_server"
  by (auto simp: server_ok_def toy_options_def AllocationCount_def client_allocation_def session_ok_def alloc_ok_def Session_init_def
      toy_allocation_def IsValid_def ValidChannel_def PeerAllowed_def UnicastV4_def split: if_splits
      intro!: exI [of _ "Inet 0x09090909 1"])

theorem Turn_relays_only_granted_witness:
  "turn_step toy_externals toy_server (Control (toy_io 5) (Inet 0x08080808 1000) [0x40, 0x01, 0, 1, 9]) =
     Ok (count_client_to_peer (toy_io 5) (Prune 5 toy_server), [ToPeer (Inet 0x08080808 1000) 1 (Inet 0x09090909 2000) [9]]) \<and>
   may_relay toy_options (toy_io 5) toy_allocation (Inet 0x09090909 2000)"
proof -
  let ?e = "Control (toy_io 5) (Inet 0x08080808 1000) [0x40, 0x01, 0, 1, 9]"
  have v: "ParseChannelDataDatagram [0x40, 0x01, 0, 1, 9] = Ok \<lparr>cd_channel = 0x4001, cd_data = [9]\<rparr>"
    by code_simp
  have a: "PeerAllowed toy_options (Inet 0x09090909 2000) True"
    by (simp add: PeerAllowed_def toy_options_def UnicastV4_def)
  have p: "client_allocation (Prune 5 toy_server) (Inet 0x08080808 1000) = Some toy_allocation"
    by (simp add: client_allocation_Prune expired_allocation_def prune_allocation_def toy_allocation_def)
  have s: "turn_step toy_externals toy_server ?e =
      Ok (count_client_to_peer (toy_io 5) (Prune 5 toy_server), [ToPeer (Inet 0x08080808 1000) 1 (Inet 0x09090909 2000) [9]])"
    using v p a by (simp add: OnControl_def Let_def IsValid_def on_channel_data_def toy_io_def toy_allocation_def)
  show ?thesis
    using Turn_relays_only_granted [OF toy_server_ok s, of "Inet 0x08080808 1000" 1 "Inet 0x09090909 2000" "[9]"] s by simp
qed

section \<open>Repeated requests\<close>

lemma on_request_fresh:
  assumes "on_request ex io c m p sv = Ok (sv', outs)" "find (\<lambda>r. cr_transaction r = txid m) (client_cache sv c) = None" "outs \<noteq> []"
  shows "\<exists>s e. sv_sessions sv' = AList.update c (push_cache e s) (sv_sessions sv) \<and> ss_cache s = client_cache sv c \<and>
    last_activity s = io_now io \<and> cr_transaction e = txid m \<and> cr_request e = p \<and> cr_expires e = Deadline (io_now io) 40000 \<and>
    outs = [ToClient c (cr_response e)] \<and> sv_options sv' = sv_options sv \<and> sv_started sv' = sv_started sv"
proof -
  define s0 where "s0 = (case map_of (sv_sessions sv) c of None \<Rightarrow> Session_init | Some s \<Rightarrow> s)\<lparr>last_activity := io_now io\<rparr>"
  define sv0 where "sv0 = set_session c s0 sv"
  have room: "\<not> (map_of (sv_sessions sv) c = None \<and> length (sv_sessions sv) \<ge> max_sessions (sv_options sv))"
    using assms(1,3) by (auto simp: on_request_def)
  have s0: "ss_allocation s0 = client_allocation sv c" "ss_auth s0 = client_context sv c" "ss_cache s0 = client_cache sv c" "last_activity s0 = io_now io"
    by (simp_all add: s0_def client_allocation_def client_context_def client_cache_def Session_init_def split: option.split)
  note on = assms(1) [unfolded on_request_def, folded s0_def, unfolded Let_def, folded sv0_def]
  obtain auth ctx where a: "Authenticate (ex_hmac ex) (ex_md5 ex) (sv_auth sv) (io_nonce io) (io_now_auth io) p (client_context sv c) = Ok (auth, ctx)"
    using Authenticate_cases by blast
  define e where "e = (\<lambda>resp. \<lparr>cr_transaction = txid m, cr_request = p, cr_response = resp,
    cr_expires = Deadline (io_now io) 40000, cr_unauthorized = (ar_status auth = Response \<and> ar_error_code auth = 401)\<rparr>)"
  obtain resp sv2 where h: "request_response ex io c (s0\<lparr>ss_auth := ctx\<rparr>) m auth p (set_session c (s0\<lparr>ss_auth := ctx\<rparr>) sv0) = Ok (resp, sv2)"
    and fin: "SendResponse io c resp (ar_status auth = Response \<and> ar_error_code auth = 401) (cache_response c (e resp) sv2) = (sv', outs)"
    using on room assms(2,3) a s0(2,3) by (auto simp: bind_outcome_Ok_iff sv0_def e_def split: if_splits)
  obtain s2 where s2: "request_effect ex io c p sv sv2 s2" "ss_cache s2 = client_cache sv c" "last_activity s2 = io_now io"
    using handled_effect [OF h a refl sv0_def] s0 room by (auto simp: not_le)
  have m2: "map_of (sv_sessions sv2) c = Some s2"
    using s2(1) by (simp add: request_effect_def update_conv)
  have cr: "cache_response c (e resp) sv2 = set_session c (push_cache (e resp) s2) sv2"
    by (simp add: cache_response_def m2)
  have "sv_sessions sv' = AList.update c (push_cache (e resp) s2) (sv_sessions sv) \<and> sv_options sv' = sv_options sv \<and> sv_started sv' = sv_started sv"
    using SendResponse_frame [of io c resp "ar_status auth = Response \<and> ar_error_code auth = 401" "cache_response c (e resp) sv2",
        unfolded fin fst_conv] s2(1)
    by (simp add: cr request_effect_def update_last)
  moreover have "outs = [ToClient c resp]"
    using SendResponse_out [of io c resp "ar_status auth = Response \<and> ar_error_code auth = 401" "cache_response c (e resp) sv2"] fin assms(3) by auto
  ultimately show ?thesis
    using s2 by (intro exI [of _ s2] exI [of _ "e resp"]) (simp add: e_def)
qed

lemma Supported_methods:
  "SupportedRequest m \<Longrightarrow> msg_klass m = class_code Request \<and> msg_method m \<noteq> method_code Binding \<and> msg_method m \<noteq> method_code Send \<and>
     (msg_method m = method_code Allocate \<or> msg_method m = method_code Refresh \<or> msg_method m = method_code CreatePermission \<or>
      msg_method m = method_code ChannelBind)"
  by (auto simp: SupportedRequest_def)

lemma stun_not_channel: "ParseStunDatagram p = Ok m \<Longrightarrow> ParseChannelDataDatagram p = Reject"
  using channel_not_stun [of p] ParseChannelData_safe [of p] by (cases "ParseChannelDataDatagram p") auto

lemma OnControl_request:
  assumes "sv_started sv" "p \<noteq> []" "length p \<le> 4096" "IsValid c" "ParseStunDatagram p = Ok m" "ValidFingerprint m = Ok True" "SupportedRequest m"
  shows "OnControl ex io c p sv = on_request ex io c m p (Prune (io_now io) sv)"
  using assms(1-6) stun_not_channel [OF assms(5)] Supported_methods [OF assms(7)] unfolding OnControl_def Let_def by auto

lemma OnControl_answered:
  assumes "OnControl ex io c p sv = Ok (sv', outs)" "outs \<noteq> []" "ParseStunDatagram p = Ok m" "SupportedRequest m"
  shows "sv_started sv \<and> p \<noteq> [] \<and> length p \<le> 4096 \<and> IsValid c \<and> ValidFingerprint m = Ok True"
  using assms(1-3) stun_not_channel [OF assms(3)] Supported_methods [OF assms(4)]
  unfolding OnControl_def Let_def by (auto simp: bind_outcome_Ok_iff not_le split: if_splits)

lemma within_deadline:
  assumes "s \<le> t" "t < Deadline s 40000"
  shows "\<not> t - s \<ge> (60000 :: u64)"
proof -
  have "unat s \<le> unat t"
    using assms(1) by (simp add: word_le_nat_alt)
  moreover have "unat t < unat s + 40000"
    using assms(2) unat_Deadline [of s 40000] by (simp add: word_less_nat_alt)
  ultimately show ?thesis
    using assms(1) by (simp add: word_le_nat_alt unat_sub)
qed

lemma find_cached_last:
  assumes "find P (ss_cache s) = None" "P e" "\<not> Q e"
  shows "find P (dropWhile Q (ss_cache (push_cache e s))) = Some e"
proof -
  have "\<exists>ys. ss_cache (push_cache e s) = ys @ [e] \<and> set ys \<subseteq> set (ss_cache s)"
    by (cases "ss_cache s") (auto simp: push_cache_def Let_def)
  then obtain ys where ys: "ss_cache (push_cache e s) = ys @ [e]" "set ys \<subseteq> set (ss_cache s)"
    by blast
  have "\<exists>zs. dropWhile Q (ys @ [e]) = zs @ [e] \<and> set zs \<subseteq> set ys" for ys
    using assms(3) by (induction ys) auto
  then obtain zs where zs: "dropWhile Q (ys @ [e]) = zs @ [e]" "set zs \<subseteq> set (ss_cache s)"
    using ys(2) by blast
  have "find P (zs @ [e]) = Some e" if "\<forall>z \<in> set zs. \<not> P z"
    using that assms(2) by (induction zs) auto
  moreover have "\<forall>z \<in> set zs. \<not> P z"
    using assms(1) zs(2) by (auto simp: find_None_iff)
  ultimately show ?thesis
    using ys(1) zs(1) by simp
qed

lemma prune_session_simps [simp]:
  "last_activity (prune_session now s) = last_activity s" "ss_auth (prune_session now s) = ss_auth s"
  "ss_cache (prune_session now s) = dropWhile (\<lambda>c. now \<ge> cr_expires c) (ss_cache s)"
  by (simp_all add: prune_session_def)

lemma push_cache_activity [simp]: "last_activity (push_cache e s) = last_activity s"
  by (simp add: push_cache_def Let_def)

text \<open>
  C0: a request is carried out once.  Take any datagram that holds a TURN request which is not in the cache of its
  session and gets an answer.  When the same datagram arrives again within 40 seconds, the server changes no
  allocation, apart from what has expired by then, opens no relay, keeps the nonce, and sends the same answer again;
  only the limiter of 401 answers may keep it back.
\<close>
theorem Turn_request_carried_out_once:
  assumes "server_ok sv" "OnControl ex io c p sv = Ok (sv1, outs1)" "outs1 \<noteq> []" "ParseStunDatagram p = Ok m" "SupportedRequest m"
    and "find (\<lambda>r. cr_transaction r = txid m) (client_cache (Prune (io_now io) sv) c) = None"
    and "io_now io \<le> io_now io2" "io_now io2 < Deadline (io_now io) 40000"
  shows "\<exists>sv2 outs2. OnControl ex io2 c p sv1 = Ok (sv2, outs2) \<and>
    (outs2 = outs1 \<or> outs2 = [] \<and> unauthorized_ratelimit (sv_options sv)) \<and>
    (\<forall>k. client_allocation sv2 k = expired_allocation (io_now io2) (client_allocation sv1 k)) \<and>
    client_context sv2 c = client_context sv1 c \<and> sv_generation sv2 = sv_generation sv1 \<and> sv_next_port sv2 = sv_next_port sv1"
proof -
  let ?sv = "Prune (io_now io) sv" and ?now = "io_now io2"
  let ?svp = "Prune ?now sv1"
  note ans = OnControl_answered [OF assms(2-5)]
  have "on_request ex io c m p ?sv = Ok (sv1, outs1)"
    using OnControl_request [OF _ _ _ _ assms(4) _ assms(5)] ans assms(2) by simp
  from on_request_fresh [OF this assms(6,3)] obtain s e where
    s: "sv_sessions sv1 = AList.update c (push_cache e s) (sv_sessions ?sv)" "ss_cache s = client_cache ?sv c" "last_activity s = io_now io"
    and e: "cr_transaction e = txid m" "cr_request e = p" "cr_expires e = Deadline (io_now io) 40000" "outs1 = [ToClient c (cr_response e)]"
    and f: "sv_options sv1 = sv_options sv" "sv_started sv1 = sv_started sv"
    by auto
  have dist: "distinct (map fst (sv_sessions sv1))"
    using server_ok_step [OF assms(1), of ex "Control io c p" sv1 outs1] assms(2) by (simp add: server_ok_def)
  define t where "t = prune_session ?now (push_cache e s)"
  have m1: "map_of (sv_sessions sv1) c = Some (push_cache e s)"
    by (simp add: s(1) update_conv)
  have "\<not> session_idle ?now t"
    using within_deadline [OF assms(7,8)] s(3) by (simp add: t_def session_idle_def)
  then have mt: "map_of (sv_sessions ?svp) c = Some t"
    using map_of_kept [OF dist, of "\<lambda>s. \<not> session_idle ?now s" "prune_session ?now" c] m1 by (simp add: Prune_def t_def)
  have "find (\<lambda>r. cr_transaction r = txid m) (ss_cache t) = Some e"
    using find_cached_last [of "\<lambda>r. cr_transaction r = txid m" s e "\<lambda>r. ?now \<ge> cr_expires r"] assms(6,8) s(2) e(1,3)
    by (simp add: t_def not_le)
  then have on: "on_request ex io2 c m p ?svp = Ok (SendResponse io2 c (cr_response e) (cr_unauthorized e) (set_session c (t\<lparr>last_activity := ?now\<rparr>) ?svp))"
    using mt e(2) by (simp add: on_request_def)
  obtain sv2 outs2 where r: "SendResponse io2 c (cr_response e) (cr_unauthorized e) (set_session c (t\<lparr>last_activity := ?now\<rparr>) ?svp) = (sv2, outs2)"
    by fastforce
  have "OnControl ex io2 c p sv1 = Ok (sv2, outs2)"
    using OnControl_request [OF _ _ _ _ assms(4) _ assms(5), of sv1 c ex io2] ans f on r by simp
  moreover have "outs2 = outs1 \<or> outs2 = [] \<and> unauthorized_ratelimit (sv_options sv)"
    using r e(4) f(1) by (auto simp: SendResponse_def Decision_init_def Let_def split_def split: if_splits)
  moreover have s2: "sv_sessions sv2 = AList.update c (t\<lparr>last_activity := ?now\<rparr>) (sv_sessions ?svp)" "sv_generation sv2 = sv_generation sv1"
    using SendResponse_frame [of io2 c "cr_response e" "cr_unauthorized e" "set_session c (t\<lparr>last_activity := ?now\<rparr>) ?svp", unfolded r fst_conv] by simp_all
  moreover have "sv_next_port sv2 = sv_next_port sv1"
    using r by (auto simp: SendResponse_def Let_def split_def set_session_def Prune_def split: if_splits)
  moreover have "client_allocation sv2 k = client_allocation ?svp k" for k
    using mt by (simp add: client_allocation_def s2(1) update_conv)
  then have "client_allocation sv2 k = expired_allocation ?now (client_allocation sv1 k)" for k
    using client_allocation_Prune [OF dist] by simp
  moreover have "client_context sv2 c = client_context sv1 c"
    by (simp add: client_context_def s2(1) update_conv m1 t_def)
  ultimately show ?thesis
    by blast
qed

end
