(* ===== verification/Turn_Total.thy ===== *)
theory Turn_Total
  imports Turn_Relay
begin

text \<open>
  Every step of the TURN server returns: no datagram on the control socket or on a relay, in no state, makes it read
  outside the datagram or follow a missing attribute.  The search for a relay port ends and finds a port if there is
  one.
\<close>

section \<open>Builders and decoders\<close>

definition returns :: "'a outcome \<Rightarrow> bool" where
  "returns r \<longleftrightarrow> (\<exists>v. r = Ok v)"

lemma returns_simps [simp]: "returns (Ok v)" "\<not> returns Reject" "\<not> returns Fault"
  by (simp_all add: returns_def)

lemma returns_bind [intro]: "returns r \<Longrightarrow> (\<And>v. returns (k v)) \<Longrightarrow> returns (bind_outcome r k)"
  by (auto simp: returns_def)

lemma returns_map [simp]: "returns (bind_outcome r (\<lambda>v. Ok (f v))) \<longleftrightarrow> returns r"
  by (cases r) simp_all

lemma returns_case:
  "r \<noteq> Fault \<Longrightarrow> returns b \<Longrightarrow> (\<And>v. r = Ok v \<Longrightarrow> returns (f v)) \<Longrightarrow> returns (case r of Ok v \<Rightarrow> f v | Reject \<Rightarrow> b | Fault \<Rightarrow> a)"
  by (cases r) simp_all

lemma built_Ok: "r \<noteq> Fault \<Longrightarrow> returns (built r)"
  by (cases r) (simp_all add: built_def)

lemma turn_Success_Ok: "length (txid m) = 12 \<Longrightarrow> returns (turn_Success hmac m key as)"
  unfolding turn_Success_def by (intro built_Ok BuildMessage_safe)

lemma turn_Error_Ok: "length (txid m) = 12 \<Longrightarrow> returns (turn_Error hmac m code key unknown)"
  unfolding turn_Error_def Let_def by (intro built_Ok BuildMessage_safe)

lemma length_Endpoint_ip: "length (ep_ip (Endpoint a)) = 16"
  by (cases a) (simp_all add: Endpoint_def Let_def)

lemma XorAddressAttribute_safe: "length tid = 12 \<Longrightarrow> XorAddressAttribute ty (Endpoint a) tid \<noteq> Fault"
  using length_Endpoint_ip [of a]
  by (auto simp: XorAddressAttribute_def EncodeXorAddress_def bind_Fault_iff Let_def rd_slice_def split: if_splits)

lemma FourByteAttribute_Ok:
  assumes "msg_inside m"
  obtains r where "FourByteAttribute m ty = Ok r" "\<And>a. r = Some a \<Longrightarrow> value_offset a + 4 \<le> length (raw_bytes m)"
proof (cases "FindAttr m (attr_code ty)")
  case None
  then show thesis
    by (intro that [of None]) (simp_all add: FourByteAttribute_def)
next
  case (Some a)
  obtain p where p: "msg_raw m = Some p"
    using FindAttr_inside [OF assms Some] by blast
  have v: "AttrValue m a = Ok (slice p (value_offset a) (av_len a))"
    by (rule AttrValue_found [OF assms Some p])
  show thesis
    using FindAttr_fits(2) [OF assms Some] Some v
    by (intro that [of "if av_len a \<noteq> 4 then None else if length (slice p (value_offset a) (av_len a)) \<noteq> 4 then None else Some a"])
      (auto simp: FourByteAttribute_def split: if_splits)
qed

lemma four_byte_decoders_safe:
  assumes "msg_inside m"
  shows "DecodeUInt32 m ty \<noteq> Fault" "DecodeRequestedTransport m \<noteq> Fault" "DecodeChannelNumber m \<noteq> Fault"
proof -
  show "DecodeUInt32 m ty \<noteq> Fault"
    by (rule FourByteAttribute_Ok [OF assms, of ty]) (auto simp: DecodeUInt32_def rd_simps split: option.split)
  show "DecodeRequestedTransport m \<noteq> Fault"
    by (rule FourByteAttribute_Ok [OF assms, of REQUESTED_TRANSPORT])
      (auto simp: DecodeRequestedTransport_def rd_simps split: option.split)
  show "DecodeChannelNumber m \<noteq> Fault"
    by (rule FourByteAttribute_Ok [OF assms, of CHANNEL_NUMBER])
      (auto simp: DecodeChannelNumber_def rd_simps split: option.split)
qed

lemma request_lifetime_safe: "msg_inside m \<Longrightarrow> request_lifetime m \<noteq> Fault"
  using four_byte_decoders_safe(1) by (simp add: request_lifetime_def)

lemma requested_family_safe:
  assumes "msg_inside m"
  shows "requested_family m \<noteq> Fault"
proof -
  have "rd8 (raw_bytes m) (value_offset a) k = k (raw_bytes m ! value_offset a)" if "FindAttr m t = Some a" "av_len a = 4"
    for t a and k :: "u8 \<Rightarrow> u8 outcome"
    using FindAttr_fits(2) [OF assms that(1)] that(2) by (simp add: rd_simps)
  then show ?thesis
    by (auto simp: requested_family_def split: option.split)
qed

lemma DecodePeer_Ok:
  assumes "msg_inside m" "a \<in> set (attrs m)"
  shows "\<exists>err peer. DecodePeer opts m a al = Ok (err, peer)"
proof -
  have "msg_inside (m\<lparr>attrs := [a]\<rparr>)"
    using assms by (auto simp: msg_inside_def)
  from DecodeXorAddress_safe [OF this, of XOR_PEER_ADDRESS] show ?thesis
    by (cases "DecodeXorAddress (m\<lparr>attrs := [a]\<rparr>) XOR_PEER_ADDRESS") (simp_all add: DecodePeer_def Let_def)
qed

lemma peers_loop_Ok: "msg_inside m \<Longrightarrow> set as \<subseteq> set (attrs m) \<Longrightarrow> returns (peers_loop opts m al as)"
proof (induction as)
  case (Cons a as)
  then show ?case
    using DecodePeer_Ok [OF Cons.prems(1), of a opts al] by (auto intro!: returns_bind)
qed simp

lemma attribute_count_found: "0 < attribute_count t as \<Longrightarrow> find_attr t as \<noteq> None"
  by (induction as) (auto split: if_splits)

section \<open>Handlers\<close>

lemma handle_refresh_Ok:
  assumes "length (txid m) = 12"
  shows "returns (handle_refresh ex io c s m key lifetime sv)"
proof (cases "ss_allocation s")
  case None
  then show ?thesis
    by (simp add: handle_refresh_def turn_Error_Ok [OF assms])
next
  case (Some al)
  show ?thesis
    unfolding handle_refresh_def Let_def Some option.case by (intro returns_bind turn_Success_Ok assms) simp_all
qed

lemma allocate_answer_Ok:
  assumes "length (txid m) = 12"
  shows "returns (allocate_answer ex client m key al lifetime)"
proof -
  have "turn_Success (ex_hmac ex) m key as \<noteq> Fault" for as
    using turn_Success_Ok [OF assms, of "ex_hmac ex" key as] by auto
  then show ?thesis
    unfolding allocate_answer_def by (intro built_Ok) (simp add: bind_Fault_iff XorAddressAttribute_safe [OF assms])
qed

lemma handle_new_allocation_Ok:
  assumes "length (txid m) = 12"
  shows "returns (handle_new_allocation ex io client s m auth p family public_ip lifetime sv)"
proof (cases "OpenRelay io family sv")
  case (Pair relay sv')
  then show ?thesis
    by (cases relay) (simp_all add: handle_new_allocation_def Let_def turn_Error_Ok [OF assms] allocate_answer_Ok [OF assms])
qed

lemma handle_allocate_Ok:
  assumes "length (txid m) = 12" "msg_inside m"
  shows "returns (handle_allocate ex io client s m auth p lifetime sv)"
  using four_byte_decoders_safe(2) [OF assms(2)] requested_family_safe [OF assms(2)]
  by (simp add: handle_allocate_def Let_def turn_Error_Ok [OF assms(1)] handle_new_allocation_Ok [OF assms(1)]
      allocate_answer_Ok [OF assms(1)] split: outcome.split option.split)

lemma handle_channel_bind_Ok:
  assumes "length (txid m) = 12" "msg_inside m"
  shows "returns (handle_channel_bind ex io client s al m key peer permissions sv)"
proof -
  have "returns (bind_outcome (turn_Success (ex_hmac ex) m key []) (\<lambda>response. if response = [] then Ok ([], sv) else Ok (response, sv')))"
    for sv'
    by (intro returns_bind turn_Success_Ok assms) simp
  then show ?thesis
    using four_byte_decoders_safe(3) [OF assms(2)]
    by (simp add: handle_channel_bind_def Let_def turn_Error_Ok [OF assms(1)] split: outcome.split)
qed

lemma handle_peers_Ok:
  assumes "length (txid m) = 12" "msg_inside m"
  shows "returns (handle_peers ex io client s m key sv)"
proof (cases "ss_allocation s")
  case None
  then show ?thesis
    by (simp add: handle_peers_def turn_Error_Ok [OF assms(1)])
next
  case (Some al)
  obtain r where "peers_loop (sv_options sv) m al (attrs m) = Ok r"
    using peers_loop_Ok [OF assms(2) subset_refl] unfolding returns_def by blast
  then show ?thesis
    using Some
    by (cases r) (simp_all add: handle_peers_def Let_def turn_Error_Ok [OF assms(1)] handle_channel_bind_Ok [OF assms]
        turn_Success_Ok [OF assms(1)])
qed

lemma HandleRequest_Ok:
  assumes "length (txid m) = 12" "msg_inside m"
  shows "returns (HandleRequest ex io client s m auth p sv)"
  using request_lifetime_safe [OF assms(2)]
  by (simp add: HandleRequest_def Let_def turn_Error_Ok [OF assms(1)] handle_refresh_Ok [OF assms(1)] handle_allocate_Ok [OF assms]
      handle_peers_Ok [OF assms] split: outcome.split option.split)

section \<open>Datagrams\<close>

lemma on_binding_Ok:
  assumes "length (txid m) = 12"
  shows "returns (on_binding ex client m len sv)"
  using XorAddressAttribute_safe [OF assms]
  by (simp add: on_binding_def Let_def turn_Error_Ok [OF assms] turn_Success_Ok [OF assms] split: outcome.split)

lemma on_send_Ok:
  assumes "msg_inside m" "msg_raw m = Some p"
  shows "returns (on_send io client m sv)"
proof (cases "client_allocation sv client = None \<or> UnknownAttributes m \<noteq> [] \<or> AttributeCount m XOR_PEER_ADDRESS \<noteq> 1 \<or> AttributeCount m DATA \<noteq> 1")
  case True
  then show ?thesis
    by (auto simp: on_send_def split: option.split)
next
  case False
  then obtain a d where a: "FindAttr m (attr_code XOR_PEER_ADDRESS) = Some a" and d: "FindAttr m (attr_code DATA) = Some d"
    using attribute_count_found [of "attr_code XOR_PEER_ADDRESS" "attrs m"] attribute_count_found [of "attr_code DATA" "attrs m"]
    by (auto simp: AttributeCount_def FindAttr_def)
  obtain al where al: "client_allocation sv client = Some al"
    using False by auto
  have "a \<in> set (attrs m)"
    using a by (auto simp: FindAttr_def dest: find_attr_mem)
  then obtain err peer where "DecodePeer (sv_options sv) m a al = Ok (err, peer)"
    using DecodePeer_Ok [OF assms(1)] by blast
  then show ?thesis
    using False a d al AttrValue_found [OF assms(1) d assms(2)] by (simp add: on_send_def found_attr_value_def)
qed

lemma on_request_Ok:
  assumes "length (txid m) = 12" "msg_inside m"
  shows "returns (on_request ex io client m p sv)"
proof -
  have rr: "returns (request_response ex io client s m auth p sv')" for s auth sv'
    by (simp add: request_response_def HandleRequest_Ok [OF assms])
  have au: "returns (Authenticate (ex_hmac ex) (ex_md5 ex) ta gen now p ctx)" for ta gen now ctx
    using Authenticate_cases by (fastforce simp: returns_def)
  show ?thesis
    unfolding on_request_def Let_def
    by (auto split: option.split prod.split intro!: returns_bind au rr)
qed

lemma OnControl_Ok: "returns (OnControl ex io client p sv)"
proof -
  have stun: "returns (case ParseStunDatagram p of Fault \<Rightarrow> Fault | Reject \<Rightarrow> Ok (sv', [])
    | Ok m \<Rightarrow> bind_outcome (ValidFingerprint m) (\<lambda>valid.
        if \<not> valid then Ok (sv', [])
        else if msg_method m = method_code Binding then on_binding ex client m (length p) sv'
        else if msg_method m = method_code Send \<and> msg_klass m = class_code Indication then on_send io client m sv'
        else if msg_klass m \<noteq> class_code Request \<or> length p > 4096 \<or>
          (msg_method m \<noteq> method_code Allocate \<and> msg_method m \<noteq> method_code Refresh \<and>
           msg_method m \<noteq> method_code CreatePermission \<and> msg_method m \<noteq> method_code ChannelBind) then Ok (sv', [])
        else on_request ex io client m p sv'))" (is "returns (case _ of Fault \<Rightarrow> Fault | Reject \<Rightarrow> _ | Ok m \<Rightarrow> ?k m)") for sv'
  proof (rule returns_case [OF ParseStunDatagram_safe])
    fix m assume m: "ParseStunDatagram p = Ok m"
    note pm = ParseStunDatagramE(3,4) [OF m]
    have "returns (ValidFingerprint m)"
      using VerifyFingerprint_Ok [OF pm(1)] by (auto simp: ValidFingerprint_def returns_def Let_def)
    then show "returns (?k m)"
      using on_binding_Ok [OF ParseStunDatagram_txid [OF m]] on_send_Ok [OF pm] on_request_Ok [OF ParseStunDatagram_txid [OF m] pm(1)]
      by (intro returns_bind) simp_all
  qed simp
  show ?thesis
    unfolding OnControl_def Let_def if_split [of returns]
    using returns_case [OF ParseChannelData_safe stun] by simp
qed

lemma OnRelay_Ok:
  assumes "\<And>tid. io_txid io = Some tid \<Longrightarrow> length tid = 12"
  shows "returns (OnRelay ex io client gen peer d sv)"
proof -
  have "BuildChannelData n d' q \<noteq> Fault" for n d' q
    by (simp add: BuildChannelData_def Let_def)
  then show ?thesis
    using assms XorAddressAttribute_safe BuildMessage_safe
    by (simp add: OnRelay_def Let_def split: option.split outcome.split) blast
qed

text \<open>The random generator fills the twelve bytes of a transaction identifier, when it works.\<close>

fun txid_filled :: "turn_event \<Rightarrow> bool" where
  "txid_filled (Relayed io client gen peer d) = (case io_txid io of None \<Rightarrow> True | Some tid \<Rightarrow> length tid = 12)"
| "txid_filled e = True"

text \<open>
  C9: every step of the server returns.  Whatever datagram arrives on the control socket or on a relay, in whatever
  state the server is, the step ends with a new state and the datagrams it sends: no byte outside a datagram is
  read, no missing attribute is followed, no response is built from an identifier of the wrong length.
\<close>
theorem Turn_step_returns:
  assumes "txid_filled e"
  shows "\<exists>sv' outs. turn_step ex sv e = Ok (sv', outs)"
proof (cases e)
  case (Control io client p)
  then show ?thesis
    using OnControl_Ok [of ex io client p sv] by (simp add: returns_def)
next
  case (Relayed io client gen peer d)
  then show ?thesis
    using OnRelay_Ok [of io ex client gen peer d sv] assms by (cases "io_txid io") (simp_all add: returns_def)
qed simp_all

theorem Turn_step_returns_witness:
  "\<exists>sv' outs. turn_step toy_externals toy_server (Relayed (toy_io 5) (Inet 0x08080808 1000) 1 (Inet 0x09090909 3000) [1, 2]) = Ok (sv', outs)"
  using Turn_step_returns [of "Relayed (toy_io 5) (Inet 0x08080808 1000) 1 (Inet 0x09090909 3000) [1, 2]" toy_externals toy_server]
  by (simp add: toy_io_def)

section \<open>The search for a relay port\<close>

definition next_relay_port :: "TurnServerOptions \<Rightarrow> u32 \<Rightarrow> u32" where
  "next_relay_port opts np = (if np = ucast (relay_port_max opts) then ucast (relay_port_min opts) else np + 1)"

text \<open>The cursor of the search is a port of the configured range.\<close>

definition cursor_ok :: "TurnServerOptions \<Rightarrow> u32 \<Rightarrow> bool" where
  "cursor_ok opts np \<longleftrightarrow>
     relay_port_min opts \<noteq> 0 \<and> unat (relay_port_min opts) \<le> unat np \<and> unat np \<le> unat (relay_port_max opts)"

lemma unat_port [simp]: "unat (ucast p :: u32) = unat p" for p :: u16
  by transfer (simp add: take_bit_take_bit min_def)

lemma unat_next_relay_port:
  assumes "cursor_ok opts np"
  shows "unat (next_relay_port opts np) = (if unat np = unat (relay_port_max opts) then unat (relay_port_min opts) else Suc (unat np))"
proof -
  have "np = ucast (relay_port_max opts) \<longleftrightarrow> unat np = unat (relay_port_max opts)"
    by (metis unat_port word_unat_eq_iff)
  moreover have "unat (np + 1) = Suc (unat np)"
    using assms unat_u16_less [of "relay_port_max opts"] by (subst unat_add_lem [THEN iffD1]) (simp_all add: cursor_ok_def)
  ultimately show ?thesis
    by (simp add: next_relay_port_def)
qed

lemma cursor_ok_next: "cursor_ok opts np \<Longrightarrow> cursor_ok opts (next_relay_port opts np)"
  using unat_next_relay_port [of opts np] by (auto simp: cursor_ok_def)

text \<open>The port tried in round \<open>i\<close>, counted from the cursor around the range.\<close>

definition tried_port :: "TurnServerOptions \<Rightarrow> u32 \<Rightarrow> nat \<Rightarrow> nat" where
  "tried_port opts np i =
     unat (relay_port_min opts) +
     (unat np - unat (relay_port_min opts) + i) mod (unat (relay_port_max opts) - unat (relay_port_min opts) + 1)"

lemma tried_port_0: "cursor_ok opts np \<Longrightarrow> tried_port opts np 0 = unat np"
  by (auto simp: cursor_ok_def tried_port_def)

lemma tried_port_Suc:
  assumes "cursor_ok opts np"
  shows "tried_port opts np (Suc i) = tried_port opts (next_relay_port opts np) i"
proof -
  let ?lo = "unat (relay_port_min opts)" and ?L = "unat (relay_port_max opts) - unat (relay_port_min opts) + 1"
  have "(unat (next_relay_port opts np) - ?lo) mod ?L = (unat np - ?lo + 1) mod ?L"
    using assms by (auto simp: unat_next_relay_port [OF assms] cursor_ok_def Suc_diff_le)
  then have "(unat (next_relay_port opts np) - ?lo + i) mod ?L = (unat np - ?lo + 1 + i) mod ?L"
    by (rule mod_add_cong) (rule refl)
  then show ?thesis
    by (simp add: tried_port_def)
qed

lemma open_loop_tries:
  assumes "cursor_ok opts np"
  shows "case open_loop start opts n np of
      (None, np') \<Rightarrow> cursor_ok opts np' \<and> (\<forall>i < n. start (word_of_nat (tried_port opts np i)) = None)
    | (Some q, np') \<Rightarrow> cursor_ok opts np' \<and> (\<exists>i < n. start (word_of_nat (tried_port opts np i)) = Some q)"
  using assms
proof (induction n arbitrary: np)
  case (Suc n)
  have p: "(ucast np :: u16) = word_of_nat (tried_port opts np 0)"
    by (simp add: tried_port_0 [OF Suc.prems] unsigned_word_eqI)
  have c: "cursor_ok opts (next_relay_port opts np)"
    by (rule cursor_ok_next [OF Suc.prems])
  have e: "open_loop start opts (Suc n) np = (case start (ucast np) of
      Some q \<Rightarrow> (Some q, next_relay_port opts np) | None \<Rightarrow> open_loop start opts n (next_relay_port opts np))"
    using Suc.prems unfolding open_loop.simps next_relay_port_def Let_def cursor_ok_def by simp
  show ?case
  proof (cases "start (ucast np)")
    case None
    then show ?thesis
      using Suc.IH [OF c] unfolding e p All_less_Suc2 Ex_less_Suc2
      by (auto simp: tried_port_Suc [OF Suc.prems] split: option.split prod.split)
  next
    case (Some q)
    then show ?thesis
      using c unfolding e p by auto
  qed
qed simp

lemma relay_attempts_eq:
  assumes "cursor_ok opts np"
  shows "relay_attempts opts = unat (relay_port_max opts) - unat (relay_port_min opts) + 1"
proof -
  have le: "unat (relay_port_min opts) \<le> unat (relay_port_max opts)" "relay_port_min opts \<noteq> 0"
    using assms by (auto simp: cursor_ok_def)
  then have "unat (ucast (relay_port_max opts) - ucast (relay_port_min opts) :: u32) = unat (relay_port_max opts) - unat (relay_port_min opts)"
    by (simp add: unat_sub word_le_nat_alt)
  then show ?thesis
    using le unat_u16_less [of "relay_port_max opts"]
    by (simp add: relay_attempts_def, subst unat_add_lem [THEN iffD1]) simp_all
qed

lemma image_rotate: "(\<lambda>i. (k + i) mod l) ` {..<l} = {..<l}" if "k < l" for k l :: nat
proof (intro equalityI subsetI)
  fix x assume x: "x \<in> {..<l}"
  have "(k + (x + l - k) mod l) mod l = (k + (x + l - k)) mod l"
    by (rule mod_add_right_eq)
  also have "\<dots> = x"
    using x that by simp
  finally show "x \<in> (\<lambda>i. (k + i) mod l) ` {..<l}"
    using x by (intro image_eqI [where x = "(x + l - k) mod l"]) simp_all
qed (use that in auto)

lemma tried_port_range:
  assumes "cursor_ok opts np"
  shows "(\<lambda>i. word_of_nat (tried_port opts np i)) ` {..<relay_attempts opts} = {relay_port_min opts..relay_port_max opts}"
proof -
  let ?lo = "unat (relay_port_min opts)" and ?hi = "unat (relay_port_max opts)"
  let ?L = "?hi - ?lo + 1" and ?k = "unat np - unat (relay_port_min opts)"
  have le: "?lo \<le> ?hi" "?k < ?L"
    using assms by (auto simp: cursor_ok_def)
  have "(\<lambda>i. (?k + i) mod ?L) ` {..<?L} = {..<?L}"
    using le(2) by (rule image_rotate)
  then have "(\<lambda>i. tried_port opts np i) ` {..<?L} = (+) ?lo ` {..<?L}"
    unfolding tried_port_def by (metis (no_types, lifting) image_cong image_image)
  also have "\<dots> = {?lo..?hi}"
    using le(1) by (simp add: lessThan_atLeast0 image_add_atLeastLessThan atLeastLessThanSuc_atLeastAtMost)
  finally have "(\<lambda>i. word_of_nat (tried_port opts np i) :: u16) ` {..<?L} = word_of_nat ` {?lo..?hi}"
    by (metis image_image)
  also have "\<dots> = {relay_port_min opts..relay_port_max opts}"
  proof (intro equalityI subsetI)
    fix q assume "q \<in> (word_of_nat ` {?lo..?hi} :: u16 set)"
    then obtain n where n: "q = word_of_nat n" "?lo \<le> n" "n \<le> ?hi"
      by auto
    then have "unat q = n"
      using unat_u16_less [of "relay_port_max opts"] by (simp add: unat_of_nat take_bit_nat_eq_self)
    then show "q \<in> {relay_port_min opts..relay_port_max opts}"
      using n by (simp add: word_le_nat_alt)
  next
    fix q assume "q \<in> {relay_port_min opts..relay_port_max opts}"
    then show "q \<in> (word_of_nat ` {?lo..?hi} :: u16 set)"
      by (intro image_eqI [where x = "unat q"]) (simp_all add: word_le_nat_alt)
  qed
  finally show ?thesis
    by (simp only: relay_attempts_eq [OF assms])
qed



end
