(* ===== verification/Spec2Isabelle.thy ===== *)
theory Spec2Isabelle
  imports Transport_Feedback Nack_Requester Reorder_Queue Rtcp Rtp H264_Depacketizer Turn_Total
begin

text \<open>
  Packetia-sfu.
\<close>

end
